(* ===== verification/Vdma_Prelude.thy ===== *)
theory Vdma_Prelude
  imports Main "HOL-Library.Word" "HOL-Library.Multiset" "HOL-Library.AList"
begin

text \<open>
  What every theory of the development shares: the machine types of the Rust sources, the
  checked and saturating arithmetic the code calls, the rendering of numbers in error messages,
  hash maps as association lists, reference-counted cells (\<open>Arc\<close> and \<open>Weak\<close>), and the
  locale of step systems with an invariant. The named collections are \<open>arith_simps\<close>
  (arithmetic of the code on words) and \<open>arc_simps\<close> (effect of the reference-count
  operations on strong counts).
\<close>

named_theorems arith_simps
named_theorems arc_simps

section \<open>Machine types\<close>

type_synonym u8 = "8 word"
type_synonym u32 = "32 word"
type_synonym u64 = "64 word"
type_synonym usize = "64 word"
type_synonym ptr = "64 word"

text \<open>A fallible result, \<open>Result<T, E>\<close> of the sources: \<open>Inl\<close> the error, \<open>Inr\<close> the value.\<close>

type_synonym ('e, 'a) result = "'e + 'a"

section \<open>Arithmetic of the standard library\<close>

text \<open>\<open>usize::checked_add\<close> and \<open>u64::checked_add\<close>.\<close>

definition checked_add :: "64 word \<Rightarrow> 64 word \<Rightarrow> 64 word option" where
  "checked_add a b = (if unat a + unat b < 2 ^ 64 then Some (a + b) else None)"

text \<open>\<open>usize::saturating_sub\<close>.\<close>

definition saturating_sub :: "64 word \<Rightarrow> 64 word \<Rightarrow> 64 word" where
  "saturating_sub a b = (if a < b then 0 else a - b)"

lemma checked_add_Some [arith_simps]:
  "checked_add a b = Some c \<longleftrightarrow> unat a + unat b < 2 ^ 64 \<and> c = a + b"
  by (auto simp: checked_add_def)

lemma checked_add_None [arith_simps]:
  "checked_add a b = None \<longleftrightarrow> 2 ^ 64 \<le> unat a + unat b"
  by (auto simp: checked_add_def)

lemma unat_add_no_wrap:
  fixes a b :: "64 word"
  shows "unat a + unat b < 2 ^ 64 \<Longrightarrow> unat (a + b) = unat a + unat b"
  by (simp add: unat_word_ariths)

lemma le_add_no_wrap:
  fixes a b :: "64 word"
  shows "unat a + unat b < 2 ^ 64 \<Longrightarrow> a \<le> a + b"
  by (simp add: word_le_nat_alt unat_add_no_wrap)

lemma checked_add_le: "checked_add a b = Some c \<Longrightarrow> a \<le> c"
  by (auto simp: arith_simps le_add_no_wrap)

lemma unat_saturating_sub [arith_simps]: "unat (saturating_sub a b) = unat a - unat b"
  by (auto simp: saturating_sub_def word_less_nat_alt unat_sub word_le_nat_alt)

section \<open>Numbers in messages\<close>

text \<open>Decimal digits of an unsigned integer, as \<open>Display\<close> prints them.\<close>

fun show_nat :: "nat \<Rightarrow> string" where
  "show_nat n =
     (if n < 10 then [char_of (48 + n)] else show_nat (n div 10) @ [char_of (48 + n mod 10)])"

declare show_nat.simps [simp del]

definition show_int :: "int \<Rightarrow> string" where
  "show_int i = (if i < 0 then ''-'' @ show_nat (nat (- i)) else show_nat (nat i))"

definition show_usize :: "usize \<Rightarrow> string" where
  "show_usize n = show_nat (unat n)"

lemma show_nat_small: "n < 10 \<Longrightarrow> show_nat n = [char_of (48 + n)]"
  by (subst show_nat.simps) simp

lemma show_nat_step: "10 \<le> n \<Longrightarrow> show_nat n = show_nat (n div 10) @ [char_of (48 + n mod 10)]"
  by (subst show_nat.simps) simp

lemma show_nat_nonempty: "show_nat n \<noteq> []"
  by (subst show_nat.simps) simp

section \<open>Hash maps\<close>

text \<open>
  A \<open>HashMap\<close> is an association list with distinct keys. Its iteration order is not
  observable in the sources (they look up, insert, remove, retain and count), so the order
  of the list carries no meaning. \<open>insert\<close> keeps the key that is already there and replaces
  its value, as the standard library does.
\<close>

definition hm_len :: "('k \<times> 'v) list \<Rightarrow> nat" where
  "hm_len m = length m"

definition hm_retain :: "('v \<Rightarrow> bool) \<Rightarrow> ('k \<times> 'v) list \<Rightarrow> ('k \<times> 'v) list" where
  "hm_retain p m = filter (\<lambda>(_, v). p v) m"

definition hm_values :: "('k \<times> 'v) list \<Rightarrow> 'v list" where
  "hm_values m = map snd m"

definition hm_wf :: "('k \<times> 'v) list \<Rightarrow> bool" where
  "hm_wf m \<longleftrightarrow> distinct (map fst m)"

lemma hm_wf_Nil [simp, intro]: "hm_wf []"
  by (simp add: hm_wf_def)

lemma hm_wf_update [simp, intro]: "hm_wf m \<Longrightarrow> hm_wf (AList.update k v m)"
  by (simp add: hm_wf_def distinct_update)

lemma hm_wf_delete [simp, intro]: "hm_wf m \<Longrightarrow> hm_wf (AList.delete k m)"
  by (simp add: hm_wf_def distinct_delete)

lemma hm_wf_retain [simp, intro]: "hm_wf m \<Longrightarrow> hm_wf (hm_retain p m)"
  by (auto simp: hm_wf_def hm_retain_def distinct_map intro: inj_on_subset)

lemma map_of_hm_retain:
  "hm_wf m \<Longrightarrow> map_of (hm_retain p m) k =
     (case map_of m k of None \<Rightarrow> None | Some v \<Rightarrow> if p v then Some v else None)"
proof (induction m)
  case (Cons kv m)
  obtain k' v' where kv: "kv = (k', v')" by (cases kv)
  from Cons.prems have wf: "hm_wf m" and fresh: "k' \<notin> fst ` set m"
    by (auto simp: kv hm_wf_def)
  have "map_of m k' = None" using fresh by (simp add: map_of_eq_None_iff)
  with Cons.IH [OF wf] show ?case
    by (auto simp: kv hm_retain_def split: option.splits)
qed (simp add: hm_retain_def)

text \<open>How many entries hold a given value: what one entry of the map contributes to a count.\<close>

definition hm_count :: "('k \<times> 'v) list \<Rightarrow> 'v \<Rightarrow> nat" where
  "hm_count m v = count (mset (hm_values m)) v"

lemma hm_count_Nil [simp]: "hm_count [] v = 0"
  by (simp add: hm_count_def hm_values_def)

lemma hm_count_Cons [simp]: "hm_count ((k, w) # m) v = hm_count m v + (if v = w then 1 else 0)"
  by (simp add: hm_count_def hm_values_def)

lemma hm_count_pos: "0 < hm_count m v \<longleftrightarrow> v \<in> snd ` set m"
  by (induction m) (auto simp: hm_count_def hm_values_def)

lemma hm_count_delete_absent: "k \<notin> fst ` set m \<Longrightarrow> hm_count (AList.delete k m) v = hm_count m v"
  by (simp add: delete_idem)

lemma hm_count_delete:
  "hm_wf m \<Longrightarrow> hm_count (AList.delete k m) v =
     hm_count m v - (if map_of m k = Some v then 1 else 0)"
proof (induction m)
  case (Cons kv m)
  obtain k' v' where kv: "kv = (k', v')" by (cases kv)
  from Cons.prems have wf: "hm_wf m" and fresh: "k' \<notin> fst ` set m"
    by (auto simp: kv hm_wf_def)
  have pos: "map_of m k = Some v \<Longrightarrow> 0 < hm_count m v"
    by (force simp: hm_count_pos dest: map_of_SomeD)
  show ?case
    using Cons.IH [OF wf] fresh pos
    by (auto simp: kv hm_count_delete_absent)
qed simp

lemma hm_count_update:
  "hm_wf m \<Longrightarrow> hm_count (AList.update k w m) v =
     hm_count m v - (if map_of m k = Some v then 1 else 0) + (if v = w then 1 else 0)"
proof (induction m)
  case (Cons kv m)
  obtain k' v' where kv: "kv = (k', v')" by (cases kv)
  from Cons.prems have wf: "hm_wf m" by (auto simp: kv hm_wf_def)
  have pos: "map_of m k = Some v \<Longrightarrow> 0 < hm_count m v"
    by (force simp: hm_count_pos dest: map_of_SomeD)
  show ?case using Cons.IH [OF wf] pos by (auto simp: kv)
qed simp

lemma hm_count_retain: "hm_count (hm_retain p m) v = (if p v then hm_count m v else 0)"
  by (induction m) (auto simp: hm_retain_def)

section \<open>Lists updated in one place\<close>

text \<open>What one element contributes to a sum over a list is exchanged when it is replaced.\<close>

lemma sum_list_exchange:
  fixes f :: "'a \<Rightarrow> nat"
  shows "k < length xs \<Longrightarrow> sum_list (map f (xs[k := y])) + f (xs ! k) = sum_list (map f xs) + f y"
proof (induction xs arbitrary: k)
  case (Cons x xs)
  then show ?case by (cases k) auto
qed simp

lemma sum_list_member: "k < length xs \<Longrightarrow> f (xs ! k) \<le> sum_list (map f xs)" for f :: "'a \<Rightarrow> nat"
  using sum_list_exchange [of k xs f "xs ! k"] member_le_sum_list [of "f (xs ! k)" "map f xs"] by auto

section \<open>Step systems\<close>

text \<open>
  The concurrent parts of the sources (the process-global registry, the one-shot reply, the
  awaited cell) are step relations whose steps are the atomic sections of the code. A state is
  reachable when a finite interleaving of steps leads to it from an initial state. The locale
  states what an invariant of such a system is; each component interprets it on its own steps.
\<close>

inductive reachable :: "('s \<Rightarrow> bool) \<Rightarrow> ('s \<Rightarrow> 's \<Rightarrow> bool) \<Rightarrow> 's \<Rightarrow> bool"
  for init :: "'s \<Rightarrow> bool" and step :: "'s \<Rightarrow> 's \<Rightarrow> bool"
where
  reach_init: "init s \<Longrightarrow> reachable init step s"
| reach_step: "reachable init step s \<Longrightarrow> step s t \<Longrightarrow> reachable init step t"

locale step_invariant =
  fixes init :: "'s \<Rightarrow> bool" and step :: "'s \<Rightarrow> 's \<Rightarrow> bool" and inv :: "'s \<Rightarrow> bool"
  assumes init_inv: "init s \<Longrightarrow> inv s"
    and step_inv: "inv s \<Longrightarrow> step s t \<Longrightarrow> inv t"
begin

lemma reachable_inv: "reachable init step s \<Longrightarrow> inv s"
  by (induction rule: reachable.induct) (auto intro: init_inv step_inv)

lemma steps_inv: "step\<^sup>*\<^sup>* s t \<Longrightarrow> inv s \<Longrightarrow> inv t"
  by (induction rule: rtranclp_induct) (auto intro: step_inv)

end

text \<open>
  A functional refinement: an abstraction that turns each step from a state that satisfies the
  invariant into a step of the specification, or into none.
\<close>

locale refinement = step_invariant init step inv
  for init :: "'s \<Rightarrow> bool" and step :: "'s \<Rightarrow> 's \<Rightarrow> bool" and inv :: "'s \<Rightarrow> bool" +
  fixes spec_init :: "'a \<Rightarrow> bool" and spec_step :: "'a \<Rightarrow> 'a \<Rightarrow> bool" and abs :: "'s \<Rightarrow> 'a"
  assumes abs_init: "init s \<Longrightarrow> spec_init (abs s)"
    and abs_step: "inv s \<Longrightarrow> step s t \<Longrightarrow> abs t = abs s \<or> spec_step (abs s) (abs t)"
begin

lemma reachable_abs: "reachable init step s \<Longrightarrow> reachable spec_init spec_step (abs s)"
proof (induction rule: reachable.induct)
  case (reach_step s t)
  have "abs t = abs s \<or> spec_step (abs s) (abs t)"
    by (rule abs_step [OF reachable_inv]) (use reach_step in auto)
  then show ?case using reach_step reachable.reach_step by metis
qed (auto intro: reachable.reach_init abs_init)

end

end
