(* ===== verification/Protocol.thy ===== *)
theory Protocol
  imports Vdma_Prelude
begin

text \<open>
  The crate \<open>dma-libfabric-protocol\<close>: \<open>advertisement.rs\<close> (hexadecimal and decimal fields of a
  command, the advertisement they make up), \<open>checksum.rs\<close> and \<open>error.rs\<close>. Wire data are lists
  of bytes; a \<open>String\<close> is a \<open>string\<close> whose characters are its UTF-8 bytes. The CRC routine is
  the third-party crate \<open>crc_fast\<close> and so a parameter. The lemmas show that the two hexadecimal
  functions are inverse to each other, that the decimal parser reads back what is printed and
  never wraps, and that an advertisement survives the wire.
\<close>

unbundle bit_operations_syntax

section \<open>Errors: \<open>error.rs\<close>\<close>

datatype dma_error =
    Transfer string
  | Fabric string

fun dma_error_display :: "dma_error \<Rightarrow> string" where
  "dma_error_display (Transfer m) = ''transfer failed: '' @ m"
| "dma_error_display (Fabric m) = ''fabric error: '' @ m"

section \<open>Characters, digits and UTF-8 of the standard library\<close>

definition byte_of_char :: "char \<Rightarrow> u8" where
  "byte_of_char c = word_of_nat (of_char c)"

definition string_bytes :: "string \<Rightarrow> u8 list" where
  "string_bytes s = map byte_of_char s"

text \<open>\<open>char::from_digit\<close>, for the radix the code passes.\<close>

definition from_digit :: "u32 \<Rightarrow> char option" where
  "from_digit d =
     (if unat d < 10 then Some (char_of (48 + unat d))
      else if unat d < 16 then Some (char_of (87 + unat d))
      else None)"

text \<open>\<open>(byte as char).to_digit(16)\<close>.\<close>

definition to_digit :: "u8 \<Rightarrow> u32 option" where
  "to_digit b =
     (let n = unat b in
      if 48 \<le> n \<and> n \<le> 57 then Some (word_of_nat (n - 48))
      else if 97 \<le> n \<and> n \<le> 102 then Some (word_of_nat (n - 87))
      else if 65 \<le> n \<and> n \<le> 70 then Some (word_of_nat (n - 55))
      else None)"

text \<open>\<open>std::str::from_utf8\<close>: which byte strings are well-formed UTF-8.\<close>

definition cont_byte :: "nat \<Rightarrow> nat \<Rightarrow> u8 \<Rightarrow> bool" where
  "cont_byte lo hi b \<longleftrightarrow> lo \<le> unat b \<and> unat b \<le> hi"

fun utf8_valid :: "u8 list \<Rightarrow> bool" where
  "utf8_valid [] = True"
| "utf8_valid (b # bs) =
     (let n = unat b in
      if n < 128 then utf8_valid bs
      else if 194 \<le> n \<and> n \<le> 223 then
        (case bs of c # r \<Rightarrow> cont_byte 128 191 c \<and> utf8_valid r | _ \<Rightarrow> False)
      else if 224 \<le> n \<and> n \<le> 239 then
        (case bs of c # d # r \<Rightarrow>
             cont_byte (if n = 224 then 160 else 128) (if n = 237 then 159 else 191) c
             \<and> cont_byte 128 191 d \<and> utf8_valid r
         | _ \<Rightarrow> False)
      else if 240 \<le> n \<and> n \<le> 244 then
        (case bs of c # d # e # r \<Rightarrow>
             cont_byte (if n = 240 then 144 else 128) (if n = 244 then 143 else 191) c
             \<and> cont_byte 128 191 d \<and> cont_byte 128 191 e \<and> utf8_valid r
         | _ \<Rightarrow> False)
      else False)"

declare utf8_valid.simps(2) [simp del]

section \<open>Decimal fields\<close>

text \<open>
  \<open>str::parse\<close> at an unsigned type: an optional plus sign, then at least one digit, every digit
  decimal, and no overflow of the type at any digit.
\<close>

definition decimal_digit :: "u8 \<Rightarrow> nat option" where
  "decimal_digit b = (if 48 \<le> unat b \<and> unat b \<le> 57 then Some (unat b - 48) else None)"

fun parse_digits :: "nat \<Rightarrow> nat \<Rightarrow> u8 list \<Rightarrow> nat option" where
  "parse_digits limit acc [] = Some acc"
| "parse_digits limit acc (b # bs) =
     (case decimal_digit b of
        None \<Rightarrow> None
      | Some d \<Rightarrow> (if acc * 10 < limit \<and> acc * 10 + d < limit
                   then parse_digits limit (acc * 10 + d) bs else None))"

definition parse_unsigned :: "nat \<Rightarrow> u8 list \<Rightarrow> nat option" where
  "parse_unsigned limit text =
     (let digits = (case text of b # bs \<Rightarrow> if unat b = 43 then bs else text | [] \<Rightarrow> [])
      in if digits = [] then None else parse_digits limit 0 digits)"

definition parse_ascii :: "u8 list \<Rightarrow> 'a::len word option" where
  "parse_ascii raw =
     (if utf8_valid raw then map_option word_of_nat (parse_unsigned (2 ^ LENGTH('a)) raw)
      else None)"

section \<open>Hexadecimal fields\<close>

definition hex_digit_or_zero :: "u32 \<Rightarrow> char" where
  "hex_digit_or_zero d = (case from_digit d of Some c \<Rightarrow> c | None \<Rightarrow> CHR ''0'')"

fun encode_hex :: "u8 list \<Rightarrow> string" where
  "encode_hex [] = []"
| "encode_hex (b # bs) =
     hex_digit_or_zero (ucast (drop_bit 4 b)) # hex_digit_or_zero (ucast (b AND 0x0f))
       # encode_hex bs"

datatype advertisement_error = Arity | Hex | Integer

fun advertisement_error_display :: "advertisement_error \<Rightarrow> string" where
  "advertisement_error_display Arity = ''expected: address rkey remote-address''"
| "advertisement_error_display Hex = ''invalid hex in address''"
| "advertisement_error_display Integer = ''invalid integer in advertisement''"

fun decode_pairs :: "u8 list \<Rightarrow> (advertisement_error, u8 list) result" where
  "decode_pairs (p # q # rest) =
     (case to_digit p of
        None \<Rightarrow> Inl Hex
      | Some high \<Rightarrow>
          (case to_digit q of
             None \<Rightarrow> Inl Hex
           | Some low \<Rightarrow>
               (case decode_pairs rest of
                  Inl e \<Rightarrow> Inl e
                | Inr bs \<Rightarrow> Inr (ucast (push_bit 4 high OR low) # bs))))"
| "decode_pairs _ = Inr []"

definition decode_hex :: "u8 list \<Rightarrow> (advertisement_error, u8 list) result" where
  "decode_hex text = (if length text mod 2 \<noteq> 0 then Inl Hex else decode_pairs text)"

section \<open>Advertisements\<close>

record advertisement =
  ad_address :: "u8 list"
  ad_remote_key :: u64
  ad_remote_address :: u64

definition ARG_COUNT :: nat where
  "ARG_COUNT = 3"

definition from_fields :: "u8 list list \<Rightarrow> (advertisement_error, advertisement) result" where
  "from_fields args =
     (case args of
        [address, remote_key, remote_address] \<Rightarrow>
          (case decode_hex address of
             Inl e \<Rightarrow> Inl e
           | Inr a \<Rightarrow>
               (case parse_ascii remote_key of
                  None \<Rightarrow> Inl Integer
                | Some k \<Rightarrow>
                    (case parse_ascii remote_address of
                       None \<Rightarrow> Inl Integer
                     | Some r \<Rightarrow>
                         Inr \<lparr>ad_address = a, ad_remote_key = k, ad_remote_address = r\<rparr>)))
      | _ \<Rightarrow> Inl Arity)"

section \<open>Checksums: \<open>checksum.rs\<close>\<close>

text \<open>
  \<open>crc_fast::checksum(CrcAlgorithm::Crc32Iscsi, bytes)\<close> returns 64 bits, of which the code keeps
  the low 32. The routine is a parameter.
\<close>

definition checksum :: "(u8 list \<Rightarrow> u64) \<Rightarrow> u8 list \<Rightarrow> u32" where
  "checksum crc bytes = ucast (crc bytes)"

section \<open>Hexadecimal round trips\<close>

lemma unat_byte_of_char [simp]: "n < 256 \<Longrightarrow> unat (byte_of_char (char_of n)) = n"
  by (simp add: byte_of_char_def unsigned_of_nat take_bit_nat_eq_self)

lemma to_digit_from_digit_nat:
  "n < 16 \<Longrightarrow> to_digit (byte_of_char (hex_digit_or_zero (word_of_nat n))) = Some (word_of_nat n)"
  by (cases "n < 10") (simp_all add: to_digit_def hex_digit_or_zero_def from_digit_def
      unsigned_of_nat take_bit_nat_eq_self)

lemma to_digit_from_digit [simp]:
  assumes "unat d < 16"
  shows "to_digit (byte_of_char (hex_digit_or_zero d)) = Some d"
  using to_digit_from_digit_nat [OF assms] by simp

lemma byte_bound: "unat b < 256" for b :: u8
  using unsigned_less [of b] by simp

lemma high_nibble_bound [simp]: "unat (ucast (drop_bit 4 b) :: u32) < 16" for b :: u8
proof -
  have "unat (drop_bit 4 b) = unat b div 16"
    by (simp add: drop_bit_eq_div unat_div)
  then have "unat (drop_bit 4 b) < 16"
    using byte_bound [of b] by simp
  then show ?thesis by (simp add: unsigned_ucast_eq take_bit_nat_eq_self)
qed

lemma low_nibble_bound [simp]: "unat (ucast (b AND 15) :: u32) < 16" for b :: u8
proof -
  have "unat (b AND 15) \<le> unat (15 :: u8)"
    by (rule word_and_le1 [THEN word_le_nat_alt [THEN iffD1]])
  then show ?thesis by (simp add: unsigned_ucast_eq take_bit_nat_eq_self)
qed

lemma join_nibbles [simp]:
  "ucast (push_bit 4 (ucast (drop_bit 4 b) :: u32) OR ucast (b AND 15)) = b" for b :: u8
proof -
  have fifteen: "(15 :: u8) = mask 4" by (simp add: mask_eq_exp_minus_1)
  show ?thesis
    unfolding fifteen by (rule bit_word_eqI) (auto simp: bit_simps)
qed

lemma length_encode_hex [simp]: "length (encode_hex bs) = 2 * length bs"
  by (induction bs) auto

lemma decode_pairs_encode_hex: "decode_pairs (string_bytes (encode_hex bs)) = Inr bs"
  by (induction bs) (auto simp: string_bytes_def)

text \<open>Lower-casing an ASCII letter, for the converse: decoding also takes capital digits.\<close>

definition ascii_lower :: "u8 \<Rightarrow> u8" where
  "ascii_lower b = (if 65 \<le> unat b \<and> unat b \<le> 90 then b + 32 else b)"

lemma ascii_lower_of_nat:
  "n < 256 \<Longrightarrow> ascii_lower (word_of_nat n) = word_of_nat (if 65 \<le> n \<and> n \<le> 90 then 32 + n else n)"
  by (simp add: ascii_lower_def unsigned_of_nat take_bit_nat_eq_self add.commute)

lemma to_digit_lower:
  assumes "to_digit b = Some d"
  shows "unat d < 16 \<and> byte_of_char (hex_digit_or_zero d) = ascii_lower b"
proof -
  obtain n where b: "b = word_of_nat n" and n: "n < 256"
    using byte_bound [of b] by (cases b) (auto simp: unsigned_of_nat take_bit_nat_eq_self)
  consider "48 \<le> n \<and> n \<le> 57" | "97 \<le> n \<and> n \<le> 102" | "65 \<le> n \<and> n \<le> 70"
    using assms n by (auto simp: to_digit_def Let_def b unsigned_of_nat take_bit_nat_eq_self
        split: if_splits)
  then show ?thesis
    using assms n
    by cases (auto simp: b to_digit_def Let_def hex_digit_or_zero_def from_digit_def
        byte_of_char_def ascii_lower_of_nat unsigned_of_nat take_bit_nat_eq_self
        simp del: of_nat_add of_nat_diff)
qed

lemma split_digits:
  assumes "unat h < 16" "unat l < 16"
  shows split_high: "ucast (drop_bit 4 (ucast (push_bit 4 h OR l) :: u8)) = (h :: u32)"
    and split_low: "ucast ((ucast (push_bit 4 h OR l) :: u8) AND 15) = (l :: u32)"
proof -
  have "h = take_bit 4 h" and "l = take_bit 4 l"
    using assms by (simp_all add: word_unat_eq_iff unsigned_take_bit_eq take_bit_nat_eq_self)
  then have low: "\<And>i. bit h i \<Longrightarrow> i < 4" "\<And>i. bit l i \<Longrightarrow> i < 4"
    by (metis bit_take_bit_iff)+
  have fifteen: "(15 :: u8) = mask 4" by (simp add: mask_eq_exp_minus_1)
  show "ucast (drop_bit 4 (ucast (push_bit 4 h OR l) :: u8)) = h"
    by (rule bit_word_eqI) (auto simp: bit_simps dest: low)
  show "ucast ((ucast (push_bit 4 h OR l) :: u8) AND 15) = l"
    unfolding fifteen by (rule bit_word_eqI) (auto simp: bit_simps dest: low)
qed

lemma encode_decode_pairs:
  "length text mod 2 = 0 \<Longrightarrow> decode_pairs text = Inr bs \<Longrightarrow>
     string_bytes (encode_hex bs) = map ascii_lower text"
proof (induction "text" arbitrary: bs rule: decode_pairs.induct)
  case (1 p q rest)
  then obtain h l cs where d: "to_digit p = Some h" "to_digit q = Some l"
      "decode_pairs rest = Inr cs" and bs: "bs = ucast (push_bit 4 h OR l) # cs"
    by (auto split: option.splits sum.splits)
  from d have h: "unat h < 16" "byte_of_char (hex_digit_or_zero h) = ascii_lower p"
    and l: "unat l < 16" "byte_of_char (hex_digit_or_zero l) = ascii_lower q"
    using to_digit_lower by blast+
  have "string_bytes (encode_hex cs) = map ascii_lower rest"
    using 1 d by simp
  then show ?case
    using h l by (simp add: bs string_bytes_def split_high split_low)
qed (auto simp: string_bytes_def)

lemma decode_hex_error: "decode_hex text = Inl e \<Longrightarrow> e = Hex"
proof -
  have "decode_pairs text = Inl e \<Longrightarrow> e = Hex"
    by (induction "text" rule: decode_pairs.induct) (auto split: option.splits sum.splits)
  then show "decode_hex text = Inl e \<Longrightarrow> e = Hex"
    by (auto simp: decode_hex_def split: if_splits)
qed

section \<open>Decimal round trips\<close>

text \<open>The number a string of decimal digits denotes, with no bound.\<close>

definition digits_value :: "nat list \<Rightarrow> nat" where
  "digits_value ds = fold (\<lambda>d acc. acc * 10 + d) ds 0"

lemma ascii_utf8_valid: "\<forall>b \<in> set bs. unat b < 128 \<Longrightarrow> utf8_valid bs"
  by (induction bs) (auto simp: utf8_valid.simps(2))

lemma parse_digits_value:
  "parse_digits limit acc bs = Some n \<Longrightarrow> acc < limit \<Longrightarrow>
     \<exists>ds. map decimal_digit bs = map Some ds \<and> n = fold (\<lambda>d acc. acc * 10 + d) ds acc \<and> n < limit"
proof (induction bs arbitrary: acc)
  case (Cons b bs)
  then obtain d where d: "decimal_digit b = Some d" and lt: "acc * 10 + d < limit"
    and rest: "parse_digits limit (acc * 10 + d) bs = Some n"
    by (auto split: option.splits if_splits)
  obtain ds where "map decimal_digit bs = map Some ds"
      "n = fold (\<lambda>d acc. acc * 10 + d) ds (acc * 10 + d)" "n < limit"
    using Cons.IH [OF rest lt] by blast
  then show ?case using d by (intro exI [of _ "d # ds"]) simp
qed auto

lemma parse_digits_append:
  "parse_digits limit acc (bs @ cs) =
     (case parse_digits limit acc bs of None \<Rightarrow> None | Some n \<Rightarrow> parse_digits limit n cs)"
  by (induction bs arbitrary: acc) (auto split: option.splits)

lemma decimal_digit_of_char [simp]:
  "d < 10 \<Longrightarrow> decimal_digit (byte_of_char (char_of (48 + d))) = Some d"
  by (simp add: decimal_digit_def)

lemma parse_digits_show_nat:
  "0 < limit \<Longrightarrow> parse_digits limit 0 (string_bytes (show_nat n)) = (if n < limit then Some n else None)"
proof (induction n rule: show_nat.induct)
  case (1 n)
  show ?case
  proof (cases "n < 10")
    case True
    then show ?thesis using 1 by (simp add: show_nat_small string_bytes_def)
  next
    case False
    then have IH: "parse_digits limit 0 (string_bytes (show_nat (n div 10))) =
        (if n div 10 < limit then Some (n div 10) else None)"
      using 1 by simp
    let ?last = "byte_of_char (char_of (48 + n mod 10))"
    have "parse_digits limit 0 (string_bytes (show_nat n)) =
        (if n div 10 < limit then parse_digits limit (n div 10) [?last] else None)"
      using False IH by (simp add: show_nat_step string_bytes_def parse_digits_append)
    also have "parse_digits limit (n div 10) [?last] =
        (if n div 10 * 10 < limit \<and> n < limit then Some n else None)"
      by simp
    finally show ?thesis by (auto simp: div_times_less_eq_dividend le_less_trans [OF div_le_dividend]
        intro: le_less_trans [OF div_times_less_eq_dividend])
  qed
qed

lemma show_nat_bytes: "b \<in> set (string_bytes (show_nat n)) \<Longrightarrow> 48 \<le> unat b \<and> unat b \<le> 57"
proof (induction n rule: show_nat.induct)
  case (1 n)
  have digit: "48 \<le> unat (byte_of_char (char_of (48 + d)) :: u8)
      \<and> unat (byte_of_char (char_of (48 + d)) :: u8) \<le> 57" if "d < 10" for d :: nat
    using that by simp
  show ?case
  proof (cases "n < 10")
    case True
    with 1 digit [OF True] show ?thesis by (simp add: show_nat_small string_bytes_def)
  next
    case False
    then show ?thesis
      using 1 digit [of "n mod 10"] by (auto simp: show_nat_step string_bytes_def)
  qed
qed

lemma parse_unsigned_show_nat:
  assumes "0 < limit"
  shows "parse_unsigned limit (string_bytes (show_nat n)) = (if n < limit then Some n else None)"
proof -
  obtain b bs where bytes: "string_bytes (show_nat n) = b # bs"
    using show_nat_nonempty [of n] by (cases "show_nat n") (auto simp: string_bytes_def)
  then have "unat b \<noteq> 43" using show_nat_bytes [of b n] by auto
  with bytes show ?thesis
    using parse_digits_show_nat [OF assms, of n] by (simp add: parse_unsigned_def)
qed

lemma show_nat_utf8: "utf8_valid (string_bytes (show_nat n))"
  by (rule ascii_utf8_valid) (force dest: show_nat_bytes)

lemma parse_ascii_show:
  "parse_ascii (string_bytes (show_nat n)) =
     (if n < 2 ^ LENGTH('a) then Some (word_of_nat n :: 'a::len word) else None)"
  by (simp add: parse_ascii_def show_nat_utf8 parse_unsigned_show_nat)

lemma decode_hex_encode_hex: "decode_hex (string_bytes (encode_hex bs)) = Inr bs"
  by (simp add: decode_hex_def decode_pairs_encode_hex) (simp add: string_bytes_def)

lemma word_nat_bound: "unat w < 2 ^ LENGTH('a)" for w :: "'a::len word"
  by (rule unsigned_less)

lemma word_of_nat_iff:
  "n < 2 ^ LENGTH('a) \<Longrightarrow> word_of_nat n = (w :: 'a::len word) \<longleftrightarrow> n = unat w"
  by (auto simp: unsigned_of_nat take_bit_nat_eq_self)

lemma digits_fold_ge: "acc \<le> fold (\<lambda>d acc. acc * 10 + d) ds (acc :: nat)"
proof (induction ds arbitrary: acc)
  case (Cons d ds)
  have "acc \<le> acc * 10 + d" by simp
  then show ?case using Cons.IH [of "acc * 10 + d"] by simp
qed simp

lemma parse_digits_complete:
  "map decimal_digit bs = map Some ds \<Longrightarrow> fold (\<lambda>d acc. acc * 10 + d) ds acc < limit \<Longrightarrow>
     parse_digits limit acc bs = Some (fold (\<lambda>d acc. acc * 10 + d) ds acc)"
proof (induction bs arbitrary: acc ds)
  case (Cons b bs)
  then obtain d ds' where ds: "ds = d # ds'" "decimal_digit b = Some d"
      "map decimal_digit bs = map Some ds'"
    by (cases ds) auto
  have "acc * 10 + d < limit"
    using Cons.prems(2) digits_fold_ge [of "acc * 10 + d" ds'] by (simp add: ds)
  then show ?case using Cons.IH [OF ds(3)] Cons.prems(2) by (simp add: ds)
qed simp

text \<open>The digits of a decimal field, without the plus sign it may start with.\<close>

definition unsigned_part :: "u8 list \<Rightarrow> u8 list" where
  "unsigned_part raw = (case raw of b # bs \<Rightarrow> if unat b = 43 then bs else raw | [] \<Rightarrow> [])"

lemma parse_unsigned_iff:
  assumes "0 < limit"
  shows "parse_unsigned limit raw = Some n \<longleftrightarrow>
    unsigned_part raw \<noteq> []
    \<and> (\<exists>ds. map decimal_digit (unsigned_part raw) = map Some ds \<and> n = digits_value ds \<and> n < limit)"
  using parse_digits_value [of limit 0 "unsigned_part raw" n] assms
    parse_digits_complete [of "unsigned_part raw" _ 0 limit]
  by (auto simp: parse_unsigned_def unsigned_part_def [symmetric] Let_def digits_value_def)

lemma digits_utf8:
  "map decimal_digit (unsigned_part raw) = map Some ds \<Longrightarrow> utf8_valid raw"
proof -
  assume digits: "map decimal_digit (unsigned_part raw) = map Some ds"
  have digit: "b \<in> set (unsigned_part raw) \<Longrightarrow> unat b < 128" for b
    using arg_cong [OF digits, of set] by (force simp: decimal_digit_def split: if_splits)
  have "set raw \<subseteq> {b. unat b = 43} \<union> set (unsigned_part raw)"
    by (cases raw) (auto simp: unsigned_part_def)
  then show "utf8_valid raw"
    by (intro ascii_utf8_valid) (use digit in auto)
qed

lemma decode_hex_digits:
  "decode_pairs text = Inr bs \<Longrightarrow> length text mod 2 = 0 \<Longrightarrow> b \<in> set text \<Longrightarrow> to_digit b \<noteq> None"
proof (induction "text" arbitrary: bs rule: decode_pairs.induct)
  case (1 p q rest)
  then show ?case by (auto split: option.splits sum.splits)
qed auto

lemma decode_pairs_complete:
  "\<forall>b \<in> set text. to_digit b \<noteq> None \<Longrightarrow> \<exists>bs. decode_pairs text = Inr bs"
proof (induction "text" rule: decode_pairs.induct)
  case (1 p q rest)
  then obtain h l where d: "to_digit p = Some h" "to_digit q = Some l" by auto
  then obtain bs where "decode_pairs rest = Inr bs" using "1.IH" [OF d] "1.prems" by auto
  with d show ?case by simp
qed auto

section \<open>Properties\<close>

text \<open>
  An advertisement survives the wire: the three fields a client prints (the address in
  hexadecimal by \<open>encode_hex\<close>, key and remote address in decimal) are read back as the same
  advertisement by \<open>Advertisement::from_fields\<close>, for every address, key and remote address.
\<close>

theorem advertisement_round_trip:
  "from_fields [string_bytes (encode_hex address), string_bytes (show_nat (unat key)),
      string_bytes (show_nat (unat remote))]
   = Inr \<lparr>ad_address = address, ad_remote_key = key, ad_remote_address = remote\<rparr>"
  using word_nat_bound [of key] word_nat_bound [of remote]
  by (simp add: from_fields_def decode_hex_encode_hex parse_ascii_show)

text \<open>
  Hexadecimal decoding is exact: a text is refused, with the error \<open>Hex\<close>, just when its
  length is odd or it has a byte that is no hexadecimal digit, and a decoded text is the
  encoding of the result up to the case of its letters.
\<close>

theorem decode_hex_exact:
  "(decode_hex raw = Inl e \<longleftrightarrow>
      e = Hex \<and> (length raw mod 2 = 1 \<or> list_ex (\<lambda>b. to_digit b = None) raw))
   \<and> (decode_hex raw = Inr bs \<longleftrightarrow>
      list_all (\<lambda>b. to_digit b \<noteq> None) raw \<and> string_bytes (encode_hex bs) = map ascii_lower raw)"
proof -
  have even: "length raw mod 2 = 0" if "string_bytes (encode_hex bs) = map ascii_lower raw"
    using arg_cong [OF that, of length] by (simp add: string_bytes_def) presburger
  have inj: "cs = bs" if "string_bytes (encode_hex cs) = string_bytes (encode_hex bs)" for cs bs
    using arg_cong [OF that, of decode_hex] unfolding decode_hex_encode_hex by blast
  show ?thesis
  proof (cases "decode_hex raw")
    case (Inl f)
    show ?thesis
    proof (cases "list_all (\<lambda>b. to_digit b \<noteq> None) raw")
      case True
      then have "length raw mod 2 = 1"
        using decode_pairs_complete [of raw] Inl
        by (auto simp: decode_hex_def list_all_iff odd_iff_mod_2_eq_one split: if_splits)
      then show ?thesis using decode_hex_error [OF Inl] Inl even by auto
    next
      case False
      then show ?thesis using decode_hex_error [OF Inl] Inl by (auto simp: list_all_iff list_ex_iff)
    qed
  next
    case (Inr cs)
    then have ev: "length raw mod 2 = 0" and pairs: "decode_pairs raw = Inr cs"
      by (auto simp: decode_hex_def split: if_splits)
    show ?thesis
      using Inr ev encode_decode_pairs [OF ev pairs] decode_hex_digits [OF pairs ev] inj [of cs bs]
      by (auto simp: list_all_iff list_ex_iff)
  qed
qed

text \<open>
  \<open>parse_ascii\<close> never wraps and never misreads: it answers a value just when the field is one
  or more decimal digits, after at most one plus sign, whose value as a number fits the type,
  and then the answer is that number. It refuses every other field.
\<close>

theorem parse_ascii_exact:
  "parse_ascii raw = Some (n :: 'a::len word) \<longleftrightarrow>
     unsigned_part raw \<noteq> []
     \<and> (\<exists>ds. map decimal_digit (unsigned_part raw) = map Some ds \<and> unat n = digits_value ds)"
proof -
  note pu = parse_unsigned_iff [of "2 ^ LENGTH('a)" raw, OF zero_less_power [OF zero_less_numeral]]
  have "parse_ascii raw = Some n \<longleftrightarrow>
      utf8_valid raw \<and> (\<exists>m. parse_unsigned (2 ^ LENGTH('a)) raw = Some m \<and> word_of_nat m = n)"
    by (auto simp: parse_ascii_def)
  also have "\<dots> \<longleftrightarrow> utf8_valid raw \<and> parse_unsigned (2 ^ LENGTH('a)) raw = Some (unat n)"
    using pu word_of_nat_iff [of _ n] by metis
  also have "\<dots> \<longleftrightarrow> unsigned_part raw \<noteq> []
      \<and> (\<exists>ds. map decimal_digit (unsigned_part raw) = map Some ds \<and> unat n = digits_value ds)"
    using digits_utf8 [of raw] word_nat_bound [of n] pu [of "unat n"] by metis
  finally show ?thesis .
qed

end
