(* ===== verification/Fabric.thy ===== *)
theory Fabric
  imports Protocol
begin

text \<open>
  The boundary to libfabric (\<open>sys.rs\<close>) and the mapping of its codes to errors (\<open>error.rs\<close>).
  libfabric is not part of the sources. Each of its functions the code calls is a field of the
  record \<open>fabric\<close>, a parameter of the definitions that call it. What a call answers may depend on
  everything called before, so each field that can answer differently over time takes the log of
  the calls made so far, newest first; every such call is recorded in the log with its answer.
  Quantifying over all \<open>fabric\<close> records thus ranges over every behaviour of the library, the
  clock and the memory that the network card writes.
\<close>

type_synonym fid_mr = "64 word"
type_synonym fi_addr = "64 word"

text \<open>
  An \<open>op_context\<close>: the address of a heap cell the poster owns, opaque to libfabric. Zero is the
  null pointer. The heap is not bounded in the model (a Rust program aborts when an allocation
  fails), so addresses of cells are natural numbers.
\<close>

type_synonym op_context = nat

text \<open>One RMA operation as \<open>fi_writemsg\<close> and \<open>fi_read\<close> receive it (\<open>connection.rs\<close> fills it in).\<close>

record rma =
  rma_peer :: fi_addr
  rma_buffer :: ptr
  rma_length :: usize
  rma_descriptor :: ptr
  rma_remote_address :: u64
  rma_remote_key :: u64
  rma_context :: op_context

text \<open>\<open>fi_cq_err_entry\<close>, the fields the code reads.\<close>

record cq_err_entry =
  err_op_context :: op_context
  err_code :: int
  err_prov_errno :: int

datatype call =
    MrReg usize usize usize int fid_mr
  | MrClose fid_mr
  | AvInsert "u8 list" int fi_addr
  | AvRemove fi_addr
  | WriteMsg rma int
  | ReadMsg rma int
  | CqRead nat int "op_context list"
  | CqReadErr int cq_err_entry
  | Clock nat
  | Mallctl string int
  | JeMalloc usize ptr
  | JeFree ptr
  | Reclaim string usize usize bool

type_synonym log = "call list"

text \<open>
  The constants of the generated bindings the sources compare with are fields too: \<open>FI_EAGAIN\<close>,
  \<open>FI_EAVAIL\<close> and \<open>FI_ADDR_EFA\<close>.
\<close>

record fabric =
  FI_EAGAIN :: int
  FI_EAVAIL :: int
  FI_ADDR_EFA :: u32
  fi_strerror :: "int \<Rightarrow> string"
  fi_cq_strerror :: "int \<Rightarrow> string"
  fi_mr_reg :: "log \<Rightarrow> usize \<Rightarrow> usize \<Rightarrow> usize \<Rightarrow> int \<times> fid_mr"
  fi_mr_desc :: "fid_mr \<Rightarrow> ptr"
  fi_av_insert :: "log \<Rightarrow> u8 list \<Rightarrow> int \<times> fi_addr"
  fi_writemsg :: "log \<Rightarrow> rma \<Rightarrow> int"
  fi_read :: "log \<Rightarrow> rma \<Rightarrow> int"
  fi_cq_read :: "log \<Rightarrow> nat \<Rightarrow> int \<times> op_context list"
  fi_cq_readerr :: "log \<Rightarrow> int \<times> cq_err_entry"
  instant_now :: "log \<Rightarrow> nat"
  memory_at :: "log \<Rightarrow> ptr \<Rightarrow> u8"
  crc_fast :: "u8 list \<Rightarrow> u64"

section \<open>Codes to errors: \<open>error.rs\<close>\<close>

text \<open>\<open>code as i32\<close>.\<close>

definition as_i32 :: "int \<Rightarrow> int" where
  "as_i32 c = signed_take_bit 31 c"

definition fabric_error :: "fabric \<Rightarrow> int \<Rightarrow> string \<Rightarrow> dma_error" where
  "fabric_error F code what =
     Fabric (what @ '': '' @ fi_strerror F (- code) @ '' ('' @ show_int code @ '')'')"

definition check :: "fabric \<Rightarrow> int \<Rightarrow> string \<Rightarrow> (dma_error, unit) result" where
  "check F code what = (if 0 = code then Inr () else Inl (fabric_error F code what))"

definition completion_error :: "fabric \<Rightarrow> cq_err_entry \<Rightarrow> dma_error" where
  "completion_error F entry =
     Transfer (''completion error: '' @ fi_strerror F (err_code entry) @ '' (err=''
       @ show_int (err_code entry) @ ''); provider: '' @ fi_cq_strerror F (err_prov_errno entry)
       @ '' (prov_errno='' @ show_int (err_prov_errno entry) @ '')'')"

lemma check_Inr [simp]: "check F code what = Inr u \<longleftrightarrow> code = 0"
  by (simp add: check_def)

lemma check_Inl [simp]: "check F code what = Inl e \<longleftrightarrow> code \<noteq> 0 \<and> e = fabric_error F code what"
  by (auto simp: check_def)

section \<open>Operations on the wire\<close>

text \<open>
  The contexts of the operations posted and not yet reported by the completion queue, oldest
  first, as the log shows them: a post that answered zero puts its context on the wire, and every
  entry read from the queue or from its error queue takes one off.
\<close>

fun wire :: "log \<Rightarrow> op_context list" where
  "wire [] = []"
| "wire (WriteMsg r code # l) = (if code = 0 then wire l @ [rma_context r] else wire l)"
| "wire (ReadMsg r code # l) = (if code = 0 then wire l @ [rma_context r] else wire l)"
| "wire (CqRead want n contexts # l) = (if 0 < n then fold remove1 contexts (wire l) else wire l)"
| "wire (CqReadErr n entry # l) = (if 0 < n then remove1 (err_op_context entry) (wire l) else wire l)"
| "wire (_ # l) = wire l"

text \<open>
  A fabric on which every call succeeds and every operation has completed by the next look at the
  queue. The witnesses run the code on it.
\<close>

definition loopback :: fabric where
  "loopback =
     \<lparr>FI_EAGAIN = 11, FI_EAVAIL = 259, FI_ADDR_EFA = 16,
      fi_strerror = (\<lambda>_. ''error''), fi_cq_strerror = (\<lambda>_. ''error''),
      fi_mr_reg = (\<lambda>l _ _ _. (0, word_of_nat (length l))), fi_mr_desc = (\<lambda>mr. mr),
      fi_av_insert = (\<lambda>l _. (1, word_of_nat (length l))),
      fi_writemsg = (\<lambda>_ _. 0), fi_read = (\<lambda>_ _. 0),
      fi_cq_read = (\<lambda>l want. let ready = take want (wire l) in
        if ready = [] then (- 11, []) else (int (length ready), ready)),
      fi_cq_readerr = (\<lambda>_. (0, \<lparr>err_op_context = 0, err_code = 0, err_prov_errno = 0\<rparr>)),
      instant_now = length, memory_at = (\<lambda>_ _. 0),
      crc_fast = (\<lambda>bs. word_of_nat (length bs))\<rparr>"

end
