(* ===== verification/Arc_Heap.thy ===== *)
theory Arc_Heap
  imports Vdma_Prelude
begin

text \<open>
  \<open>std::sync::Arc\<close> and \<open>Weak\<close>. A heap of cells, each with its value and its strong count.
  Cells are named by the order of their allocation and a name is never used again, so a \<open>Weak\<close>
  to a dropped cell never upgrades. The Rust value's \<open>Drop\<close> runs when the strong count reaches
  zero: \<open>arc_drop\<close> then hands the value back, for the caller to run its destructor.
\<close>

type_synonym arc_id = nat

record 'a arcs =
  cells :: "(arc_id \<times> ('a \<times> nat)) list"
  next_arc :: arc_id

definition no_arcs :: "'a arcs" where
  "no_arcs = \<lparr>cells = [], next_arc = 0\<rparr>"

definition strong_count :: "'a arcs \<Rightarrow> arc_id \<Rightarrow> nat" where
  "strong_count h i = (case map_of (cells h) i of None \<Rightarrow> 0 | Some (_, n) \<Rightarrow> n)"

definition arc_value :: "'a arcs \<Rightarrow> arc_id \<Rightarrow> 'a option" where
  "arc_value h i = map_option fst (map_of (cells h) i)"

definition arc_new :: "'a \<Rightarrow> 'a arcs \<Rightarrow> arc_id \<times> 'a arcs" where
  "arc_new v h =
     (next_arc h, h\<lparr>cells := (next_arc h, (v, 1)) # cells h, next_arc := Suc (next_arc h)\<rparr>)"

definition arc_clone :: "arc_id \<Rightarrow> 'a arcs \<Rightarrow> 'a arcs" where
  "arc_clone i h =
     (case map_of (cells h) i of
        None \<Rightarrow> h
      | Some (v, n) \<Rightarrow> h\<lparr>cells := AList.update i (v, Suc n) (cells h)\<rparr>)"

definition arc_drop :: "arc_id \<Rightarrow> 'a arcs \<Rightarrow> 'a option \<times> 'a arcs" where
  "arc_drop i h =
     (case map_of (cells h) i of
        None \<Rightarrow> (None, h)
      | Some (v, n) \<Rightarrow>
          (if n \<le> 1 then (Some v, h\<lparr>cells := AList.delete i (cells h)\<rparr>)
           else (None, h\<lparr>cells := AList.update i (v, n - 1) (cells h)\<rparr>)))"

text \<open>Dropping the elements of a vector: in order, each running its destructor if it was the last.\<close>

fun arc_drop_all :: "arc_id list \<Rightarrow> 'a arcs \<Rightarrow> 'a list \<times> 'a arcs" where
  "arc_drop_all [] h = ([], h)"
| "arc_drop_all (i # is) h =
     (let (v, h') = arc_drop i h; (vs, h'') = arc_drop_all is h'
      in ((case v of None \<Rightarrow> vs | Some x \<Rightarrow> x # vs), h''))"

text \<open>\<open>Weak::upgrade\<close>.\<close>

definition arc_upgrade :: "arc_id \<Rightarrow> 'a arcs \<Rightarrow> arc_id option \<times> 'a arcs" where
  "arc_upgrade i h = (if 0 < strong_count h i then (Some i, arc_clone i h) else (None, h))"

text \<open>The values of the cells that are still alive.\<close>

definition arc_live :: "'a arcs \<Rightarrow> 'a multiset" where
  "arc_live h = image_mset (fst \<circ> snd) (mset (cells h))"

definition arcs_wf :: "'a arcs \<Rightarrow> bool" where
  "arcs_wf h \<longleftrightarrow> hm_wf (cells h)
     \<and> (\<forall>(i, v, n) \<in> set (cells h). 0 < n \<and> i < next_arc h)"

section \<open>Counts after each operation\<close>

lemma arcs_wf_no_arcs [simp, intro]: "arcs_wf no_arcs"
  by (simp add: arcs_wf_def no_arcs_def)

lemma strong_count_no_arcs [simp]: "strong_count no_arcs i = 0"
  by (simp add: strong_count_def no_arcs_def)

lemma arc_live_no_arcs [simp]: "arc_live no_arcs = {#}"
  by (simp add: arc_live_def no_arcs_def)

lemma arcs_wf_lookup:
  "arcs_wf h \<Longrightarrow> map_of (cells h) i = Some (v, n) \<Longrightarrow> 0 < n \<and> i < next_arc h"
  by (force simp: arcs_wf_def dest: map_of_SomeD)

lemma arcs_wf_fresh: "arcs_wf h \<Longrightarrow> map_of (cells h) (next_arc h) = None"
  by (force simp: arcs_wf_def map_of_eq_None_iff)

lemma strong_count_pos_iff:
  "arcs_wf h \<Longrightarrow> 0 < strong_count h i \<longleftrightarrow> (\<exists>v n. map_of (cells h) i = Some (v, n))"
  by (auto simp: strong_count_def dest: arcs_wf_lookup split: option.splits)

lemma strong_count_bound: "arcs_wf h \<Longrightarrow> next_arc h \<le> i \<Longrightarrow> strong_count h i = 0"
  by (auto simp: strong_count_def dest: arcs_wf_lookup split: option.splits)

lemma strong_count_new [arc_simps]:
  "strong_count (snd (arc_new v h)) i = (if i = next_arc h then 1 else strong_count h i)"
  by (simp add: arc_new_def strong_count_def)

lemma fst_arc_new [arc_simps]: "fst (arc_new v h) = next_arc h"
  by (simp add: arc_new_def)

lemma strong_count_clone [arc_simps]:
  "arcs_wf h \<Longrightarrow> strong_count (arc_clone j h) i =
     (if i = j \<and> 0 < strong_count h j then Suc (strong_count h i) else strong_count h i)"
  by (auto simp: arc_clone_def strong_count_def update_conv' dest: arcs_wf_lookup
      split: option.splits)

lemma strong_count_drop [arc_simps]:
  "arcs_wf h \<Longrightarrow> strong_count (snd (arc_drop j h)) i =
     (if i = j then strong_count h i - 1 else strong_count h i)"
  by (auto simp: arc_drop_def strong_count_def update_conv' delete_conv' dest: arcs_wf_lookup
      split: option.splits)

lemma arcs_wf_new [simp, intro]: "arcs_wf h \<Longrightarrow> arcs_wf (snd (arc_new v h))"
  using arcs_wf_fresh [of h]
  by (force simp: arcs_wf_def arc_new_def hm_wf_def map_of_eq_None_iff)

lemma set_update_le: "x \<in> set (AList.update k v m) \<Longrightarrow> x = (k, v) \<or> x \<in> set m"
  by (induction m) (auto split: if_splits)

lemma arcs_wf_update:
  "arcs_wf h \<Longrightarrow> 0 < n \<Longrightarrow> i < next_arc h \<Longrightarrow>
     arcs_wf (h\<lparr>cells := AList.update i (v, n) (cells h)\<rparr>)"
  by (auto simp: arcs_wf_def dest!: set_update_le)

lemma arcs_wf_delete: "arcs_wf h \<Longrightarrow> arcs_wf (h\<lparr>cells := AList.delete i (cells h)\<rparr>)"
  using hm_wf_delete [of "cells h" i] by (auto simp: arcs_wf_def AList.delete_eq)

lemma arcs_wf_clone [simp, intro]: "arcs_wf h \<Longrightarrow> arcs_wf (arc_clone i h)"
  by (auto simp: arc_clone_def intro!: arcs_wf_update dest: arcs_wf_lookup split: option.splits)

lemma arcs_wf_drop [simp, intro]: "arcs_wf h \<Longrightarrow> arcs_wf (snd (arc_drop i h))"
  by (auto simp: arc_drop_def intro!: arcs_wf_update arcs_wf_delete dest: arcs_wf_lookup
      split: option.splits)

lemma next_arc_clone [simp]: "next_arc (arc_clone i h) = next_arc h"
  by (simp add: arc_clone_def split: option.splits)

lemma next_arc_drop [simp]: "next_arc (snd (arc_drop i h)) = next_arc h"
  by (simp add: arc_drop_def split: option.splits)

lemma arcs_wf_drop_all [simp, intro]: "arcs_wf h \<Longrightarrow> arcs_wf (snd (arc_drop_all is h))"
  by (induction "is" arbitrary: h) (auto simp: Let_def split_def)

lemma strong_count_drop_all [arc_simps]:
  "arcs_wf h \<Longrightarrow> strong_count (snd (arc_drop_all is h)) i =
     strong_count h i - count (mset is) i"
  by (induction "is" arbitrary: h) (auto simp: Let_def split_def strong_count_drop)

lemma next_arc_drop_all [simp]: "next_arc (snd (arc_drop_all is h)) = next_arc h"
  by (induction "is" arbitrary: h) (auto simp: Let_def split_def)

lemma arcs_wf_upgrade [simp, intro]: "arcs_wf h \<Longrightarrow> arcs_wf (snd (arc_upgrade i h))"
  by (simp add: arc_upgrade_def)

section \<open>What is finalised\<close>

lemma image_mset_update:
  "hm_wf m \<Longrightarrow> map_of m i = Some w \<Longrightarrow>
     add_mset (i, w) (mset (AList.update i v m)) = add_mset (i, v) (mset m)"
  by (induction m) (auto simp: hm_wf_def map_of_eq_None_iff dest: map_of_SomeD
      simp flip: add_mset_add_mset_same_iff)

lemma mset_delete_absent: "i \<notin> fst ` set m \<Longrightarrow> mset (AList.delete i m) = mset m"
  by (simp add: delete_idem)

lemma mset_delete:
  "hm_wf m \<Longrightarrow> map_of m i = Some w \<Longrightarrow> add_mset (i, w) (mset (AList.delete i m)) = mset m"
  by (induction m) (auto simp: hm_wf_def mset_delete_absent)

lemma arc_live_update:
  "hm_wf (cells h) \<Longrightarrow> map_of (cells h) i = Some (v, n) \<Longrightarrow>
     arc_live (h\<lparr>cells := AList.update i (v, k) (cells h)\<rparr>) = arc_live h"
  using image_mset_update [of "cells h" i "(v, n)" "(v, k)"]
  by (metis (no_types, lifting) add_mset_add_mset_same_iff arc_live_def arcs.select_convs(1)
      arcs.surjective arcs.update_convs(1) comp_apply fst_conv image_mset_add_mset snd_conv)

lemma arc_live_new: "arc_live (snd (arc_new v h)) = add_mset v (arc_live h)"
  by (simp add: arc_live_def arc_new_def)

lemma arc_live_clone: "arcs_wf h \<Longrightarrow> arc_live (arc_clone i h) = arc_live h"
  by (auto simp: arc_clone_def arcs_wf_def arc_live_update split: option.splits)

lemma arc_live_drop:
  assumes "arcs_wf h"
  shows "arc_live h = arc_live (snd (arc_drop i h))
     + (case fst (arc_drop i h) of None \<Rightarrow> {#} | Some v \<Rightarrow> {#v#})"
proof (cases "map_of (cells h) i")
  case None
  then show ?thesis by (simp add: arc_drop_def)
next
  case (Some vn)
  obtain v n where vn: "vn = (v, n)" by (cases vn)
  have wf: "hm_wf (cells h)" using assms by (simp add: arcs_wf_def)
  have "mset (cells h) = add_mset (i, v, n) (mset (AList.delete i (cells h)))"
    using mset_delete [OF wf] Some vn by metis
  then show ?thesis
    using Some vn arc_live_update [OF wf, of i v n]
    by (auto simp: arc_drop_def arc_live_def)
qed

lemma arc_live_drop_all:
  "arcs_wf h \<Longrightarrow> arc_live h = arc_live (snd (arc_drop_all is h)) + mset (fst (arc_drop_all is h))"
proof (induction "is" arbitrary: h)
  case (Cons i "is")
  show ?case
    using arc_live_drop [OF Cons.prems, of i] Cons.IH [OF arcs_wf_drop [OF Cons.prems], of i]
    by (auto simp: Let_def split_def split: option.splits)
qed simp

text \<open>
  A heap is balanced against its holders when every cell's strong count is the number of
  holders that name it. The two tables of the sources that share cells keep this.
\<close>

definition balanced :: "'a arcs \<Rightarrow> (arc_id \<Rightarrow> nat) \<Rightarrow> bool" where
  "balanced h holders \<longleftrightarrow> arcs_wf h \<and> (\<forall>i. strong_count h i = holders i)"

lemma balanced_wf [dest]: "balanced h r \<Longrightarrow> arcs_wf h"
  by (simp add: balanced_def)

lemma balanced_alive: "balanced h r \<Longrightarrow> 0 < r i \<Longrightarrow> \<exists>v. arc_value h i = Some v"
  using strong_count_pos_iff [of h i] by (auto simp: balanced_def arc_value_def)

lemma balanced_dead: "balanced h r \<Longrightarrow> r i = 0 \<Longrightarrow> arc_value h i = None"
  using strong_count_pos_iff [of h i]
  by (cases "map_of (cells h) i") (auto simp: balanced_def arc_value_def)

end
