(* ===== verification/BTree_Map.thy ===== *)
theory BTree_Map
  imports Vdma_Prelude
begin

text \<open>
  \<open>std::collections::BTreeMap\<close> as the region registry uses it: insertion, removal and the two
  range queries \<open>range(..=k).next_back()\<close> and \<open>range(..k)\<close>. The map is its association list in key
  order. The locale \<open>ordered_map\<close> is the contract the registry relies on; the association list
  is proved to satisfy it.
\<close>

type_synonym ('k, 'v) btree = "('k \<times> 'v) list"

fun bt_insert :: "'k::linorder \<Rightarrow> 'v \<Rightarrow> ('k, 'v) btree \<Rightarrow> ('k, 'v) btree" where
  "bt_insert k v [] = [(k, v)]"
| "bt_insert k v ((k', v') # m) =
     (if k < k' then (k, v) # (k', v') # m
      else if k = k' then (k, v) # m
      else (k', v') # bt_insert k v m)"

definition bt_get :: "('k, 'v) btree \<Rightarrow> 'k \<Rightarrow> 'v option" where
  "bt_get m k = map_of m k"

definition bt_remove :: "'k \<Rightarrow> ('k, 'v) btree \<Rightarrow> ('k, 'v) btree" where
  "bt_remove k m = AList.delete k m"

text \<open>\<open>range(..=k).next_back()\<close>: the entry with the greatest key at or below \<open>k\<close>.\<close>

definition bt_last_le :: "'k::linorder \<Rightarrow> ('k, 'v) btree \<Rightarrow> ('k \<times> 'v) option" where
  "bt_last_le k m = (case filter (\<lambda>(b, _). b \<le> k) m of [] \<Rightarrow> None | xs \<Rightarrow> Some (last xs))"

text \<open>\<open>range(..k)\<close>: the entries with a key below \<open>k\<close>, in order.\<close>

definition bt_below :: "'k::linorder \<Rightarrow> ('k, 'v) btree \<Rightarrow> ('k \<times> 'v) list" where
  "bt_below k m = filter (\<lambda>(b, _). b < k) m"

definition bt_wf :: "('k::linorder, 'v) btree \<Rightarrow> bool" where
  "bt_wf m \<longleftrightarrow> sorted_wrt (<) (map fst m)"

section \<open>The contract\<close>

locale ordered_map =
  fixes empty :: 'm
    and get :: "'m \<Rightarrow> 'k::linorder \<Rightarrow> 'v option"
    and insert :: "'k \<Rightarrow> 'v \<Rightarrow> 'm \<Rightarrow> 'm"
    and remove :: "'k \<Rightarrow> 'm \<Rightarrow> 'm"
    and last_le :: "'k \<Rightarrow> 'm \<Rightarrow> ('k \<times> 'v) option"
    and below :: "'k \<Rightarrow> 'm \<Rightarrow> ('k \<times> 'v) list"
    and invar :: "'m \<Rightarrow> bool"
  assumes get_empty: "get empty k = None"
    and invar_empty: "invar empty"
    and get_insert: "invar m \<Longrightarrow> get (insert k v m) = (get m)(k \<mapsto> v)"
    and invar_insert: "invar m \<Longrightarrow> invar (insert k v m)"
    and get_remove: "invar m \<Longrightarrow> get (remove k m) = (get m)(k := None)"
    and invar_remove: "invar m \<Longrightarrow> invar (remove k m)"
    and last_le_None: "invar m \<Longrightarrow> last_le k m = None \<longleftrightarrow> (\<forall>b v. get m b = Some v \<longrightarrow> k < b)"
    and last_le_Some: "invar m \<Longrightarrow> last_le k m = Some (b, v) \<longleftrightarrow>
      get m b = Some v \<and> b \<le> k \<and> (\<forall>b' v'. get m b' = Some v' \<longrightarrow> b' \<le> k \<longrightarrow> b' \<le> b)"
    and set_below: "invar m \<Longrightarrow> (b, v) \<in> set (below k m) \<longleftrightarrow> get m b = Some v \<and> b < k"
begin

lemma last_le_insert_same: "invar m \<Longrightarrow> last_le k (insert k v m) = Some (k, v)"
  by (simp add: last_le_Some get_insert invar_insert)

lemma last_le_insert_above:
  assumes "invar m" "k < b"
  shows "last_le k (insert b v m) = last_le k m"
proof (cases "last_le k m")
  case None
  then have "last_le k (insert b v m) = None"
    using assms by (simp add: last_le_None get_insert invar_insert)
  with None show ?thesis by simp
next
  case (Some bv)
  obtain b' v' where bv: "bv = (b', v')" by (cases bv)
  then have "last_le k (insert b v m) = Some (b', v')"
    using Some assms by (auto simp: last_le_Some get_insert invar_insert)
  with Some bv show ?thesis by simp
qed

lemma invar_remove_all: "invar m \<Longrightarrow> invar (fold remove ks m)"
  by (induction ks arbitrary: m) (auto simp: invar_remove)

lemma get_remove_all:
  "invar m \<Longrightarrow> get (fold remove ks m) k = (if k \<in> set ks then None else get m k)"
  by (induction ks arbitrary: m) (auto simp: invar_remove get_remove)

lemma last_le_bounded: "invar m \<Longrightarrow> last_le k m = Some (b, v) \<Longrightarrow> b \<le> k \<and> get m b = Some v"
  by (simp add: last_le_Some)

end

section \<open>The association list satisfies it\<close>

lemma bt_wf_Cons: "bt_wf ((k, v) # m) \<longleftrightarrow> bt_wf m \<and> (\<forall>k' \<in> fst ` set m. k < k')"
  by (auto simp: bt_wf_def)

lemma bt_wf_distinct: "bt_wf m \<Longrightarrow> hm_wf m"
  by (auto simp: bt_wf_def hm_wf_def strict_sorted_iff)

lemma keys_bt_insert: "fst ` set (bt_insert k v m) = insert k (fst ` set m)"
  by (induction k v m rule: bt_insert.induct) auto

lemma bt_wf_insert: "bt_wf m \<Longrightarrow> bt_wf (bt_insert k v m)"
  by (induction k v m rule: bt_insert.induct) (auto simp: bt_wf_Cons keys_bt_insert bt_wf_def)

lemma bt_get_insert: "bt_wf m \<Longrightarrow> bt_get (bt_insert k v m) = (bt_get m)(k \<mapsto> v)"
  by (induction k v m rule: bt_insert.induct)
    (auto simp: bt_wf_Cons bt_get_def fun_eq_iff)

lemma bt_wf_filter: "bt_wf m \<Longrightarrow> bt_wf (filter p m)"
  by (auto simp: bt_wf_def sorted_wrt_map sorted_wrt_filter)

lemma bt_wf_remove: "bt_wf m \<Longrightarrow> bt_wf (bt_remove k m)"
  by (simp add: bt_remove_def AList.delete_eq bt_wf_filter)

lemma bt_get_remove: "bt_get (bt_remove k m) = (bt_get m)(k := None)"
  by (simp add: bt_get_def bt_remove_def delete_conv' fun_eq_iff)

lemma bt_get_set: "bt_wf m \<Longrightarrow> bt_get m b = Some v \<longleftrightarrow> (b, v) \<in> set m"
  using bt_wf_distinct [of m] by (auto simp: bt_get_def hm_wf_def map_of_eq_Some_iff)

lemma last_bt_greatest:
  "bt_wf m \<Longrightarrow> m \<noteq> [] \<Longrightarrow> x \<in> set m \<Longrightarrow> fst x \<le> fst (last m)"
  by (induction m) (auto simp: bt_wf_Cons less_imp_le split: if_splits)

lemma bt_last_le_alt:
  "bt_last_le k m =
     (let f = filter (\<lambda>(b, _). b \<le> k) m in if f = [] then None else Some (last f))"
  by (simp add: bt_last_le_def split: list.splits)

lemma bt_last_le_None:
  "bt_wf m \<Longrightarrow> bt_last_le k m = None \<longleftrightarrow> (\<forall>b v. bt_get m b = Some v \<longrightarrow> k < b)"
  by (auto simp: bt_last_le_alt Let_def bt_get_set filter_empty_conv not_le)

lemma bt_last_le_Some:
  assumes wf: "bt_wf m"
  shows "bt_last_le k m = Some (b, v) \<longleftrightarrow>
    bt_get m b = Some v \<and> b \<le> k \<and> (\<forall>b' v'. bt_get m b' = Some v' \<longrightarrow> b' \<le> k \<longrightarrow> b' \<le> b)"
    (is "?L \<longleftrightarrow> ?R")
proof -
  define f where "f = filter (\<lambda>(b, _). b \<le> k) m"
  have L: "bt_last_le k m = (if f = [] then None else Some (last f))"
    by (simp add: bt_last_le_alt f_def Let_def)
  have mem: "(x, w) \<in> set f \<longleftrightarrow> bt_get m x = Some w \<and> x \<le> k" for x w
    using wf by (simp add: f_def bt_get_set)
  have great: "f \<noteq> [] \<Longrightarrow> (x, w) \<in> set f \<Longrightarrow> x \<le> fst (last f)" for x w
    using last_bt_greatest [OF bt_wf_filter [OF wf], of "\<lambda>(b, _). b \<le> k" "(x, w)"]
    by (simp add: f_def)
  show ?thesis
  proof
    assume ?L
    then have ne: "f \<noteq> []" and last: "last f = (b, v)" by (auto simp: L split: if_splits)
    then have "(b, v) \<in> set f" by (metis last_in_set)
    moreover have "\<forall>b' v'. bt_get m b' = Some v' \<longrightarrow> b' \<le> k \<longrightarrow> b' \<le> b"
      using great [OF ne] last by (simp add: mem)
    ultimately show ?R by (simp add: mem)
  next
    assume R: ?R
    then have "(b, v) \<in> set f" by (simp add: mem)
    then have ne: "f \<noteq> []" by auto
    obtain b' v' where last: "last f = (b', v')" by (cases "last f")
    then have in': "(b', v') \<in> set f" using ne by (metis last_in_set)
    then have "b' \<le> b" using R by (simp add: mem)
    moreover have "b \<le> b'" using great [OF ne \<open>(b, v) \<in> set f\<close>] last by simp
    ultimately have "b' = b" by simp
    moreover have "v' = v" using in' R \<open>b' = b\<close> by (simp add: mem)
    ultimately show ?L using ne last by (simp add: L)
  qed
qed

interpretation bt: ordered_map "[]" bt_get bt_insert bt_remove bt_last_le bt_below bt_wf
proof unfold_locales
qed (auto simp: bt_get_insert bt_wf_insert bt_get_remove bt_wf_remove bt_last_le_None
    bt_last_le_Some bt_below_def bt_get_set bt_get_def [of "[]"] bt_wf_def [of "[]"])

end
