(* ===== verification/Region_Cache.thy ===== *)
theory Region_Cache
  imports Arc_Heap BTree_Map Fabric
begin

text \<open>
  \<open>region_cache.rs\<close>: the process-global cache of memory registrations. \<open>Registration\<close> is a cell of
  an \<open>Arc\<close> heap whose value is the \<open>fid_mr\<close>; its \<open>Drop\<close> is \<open>fi_close\<close>, recorded in the call
  log. \<open>REGISTRY\<close> is a list of domains, each with a B-tree from base addresses to entries. Each
  function that takes the lock is split at the point where the lock is released: the part under
  the lock (\<open>track_locked\<close>, \<open>covering\<close>, \<open>invalidate_locked\<close>, \<open>clear_domain_locked\<close>) is one
  atomic step, and the drops of what it returns are steps of their own, so that the step relation
  \<open>cache_step\<close> interleaves threads as the code can. The lemmas show what a lookup returns after
  each operation, and that reference counts equal the holders whatever the interleaving.
\<close>

section \<open>State\<close>

record region_entry =
  re_end :: usize
  re_registration :: arc_id

record domain_regions =
  dr_domain :: usize
  dr_regions :: "(usize, region_entry) btree"

text \<open>
  The process-wide state the operations thread: the log of external calls, the registry and the
  heap of registrations.
\<close>

record world =
  w_log :: log
  w_registry :: "domain_regions list"
  w_regs :: "fid_mr arcs"

definition empty_world :: world where
  "empty_world = \<lparr>w_log = [], w_registry = [], w_regs = no_arcs\<rparr>"

definition log_call :: "call \<Rightarrow> world \<Rightarrow> world" where
  "log_call c w = w\<lparr>w_log := c # w_log w\<rparr>"

section \<open>\<open>Registration\<close>\<close>

definition registration_new :: "fid_mr \<Rightarrow> world \<Rightarrow> arc_id \<times> world" where
  "registration_new mr w = (let (i, h) = arc_new mr (w_regs w) in (i, w\<lparr>w_regs := h\<rparr>))"

definition registration_clone :: "arc_id \<Rightarrow> world \<Rightarrow> world" where
  "registration_clone i w = w\<lparr>w_regs := arc_clone i (w_regs w)\<rparr>"

text \<open>Dropping one lease; the last one runs \<open>Registration::drop\<close>, which closes the region.\<close>

definition registration_drop :: "arc_id \<Rightarrow> world \<Rightarrow> world" where
  "registration_drop i w =
     (case arc_drop i (w_regs w) of
        (None, h) \<Rightarrow> w\<lparr>w_regs := h\<rparr>
      | (Some mr, h) \<Rightarrow> log_call (MrClose mr) (w\<lparr>w_regs := h\<rparr>))"

definition registration_drop_all :: "arc_id list \<Rightarrow> world \<Rightarrow> world" where
  "registration_drop_all is w = fold registration_drop is w"

section \<open>Operations\<close>

text \<open>\<open>domain_regions\<close>: the regions of a domain, which is added at the end on first use.\<close>

fun domain_regions_upd ::
  "usize \<Rightarrow> ((usize, region_entry) btree \<Rightarrow> (usize, region_entry) btree)
    \<Rightarrow> domain_regions list \<Rightarrow> domain_regions list" where
  "domain_regions_upd domain f [] = [\<lparr>dr_domain = domain, dr_regions = f []\<rparr>]"
| "domain_regions_upd domain f (e # es) =
     (if dr_domain e = domain then e\<lparr>dr_regions := f (dr_regions e)\<rparr> # es
      else e # domain_regions_upd domain f es)"

definition regions_of :: "usize \<Rightarrow> domain_regions list \<Rightarrow> (usize, region_entry) btree" where
  "regions_of domain reg =
     (case find (\<lambda>e. dr_domain e = domain) reg of None \<Rightarrow> [] | Some e \<Rightarrow> dr_regions e)"

text \<open>The locked part of \<open>track\<close>: it answers the entry it replaced.\<close>

definition track_locked ::
  "usize \<Rightarrow> usize \<Rightarrow> usize \<Rightarrow> arc_id \<Rightarrow> world \<Rightarrow> arc_id option \<times> world" where
  "track_locked base end domain registration w =
     (let replaced = bt_get (regions_of domain (w_registry w)) base;
          entry = \<lparr>re_end = end, re_registration = registration\<rparr>;
          w' = registration_clone registration w
      in (map_option re_registration replaced,
          w'\<lparr>w_registry := domain_regions_upd domain (bt_insert base entry) (w_registry w')\<rparr>))"

definition track :: "usize \<Rightarrow> usize \<Rightarrow> usize \<Rightarrow> arc_id \<Rightarrow> world \<Rightarrow> world" where
  "track base end domain registration w =
     (case track_locked base end domain registration w of
        (None, w') \<Rightarrow> w'
      | (Some replaced, w') \<Rightarrow> registration_drop replaced w')"

text \<open>The lookup of \<open>covering\<close>, before the lease is cloned.\<close>

definition covering_entry ::
  "usize \<Rightarrow> usize \<Rightarrow> usize \<Rightarrow> domain_regions list \<Rightarrow> arc_id option" where
  "covering_entry start end domain reg =
     (case find (\<lambda>e. dr_domain e = domain) reg of
        None \<Rightarrow> None
      | Some e \<Rightarrow>
          (case bt_last_le start (dr_regions e) of
             None \<Rightarrow> None
           | Some (base, entry) \<Rightarrow>
               (if base \<le> start \<and> end \<le> re_end entry then Some (re_registration entry) else None)))"

definition covering :: "usize \<Rightarrow> usize \<Rightarrow> usize \<Rightarrow> world \<Rightarrow> arc_id option \<times> world" where
  "covering start end domain w =
     (case covering_entry start end domain (w_registry w) of
        None \<Rightarrow> (None, w)
      | Some i \<Rightarrow> (Some i, registration_clone i w))"

text \<open>Removing the collected bases of one domain, one by one.\<close>

fun remove_bases ::
  "usize list \<Rightarrow> (usize, region_entry) btree \<Rightarrow> arc_id list \<times> (usize, region_entry) btree" where
  "remove_bases [] m = ([], m)"
| "remove_bases (b # bs) m =
     (case bt_get m b of
        None \<Rightarrow> remove_bases bs m
      | Some entry \<Rightarrow>
          (let (retired, m') = remove_bases bs (bt_remove b m)
           in (re_registration entry # retired, m')))"

definition overlapping_bases :: "usize \<Rightarrow> usize \<Rightarrow> (usize, region_entry) btree \<Rightarrow> usize list" where
  "overlapping_bases start end m =
     map fst (filter (\<lambda>(_, entry). start < re_end entry) (bt_below end m))"

fun invalidate_registry ::
  "usize \<Rightarrow> usize \<Rightarrow> domain_regions list \<Rightarrow> arc_id list \<times> domain_regions list" where
  "invalidate_registry start end [] = ([], [])"
| "invalidate_registry start end (e # es) =
     (let (retired, m) = remove_bases (overlapping_bases start end (dr_regions e)) (dr_regions e);
          (more, es') = invalidate_registry start end es
      in (retired @ more, e\<lparr>dr_regions := m\<rparr> # es'))"

definition invalidate_locked :: "usize \<Rightarrow> usize \<Rightarrow> world \<Rightarrow> arc_id list \<times> world" where
  "invalidate_locked start end w =
     (let (retired, reg) = invalidate_registry start end (w_registry w)
      in (retired, w\<lparr>w_registry := reg\<rparr>))"

definition invalidate :: "usize \<Rightarrow> usize \<Rightarrow> world \<Rightarrow> world" where
  "invalidate start end w =
     (let (retired, w') = invalidate_locked start end w in registration_drop_all retired w')"

fun take_domain :: "usize \<Rightarrow> domain_regions list \<Rightarrow> arc_id list \<times> domain_regions list" where
  "take_domain domain [] = ([], [])"
| "take_domain domain (e # es) =
     (if dr_domain e = domain then (map (re_registration \<circ> snd) (dr_regions e), es)
      else (let (retired, es') = take_domain domain es in (retired, e # es')))"

definition clear_domain_locked :: "usize \<Rightarrow> world \<Rightarrow> arc_id list \<times> world" where
  "clear_domain_locked domain w =
     (let (retired, reg) = take_domain domain (w_registry w) in (retired, w\<lparr>w_registry := reg\<rparr>))"

definition clear_domain :: "usize \<Rightarrow> world \<Rightarrow> world" where
  "clear_domain domain w =
     (let (retired, w') = clear_domain_locked domain w in registration_drop_all retired w')"

section \<open>Well-formedness\<close>

definition registry_wf :: "domain_regions list \<Rightarrow> bool" where
  "registry_wf reg \<longleftrightarrow> distinct (map dr_domain reg) \<and> (\<forall>e \<in> set reg. bt_wf (dr_regions e))"

text \<open>Which entry a domain holds at a base: the abstract view of the registry.\<close>

definition entry_at :: "domain_regions list \<Rightarrow> usize \<Rightarrow> usize \<Rightarrow> region_entry option" where
  "entry_at reg domain base = bt_get (regions_of domain reg) base"

lemma registry_wf_Nil [simp, intro]: "registry_wf []"
  by (simp add: registry_wf_def)

lemma registry_wf_Cons:
  "registry_wf (e # es) \<longleftrightarrow> registry_wf es \<and> bt_wf (dr_regions e) \<and> dr_domain e \<notin> dr_domain ` set es"
  by (auto simp: registry_wf_def)

lemma regions_of_Nil [simp]: "regions_of domain [] = []"
  by (simp add: regions_of_def)

lemma regions_of_Cons [simp]:
  "regions_of domain (e # es) = (if dr_domain e = domain then dr_regions e else regions_of domain es)"
  by (simp add: regions_of_def)

lemma regions_of_absent: "domain \<notin> dr_domain ` set reg \<Longrightarrow> regions_of domain reg = []"
  by (induction reg) auto

lemma bt_wf_regions_of [simp, intro]: "registry_wf reg \<Longrightarrow> bt_wf (regions_of domain reg)"
  by (induction reg) (auto simp: registry_wf_Cons bt.invar_empty)

lemma domains_upd:
  "dr_domain ` set (domain_regions_upd domain f reg) = insert domain (dr_domain ` set reg)"
  by (induction reg) auto

lemma registry_wf_upd:
  "registry_wf reg \<Longrightarrow> (\<And>m. bt_wf m \<Longrightarrow> bt_wf (f m)) \<Longrightarrow> registry_wf (domain_regions_upd domain f reg)"
  by (induction reg) (auto simp: registry_wf_Cons domains_upd bt.invar_empty)

lemma regions_of_upd:
  "regions_of d (domain_regions_upd domain f reg) =
     (if d = domain then f (regions_of domain reg) else regions_of d reg)"
  by (induction reg) auto

lemma covering_entry_alt:
  "covering_entry start end domain reg =
     (case bt_last_le start (regions_of domain reg) of
        None \<Rightarrow> None
      | Some (base, entry) \<Rightarrow>
          (if base \<le> start \<and> end \<le> re_end entry then Some (re_registration entry) else None))"
  by (simp add: covering_entry_def regions_of_def bt_last_le_def split: option.splits)

section \<open>What a lookup finds after each operation\<close>

lemma remove_bases_spec:
  "bt_wf m \<Longrightarrow> bt_wf (snd (remove_bases bs m))
     \<and> bt_get (snd (remove_bases bs m)) k = (if k \<in> set bs then None else bt_get m k)"
  by (induction bs arbitrary: m)
    (auto simp: split_def Let_def bt.invar_remove bt.get_remove split: option.splits)

lemma set_overlapping_bases:
  "bt_wf m \<Longrightarrow> b \<in> set (overlapping_bases start end m) \<longleftrightarrow>
     (\<exists>entry. bt_get m b = Some entry \<and> b < end \<and> start < re_end entry)"
  by (force simp: overlapping_bases_def bt.set_below)

lemma domains_invalidate [simp]:
  "map dr_domain (snd (invalidate_registry start end reg)) = map dr_domain reg"
  by (induction reg) (auto simp: split_def Let_def)

lemma registry_wf_invalidate:
  "registry_wf reg \<Longrightarrow> registry_wf (snd (invalidate_registry start end reg))"
proof (induction reg)
  case (Cons e es)
  have "dr_domain ` set (snd (invalidate_registry start end es)) = dr_domain ` set es"
    using domains_invalidate [of start "end" es] by (metis list.set_map)
  with Cons show ?case
    by (auto simp: split_def Let_def registry_wf_Cons remove_bases_spec)
qed simp

lemma entry_at_invalidate:
  "registry_wf reg \<Longrightarrow> entry_at (snd (invalidate_registry start end reg)) domain b =
     (case entry_at reg domain b of
        None \<Rightarrow> None
      | Some entry \<Rightarrow> if b < end \<and> start < re_end entry then None else Some entry)"
proof (induction reg)
  case (Cons e es)
  then show ?case
    by (auto simp: split_def Let_def entry_at_def registry_wf_Cons remove_bases_spec
        set_overlapping_bases split: option.splits)
qed (simp add: entry_at_def bt.get_empty)

lemma registry_wf_take: "registry_wf reg \<Longrightarrow> registry_wf (snd (take_domain domain reg))"
proof (induction reg)
  case (Cons e es)
  have "dr_domain ` set (snd (take_domain domain es)) \<subseteq> dr_domain ` set es"
    by (induction es) (auto simp: split_def Let_def)
  with Cons show ?case by (auto simp: split_def Let_def registry_wf_Cons)
qed simp

lemma entry_at_take:
  "registry_wf reg \<Longrightarrow> entry_at (snd (take_domain domain reg)) d b =
     (if d = domain then None else entry_at reg d b)"
  by (induction reg)
    (auto simp: split_def Let_def entry_at_def registry_wf_Cons regions_of_absent bt.get_empty)

lemma registry_wf_track:
  "registry_wf reg \<Longrightarrow> registry_wf (domain_regions_upd domain (bt_insert base entry) reg)"
  by (simp add: registry_wf_upd bt.invar_insert)

lemma entry_at_track:
  "registry_wf reg \<Longrightarrow>
     entry_at (domain_regions_upd domain (bt_insert base entry) reg) d b =
       (if d = domain \<and> b = base then Some entry else entry_at reg d b)"
  by (simp add: entry_at_def regions_of_upd bt.get_insert)

text \<open>A lookup answers the entry with the greatest base at or below the start, if it reaches the end.\<close>

lemma covering_entry_iff:
  assumes "registry_wf reg"
  shows "covering_entry start end domain reg = Some i \<longleftrightarrow>
    (\<exists>base entry. entry_at reg domain base = Some entry \<and> base \<le> start \<and> end \<le> re_end entry
       \<and> re_registration entry = i
       \<and> (\<forall>b' e'. entry_at reg domain b' = Some e' \<longrightarrow> b' \<le> start \<longrightarrow> b' \<le> base))"
proof (cases "bt_last_le start (regions_of domain reg)")
  case None
  then have "\<And>b e. entry_at reg domain b = Some e \<Longrightarrow> start < b"
    using assms bt.last_le_None [OF bt_wf_regions_of] by (simp add: entry_at_def)
  then show ?thesis by (force simp: covering_entry_alt None)
next
  case (Some be)
  obtain b e where be: "be = (b, e)" by (cases be)
  have greatest: "entry_at reg domain b = Some e" "b \<le> start"
      "\<And>b' e'. entry_at reg domain b' = Some e' \<Longrightarrow> b' \<le> start \<Longrightarrow> b' \<le> b"
    using Some be bt.last_le_Some [OF bt_wf_regions_of [OF assms]] by (auto simp: entry_at_def)
  then have unique: "base = b" if "entry_at reg domain base = Some en" "base \<le> start"
      "\<And>b' e'. entry_at reg domain b' = Some e' \<Longrightarrow> b' \<le> start \<Longrightarrow> b' \<le> base" for base en
    using that by (meson order.antisym)
  have "covering_entry start end domain reg = Some i \<longleftrightarrow> end \<le> re_end e \<and> re_registration e = i"
    using greatest by (auto simp: covering_entry_alt Some be)
  also have "\<dots> \<longleftrightarrow> (\<exists>base entry. entry_at reg domain base = Some entry \<and> base \<le> start
      \<and> end \<le> re_end entry \<and> re_registration entry = i
      \<and> (\<forall>b' e'. entry_at reg domain b' = Some e' \<longrightarrow> b' \<le> start \<longrightarrow> b' \<le> base))"
    using greatest unique by (metis option.inject)
  finally show ?thesis .
qed

lemma covering_after_invalidate:
  assumes "registry_wf reg" and "start < b" and "a < end" and "start < end" and "a < b"
  shows "covering_entry start end domain (snd (invalidate_registry a b reg)) = None"
proof (rule ccontr)
  assume "covering_entry start end domain (snd (invalidate_registry a b reg)) \<noteq> None"
  then obtain base entry where
      at: "entry_at (snd (invalidate_registry a b reg)) domain base = Some entry"
      and "base \<le> start" "end \<le> re_end entry"
    using covering_entry_iff [OF registry_wf_invalidate [OF assms(1)]] by blast
  then have "base < b" "a < re_end entry" using assms by auto
  with at show False
    by (auto simp: entry_at_invalidate [OF assms(1)] split: option.splits if_splits)
qed

lemma covering_after_track:
  assumes "registry_wf reg" and "end \<le> re_end entry"
  shows "covering_entry base end domain (domain_regions_upd domain (bt_insert base entry) reg)
    = Some (re_registration entry)"
  using assms
  by (simp add: covering_entry_alt regions_of_upd bt.last_le_insert_same)

section \<open>Reference counts\<close>

definition domain_refs :: "(usize, region_entry) btree \<Rightarrow> arc_id multiset" where
  "domain_refs m = mset (map (re_registration \<circ> snd) m)"

fun registry_refs :: "domain_regions list \<Rightarrow> arc_id multiset" where
  "registry_refs [] = {#}"
| "registry_refs (e # es) = domain_refs (dr_regions e) + registry_refs es"

lemma domain_refs_remove:
  assumes "bt_wf m" "bt_get m b = Some entry"
  shows "domain_refs m = add_mset (re_registration entry) (domain_refs (bt_remove b m))"
proof -
  have "mset m = add_mset (b, entry) (mset (bt_remove b m))"
    using mset_delete [OF bt_wf_distinct, of m b entry] assms
    by (simp add: bt_get_def bt_remove_def)
  then show ?thesis by (simp add: domain_refs_def)
qed

lemma map_of_less: "bt_wf ((k', v') # m) \<Longrightarrow> k < k' \<Longrightarrow> map_of m k = None"
  by (force simp: bt_wf_Cons map_of_eq_None_iff)

lemma domain_refs_insert:
  "bt_wf m \<Longrightarrow> domain_refs (bt_insert b entry m)
     + (case bt_get m b of None \<Rightarrow> {#} | Some old \<Rightarrow> {#re_registration old#})
     = add_mset (re_registration entry) (domain_refs m)"
proof (induction b entry m rule: bt_insert.induct)
  case (2 k v k' v' m)
  consider "k < k'" | "k = k'" | "k' < k" using less_linear by blast
  then show ?case
  proof cases
    case 3
    with 2 show ?thesis
      by (cases "bt_get m k") (auto simp: domain_refs_def bt_get_def bt_wf_Cons)
  qed (use 2 in \<open>auto simp: domain_refs_def bt_get_def map_of_less\<close>)
qed (simp add: domain_refs_def bt_get_def)

lemma domain_refs_remove_bases:
  "bt_wf m \<Longrightarrow> domain_refs m = domain_refs (snd (remove_bases bs m)) + mset (fst (remove_bases bs m))"
proof (induction bs arbitrary: m)
  case (Cons b bs)
  then show ?case
    using domain_refs_remove [of m b] Cons.IH [of "bt_remove b m"]
    by (auto simp: split_def Let_def bt.invar_remove split: option.splits)
qed simp

lemma registry_refs_invalidate:
  "registry_wf reg \<Longrightarrow> registry_refs reg =
     registry_refs (snd (invalidate_registry start end reg))
     + mset (fst (invalidate_registry start end reg))"
proof (induction reg)
  case (Cons e es)
  then show ?case
    using domain_refs_remove_bases
      [of "dr_regions e" "overlapping_bases start end (dr_regions e)"]
    by (auto simp: split_def Let_def registry_wf_Cons)
qed simp

lemma registry_refs_take:
  "registry_refs reg = registry_refs (snd (take_domain domain reg)) + mset (fst (take_domain domain reg))"
  by (induction reg) (auto simp: split_def Let_def domain_refs_def)

lemma registry_refs_track:
  "registry_wf reg \<Longrightarrow>
     registry_refs (domain_regions_upd domain (bt_insert base entry) reg)
     + (case entry_at reg domain base of None \<Rightarrow> {#} | Some old \<Rightarrow> {#re_registration old#})
     = add_mset (re_registration entry) (registry_refs reg)"
proof (induction reg)
  case (Cons e es)
  then show ?case
    using domain_refs_insert [of "dr_regions e" base entry]
    by (auto simp: registry_wf_Cons entry_at_def)
qed (simp add: entry_at_def bt_get_def domain_refs_def)

lemma entry_at_refs: "entry_at reg domain base = Some entry \<Longrightarrow> re_registration entry \<in># registry_refs reg"
  by (induction reg)
    (force simp: entry_at_def bt_get_def domain_refs_def split: if_splits dest: map_of_SomeD)+

lemma covering_entry_refs:
  assumes "registry_wf reg" "covering_entry start end domain reg = Some i"
  shows "i \<in># registry_refs reg"
  using assms entry_at_refs by (metis covering_entry_iff)

text \<open>
  The invariant: the registry is well-formed and every registration's strong count is the number
  of registry entries naming it plus the leases held outside (by transfers in flight, and by the
  vectors of retired entries a thread has not dropped yet).
\<close>

definition cache_inv :: "arc_id multiset \<Rightarrow> world \<Rightarrow> bool" where
  "cache_inv leases w \<longleftrightarrow> registry_wf (w_registry w)
     \<and> balanced (w_regs w) (count (registry_refs (w_registry w) + leases))"

text \<open>Regions registered and regions closed, according to the log.\<close>

fun mr_registered :: "log \<Rightarrow> fid_mr multiset" where
  "mr_registered [] = {#}"
| "mr_registered (MrReg _ _ _ code mr # l) =
     (if code = 0 then add_mset mr (mr_registered l) else mr_registered l)"
| "mr_registered (_ # l) = mr_registered l"

fun mr_closed :: "log \<Rightarrow> fid_mr multiset" where
  "mr_closed [] = {#}"
| "mr_closed (MrClose mr # l) = add_mset mr (mr_closed l)"
| "mr_closed (_ # l) = mr_closed l"

definition mr_accounted :: "world \<Rightarrow> bool" where
  "mr_accounted w \<longleftrightarrow> mr_registered (w_log w) = mr_closed (w_log w) + arc_live (w_regs w)"

lemma cache_inv_wf [dest]: "cache_inv L w \<Longrightarrow> registry_wf (w_registry w)"
  by (simp add: cache_inv_def)

lemma cache_inv_arcs [dest]: "cache_inv L w \<Longrightarrow> arcs_wf (w_regs w)"
  by (auto simp: cache_inv_def)

lemma cache_inv_count:
  "cache_inv L w \<Longrightarrow> strong_count (w_regs w) i = count (registry_refs (w_registry w) + L) i"
  by (simp add: cache_inv_def balanced_def)

lemma cache_invI:
  "registry_wf (w_registry w) \<Longrightarrow> arcs_wf (w_regs w) \<Longrightarrow>
     (\<And>i. strong_count (w_regs w) i = count (registry_refs (w_registry w) + L) i) \<Longrightarrow> cache_inv L w"
  by (simp add: cache_inv_def balanced_def)

lemma cache_inv_empty [simp, intro]: "cache_inv {#} empty_world"
  by (auto intro!: cache_invI simp: empty_world_def)

lemma mr_accounted_empty [simp, intro]: "mr_accounted empty_world"
  by (simp add: mr_accounted_def empty_world_def)

lemma cache_inv_log [simp]: "cache_inv L (log_call c w) = cache_inv L w"
  by (simp add: cache_inv_def log_call_def)

lemma registry_log_call [simp]: "w_registry (log_call c w) = w_registry w"
  by (simp add: log_call_def)

lemma registry_clone [simp]: "w_registry (registration_clone i w) = w_registry w"
  by (simp add: registration_clone_def)

lemma log_clone [simp]: "w_log (registration_clone i w) = w_log w"
  by (simp add: registration_clone_def)

lemma registry_drop [simp]: "w_registry (registration_drop i w) = w_registry w"
  by (simp add: registration_drop_def log_call_def split: prod.splits option.splits)

lemma registry_drop_all [simp]: "w_registry (registration_drop_all is w) = w_registry w"
  by (induction "is" arbitrary: w) (simp_all add: registration_drop_all_def)

lemma regs_drop [simp]: "w_regs (registration_drop i w) = snd (arc_drop i (w_regs w))"
  by (simp add: registration_drop_def log_call_def split: prod.splits option.splits)

lemma cache_inv_new:
  assumes "cache_inv L w"
  shows "cache_inv (add_mset (fst (registration_new mr w)) L) (snd (registration_new mr w))"
proof (rule cache_invI)
  fix i
  have "count (registry_refs (w_registry w) + L) (next_arc (w_regs w)) = 0"
    using strong_count_bound [of "w_regs w" "next_arc (w_regs w)"] assms
    by (auto simp: cache_inv_count [OF assms])
  then show "strong_count (w_regs (snd (registration_new mr w))) i =
      count (registry_refs (w_registry (snd (registration_new mr w)))
        + add_mset (fst (registration_new mr w)) L) i"
    using cache_inv_count [OF assms, of i]
    by (auto simp: registration_new_def split_def Let_def arc_simps)
qed (use assms in \<open>auto simp: registration_new_def split_def Let_def\<close>)

lemma cache_inv_clone:
  assumes "cache_inv L w" "i \<in># registry_refs (w_registry w) + L"
  shows "cache_inv (add_mset i L) (registration_clone i w)"
proof (rule cache_invI)
  fix j
  have "0 < strong_count (w_regs w) i"
    using assms by (auto simp: cache_inv_count [OF assms(1)])
  then show "strong_count (w_regs (registration_clone i w)) j =
      count (registry_refs (w_registry (registration_clone i w)) + add_mset i L) j"
    using assms cache_inv_count [OF assms(1), of j]
    by (auto simp: registration_clone_def strong_count_clone [OF cache_inv_arcs [OF assms(1)]])
qed (use assms in \<open>auto simp: registration_clone_def\<close>)

lemma cache_inv_drop:
  assumes "cache_inv (add_mset i L) w"
  shows "cache_inv L (registration_drop i w)"
proof (rule cache_invI)
  fix j
  show "strong_count (w_regs (registration_drop i w)) j =
      count (registry_refs (w_registry (registration_drop i w)) + L) j"
    using cache_inv_count [OF assms, of j] assms
    by (auto simp: strong_count_drop [OF cache_inv_arcs [OF assms]])
qed (use assms in auto)

lemma cache_inv_drop_all:
  "cache_inv (mset is + L) w \<Longrightarrow> cache_inv L (registration_drop_all is w)"
  by (induction "is" arbitrary: w)
    (auto simp: registration_drop_all_def dest!: cache_inv_drop)

lemma mr_accounted_clone [simp]:
  "arcs_wf (w_regs w) \<Longrightarrow> mr_accounted (registration_clone i w) = mr_accounted w"
  by (simp add: mr_accounted_def registration_clone_def arc_live_clone)

lemma mr_accounted_new:
  "mr_accounted w \<Longrightarrow>
     mr_accounted (snd (registration_new mr (log_call (MrReg d b l 0 mr) w)))"
  by (simp add: mr_accounted_def registration_new_def split_def Let_def arc_live_new log_call_def)

lemma mr_accounted_drop:
  assumes "arcs_wf (w_regs w)" "mr_accounted w"
  shows "mr_accounted (registration_drop i w)"
  using arc_live_drop [OF assms(1), of i] assms(2)
  by (auto simp: mr_accounted_def registration_drop_def log_call_def
      split: prod.splits option.splits)

lemma mr_accounted_drop_all:
  "arcs_wf (w_regs w) \<Longrightarrow> mr_accounted w \<Longrightarrow> mr_accounted (registration_drop_all is w)"
  by (induction "is" arbitrary: w) (auto simp: registration_drop_all_def mr_accounted_drop)

lemma mr_accounted_registry [simp]:
  "mr_accounted (w\<lparr>w_registry := reg\<rparr>) = mr_accounted w"
  by (simp add: mr_accounted_def)

section \<open>The operations keep the invariant\<close>

definition opt_mset :: "'a option \<Rightarrow> 'a multiset" where
  "opt_mset x = (case x of None \<Rightarrow> {#} | Some y \<Rightarrow> {#y#})"

lemma opt_mset_simps [simp]: "opt_mset None = {#}" "opt_mset (Some y) = {#y#}"
  by (simp_all add: opt_mset_def)

lemma cache_inv_move:
  assumes "cache_inv L w" "registry_wf reg"
    and "registry_refs (w_registry w) + L = registry_refs reg + L'"
  shows "cache_inv L' (w\<lparr>w_registry := reg\<rparr>)"
  using assms by (simp add: cache_inv_def)

lemma cache_inv_track_locked:
  assumes inv: "cache_inv L w" and lease: "i \<in># L"
    and res: "track_locked base end domain i w = (rep, w')"
  shows "cache_inv (opt_mset rep + L) w'"
proof -
  let ?e = "\<lparr>re_end = end, re_registration = i\<rparr>"
  let ?reg = "domain_regions_upd domain (bt_insert base ?e) (w_registry w)"
  have cloned: "cache_inv (add_mset i L) (registration_clone i w)"
    using cache_inv_clone [OF inv] lease by simp
  have rep: "opt_mset rep = (case entry_at (w_registry w) domain base of
      None \<Rightarrow> {#} | Some old \<Rightarrow> {#re_registration old#})"
    and w': "w' = (registration_clone i w)\<lparr>w_registry := ?reg\<rparr>"
    using res by (auto simp: track_locked_def Let_def entry_at_def split: option.splits)
  have "add_mset i (registry_refs (w_registry w)) = registry_refs ?reg + opt_mset rep"
    using registry_refs_track [OF cache_inv_wf [OF inv], of domain base ?e] rep by simp
  then have "registry_refs (w_registry (registration_clone i w)) + add_mset i L
      = registry_refs ?reg + (opt_mset rep + L)"
    by (simp add: ac_simps)
  then show ?thesis
    unfolding w' using cloned registry_wf_track [OF cache_inv_wf [OF inv]]
    by (rule_tac cache_inv_move) auto
qed

lemma cache_inv_track:
  assumes "cache_inv L w" "i \<in># L"
  shows "cache_inv L (track base end domain i w)"
  using cache_inv_track_locked [OF assms, of base "end" domain]
  by (auto simp: track_def split: prod.splits option.splits intro: cache_inv_drop)

lemma cache_inv_covering:
  assumes "cache_inv L w" "covering start end domain w = (res, w')"
  shows "cache_inv (opt_mset res + L) w'"
proof (cases "covering_entry start end domain (w_registry w)")
  case None
  with assms show ?thesis by (auto simp: covering_def)
next
  case (Some i)
  then have "i \<in># registry_refs (w_registry w) + L"
    using covering_entry_refs [OF cache_inv_wf [OF assms(1)]] by simp
  then have "cache_inv (add_mset i L) (registration_clone i w)"
    by (rule cache_inv_clone [OF assms(1)])
  moreover have "res = Some i" "w' = registration_clone i w"
    using assms(2) Some by (auto simp: covering_def)
  ultimately show ?thesis by simp
qed

lemma cache_inv_invalidate_locked:
  assumes "cache_inv L w" "invalidate_locked start end w = (retired, w')"
  shows "cache_inv (mset retired + L) w'"
  using assms registry_refs_invalidate [OF cache_inv_wf [OF assms(1)], of start "end"]
    registry_wf_invalidate [OF cache_inv_wf [OF assms(1)], of start "end"]
  by (auto simp: invalidate_locked_def Let_def split_def intro!: cache_inv_move [OF assms(1)])

lemma cache_inv_clear_locked:
  assumes "cache_inv L w" "clear_domain_locked domain w = (retired, w')"
  shows "cache_inv (mset retired + L) w'"
  using assms registry_refs_take [of "w_registry w" domain]
    registry_wf_take [OF cache_inv_wf [OF assms(1)], of domain]
  by (auto simp: clear_domain_locked_def Let_def split_def intro!: cache_inv_move [OF assms(1)])

lemma cache_inv_invalidate: "cache_inv L w \<Longrightarrow> cache_inv L (invalidate start end w)"
  by (auto simp: invalidate_def Let_def split_def
      intro!: cache_inv_drop_all cache_inv_invalidate_locked)

lemma cache_inv_clear_domain: "cache_inv L w \<Longrightarrow> cache_inv L (clear_domain domain w)"
  by (auto simp: clear_domain_def Let_def split_def
      intro!: cache_inv_drop_all cache_inv_clear_locked)

lemmas cache_inv_ops = cache_inv_track cache_inv_invalidate cache_inv_clear_domain

lemma mr_accounted_track_locked:
  "cache_inv L w \<Longrightarrow> mr_accounted w \<Longrightarrow> mr_accounted (snd (track_locked base end domain i w))"
  by (simp add: track_locked_def Let_def cache_inv_arcs)

lemma mr_accounted_track:
  assumes "cache_inv L w" "i \<in># L" "mr_accounted w"
  shows "mr_accounted (track base end domain i w)"
  using mr_accounted_track_locked [OF assms(1,3), of base "end" domain i]
    cache_inv_track_locked [OF assms(1,2), of base "end" domain]
  by (auto simp: track_def split: prod.splits option.splits
      intro!: mr_accounted_drop dest: cache_inv_arcs)

lemma mr_accounted_covering:
  "cache_inv L w \<Longrightarrow> mr_accounted w \<Longrightarrow> mr_accounted (snd (covering start end domain w))"
  by (auto simp: covering_def cache_inv_arcs split: option.splits)

lemma mr_accounted_invalidate:
  "cache_inv L w \<Longrightarrow> mr_accounted w \<Longrightarrow> mr_accounted (invalidate start end w)"
  by (auto simp: invalidate_def invalidate_locked_def Let_def split_def cache_inv_arcs
      intro!: mr_accounted_drop_all)

lemma mr_accounted_clear_domain:
  "cache_inv L w \<Longrightarrow> mr_accounted w \<Longrightarrow> mr_accounted (clear_domain domain w)"
  by (auto simp: clear_domain_def clear_domain_locked_def Let_def split_def cache_inv_arcs
      intro!: mr_accounted_drop_all)

lemma registry_track:
  "w_registry (track base end domain i w) =
     domain_regions_upd domain (bt_insert base \<lparr>re_end = end, re_registration = i\<rparr>) (w_registry w)"
  by (simp add: track_def track_locked_def Let_def split: option.splits)

lemma registry_invalidate:
  "w_registry (invalidate start end w) = snd (invalidate_registry start end (w_registry w))"
  by (simp add: invalidate_def invalidate_locked_def Let_def split_def)

lemma registry_clear:
  "w_registry (clear_domain domain w) = snd (take_domain domain (w_registry w))"
  by (simp add: clear_domain_def clear_domain_locked_def Let_def split_def)

section \<open>The contract clients of the cache rely on\<close>

definition lookup_region :: "usize \<Rightarrow> usize \<Rightarrow> usize \<Rightarrow> world \<Rightarrow> arc_id option" where
  "lookup_region start end domain w = covering_entry start end domain (w_registry w)"

definition registry_ok :: "world \<Rightarrow> bool" where
  "registry_ok w \<longleftrightarrow> registry_wf (w_registry w)"

locale span_cache =
  fixes find_span :: "usize \<Rightarrow> usize \<Rightarrow> usize \<Rightarrow> 'w \<Rightarrow> 'r option"
    and keep :: "usize \<Rightarrow> usize \<Rightarrow> usize \<Rightarrow> 'r \<Rightarrow> 'w \<Rightarrow> 'w"
    and reclaim_span :: "usize \<Rightarrow> usize \<Rightarrow> 'w \<Rightarrow> 'w"
    and forget :: "usize \<Rightarrow> 'w \<Rightarrow> 'w"
    and ok :: "'w \<Rightarrow> bool"
  assumes ok_keep: "ok w \<Longrightarrow> ok (keep base end d r w)"
    and ok_reclaim: "ok w \<Longrightarrow> ok (reclaim_span a b w)"
    and ok_forget: "ok w \<Longrightarrow> ok (forget d w)"
    and find_keep: "ok w \<Longrightarrow> e \<le> end \<Longrightarrow> find_span base e d (keep base end d r w) = Some r"
    and find_reclaim: "ok w \<Longrightarrow> s < b \<Longrightarrow> a < e \<Longrightarrow> s < e \<Longrightarrow> a < b \<Longrightarrow>
      find_span s e d (reclaim_span a b w) = None"
    and find_forget: "ok w \<Longrightarrow> find_span s e d (forget d w) = None"
begin

lemma ok_reclaim_all: "ok w \<Longrightarrow> ok (fold (\<lambda>(a, b). reclaim_span a b) ranges w)"
  by (induction ranges arbitrary: w) (auto simp: ok_reclaim)

text \<open>A span kept and then reclaimed in part is not found again, whatever was kept before.\<close>

lemma keep_then_reclaim:
  "ok w \<Longrightarrow> base \<le> a \<Longrightarrow> a < b \<Longrightarrow> b \<le> end \<Longrightarrow>
     find_span base end d (reclaim_span a b (keep base end d r w)) = None"
  by (rule find_reclaim) (auto simp: ok_keep)

end

interpretation rc: span_cache lookup_region track invalidate clear_domain registry_ok
  apply unfold_locales
  subgoal by (simp add: registry_ok_def registry_track registry_wf_track)
  subgoal by (simp add: registry_ok_def registry_invalidate registry_wf_invalidate)
  subgoal by (simp add: registry_ok_def registry_clear registry_wf_take)
  subgoal
    by (simp add: registry_ok_def registry_track lookup_region_def covering_after_track)
  subgoal
    by (simp add: registry_ok_def registry_invalidate lookup_region_def covering_after_invalidate)
  subgoal for w s e d
    using covering_entry_iff [OF registry_wf_take, of "w_registry w" s e d]
    by (cases "covering_entry s e d (snd (take_domain d (w_registry w)))")
      (auto simp: registry_ok_def registry_clear lookup_region_def entry_at_take)
  done

section \<open>Interleaved threads\<close>

text \<open>
  The state of the system is the world together with the leases held outside the registry. A
  step is one atomic section of some thread: a fresh registration, the locked part of an
  operation, or the drop of one lease (at the end of a transfer, or of a retired entry after the
  lock is released).
\<close>

type_synonym cache_state = "world \<times> arc_id multiset"

inductive cache_step :: "cache_state \<Rightarrow> cache_state \<Rightarrow> bool" where
  register_ok: "registration_new mr (log_call (MrReg domain base len 0 mr) w) = (i, w') \<Longrightarrow>
    cache_step (w, L) (w', add_mset i L)"
| register_failed: "code \<noteq> 0 \<Longrightarrow>
    cache_step (w, L) (log_call (MrReg domain base len code mr) w, L)"
| track_step: "i \<in># L \<Longrightarrow> track_locked base end domain i w = (replaced, w') \<Longrightarrow>
    cache_step (w, L) (w', opt_mset replaced + L)"
| covering_step: "covering start end domain w = (found, w') \<Longrightarrow>
    cache_step (w, L) (w', opt_mset found + L)"
| invalidate_step: "invalidate_locked start end w = (retired, w') \<Longrightarrow>
    cache_step (w, L) (w', mset retired + L)"
| clear_step: "clear_domain_locked domain w = (retired, w') \<Longrightarrow>
    cache_step (w, L) (w', mset retired + L)"
| drop_step: "cache_step (w, add_mset i L) (registration_drop i w, L)"

definition cache_init :: "cache_state \<Rightarrow> bool" where
  "cache_init s \<longleftrightarrow> s = (empty_world, {#})"

definition cache_state_inv :: "cache_state \<Rightarrow> bool" where
  "cache_state_inv s \<longleftrightarrow> cache_inv (snd s) (fst s) \<and> mr_accounted (fst s)"

lemma cache_step_inv:
  assumes "cache_step s t" "cache_state_inv s"
  shows "cache_state_inv t"
  using assms
proof (induction rule: cache_step.induct)
  case (register_ok mr domain base len w i w' L)
  then show ?case
    using cache_inv_new [of L "log_call (MrReg domain base len 0 mr) w" mr]
      mr_accounted_new [of w mr domain base len]
    by (simp add: cache_state_inv_def)
next
  case (register_failed code w L domain base len mr)
  then show ?case by (simp add: cache_state_inv_def mr_accounted_def log_call_def cache_inv_def)
next
  case (track_step i L base "end" domain w replaced w')
  then show ?case
    using mr_accounted_track_locked [of L w base "end" domain i]
      cache_inv_track_locked [of L w i base "end" domain replaced w']
    by (simp add: cache_state_inv_def)
next
  case (covering_step start "end" domain w found w' L)
  then show ?case
    using mr_accounted_covering [of L w start "end" domain]
      cache_inv_covering [of L w start "end" domain found w']
    by (simp add: cache_state_inv_def)
next
  case (invalidate_step start "end" w retired w' L)
  moreover have "mr_accounted w' = mr_accounted w"
    using invalidate_step(1) by (auto simp: invalidate_locked_def Let_def split_def)
  ultimately show ?case
    using cache_inv_invalidate_locked [of L w start "end" retired w']
    by (simp add: cache_state_inv_def)
next
  case (clear_step domain w retired w' L)
  moreover have "mr_accounted w' = mr_accounted w"
    using clear_step(1) by (auto simp: clear_domain_locked_def Let_def split_def)
  ultimately show ?case
    using cache_inv_clear_locked [of L w domain retired w'] by (simp add: cache_state_inv_def)
next
  case (drop_step w i L)
  then show ?case
    using cache_inv_arcs [of "add_mset i L" w]
    by (auto simp: cache_state_inv_def cache_inv_drop mr_accounted_drop)
qed

interpretation cs: step_invariant cache_init cache_step cache_state_inv
  by unfold_locales
    (auto simp: cache_init_def cache_state_inv_def [of "(empty_world, {#})"] intro: cache_step_inv)

lemma live_not_closed:
  assumes "mr_accounted w" "arc_value (w_regs w) i = Some mr"
  shows "count (mr_closed (w_log w)) mr < count (mr_registered (w_log w)) mr"
proof -
  obtain n where "map_of (cells (w_regs w)) i = Some (mr, n)"
    using assms(2) by (auto simp: arc_value_def)
  then have "mr \<in># arc_live (w_regs w)"
    by (force simp: arc_live_def dest: map_of_SomeD)
  then show ?thesis using assms(1) by (simp add: mr_accounted_def)
qed

section \<open>Properties\<close>

text \<open>
  C5. A lease keeps its region open. However the threads that register, track, look up,
  reclaim, tear down and drop interleave, a registration some holder outside the registry
  leases is alive, and its memory region has been closed fewer times than it was registered:
  no reclaim closes a region under a posted descriptor.
\<close>

theorem lease_keeps_region_open:
  assumes "reachable cache_init cache_step (w, leases)" and "i \<in># leases"
  shows "\<exists>mr. arc_value (w_regs w) i = Some mr
    \<and> count (mr_closed (w_log w)) mr < count (mr_registered (w_log w)) mr"
proof -
  have inv: "cache_inv leases w" "mr_accounted w"
    using cs.reachable_inv [OF assms(1)] by (auto simp: cache_state_inv_def)
  then obtain mr where "arc_value (w_regs w) i = Some mr"
    using balanced_alive [of "w_regs w" "count (registry_refs (w_registry w) + leases)" i] assms(2)
    by (auto simp: cache_inv_def)
  with live_not_closed [OF inv(2)] show ?thesis by blast
qed

definition witness_world :: world where
  "witness_world = snd (registration_new 7 (log_call (MrReg 1 4096 64 0 7) empty_world))"

theorem lease_keeps_region_open_witness:
  "\<exists>mr. arc_value (w_regs witness_world) 0 = Some mr
    \<and> count (mr_closed (w_log witness_world)) mr < count (mr_registered (w_log witness_world)) mr"
proof (rule lease_keeps_region_open)
  have "cache_step (empty_world, {#}) (witness_world, add_mset 0 {#})"
    by (rule cache_step.register_ok [of 7 1 4096 64])
      (simp add: witness_world_def registration_new_def arc_new_def log_call_def empty_world_def
        no_arcs_def Let_def)
  then show "reachable cache_init cache_step (witness_world, {#0#})"
    by (rule reachable.reach_step [OF reachable.reach_init, rotated]) (simp add: cache_init_def)
qed simp

text \<open>
  C19. Registrations neither leak nor close twice. In every reachable state the regions
  registered are exactly the regions closed plus the registrations still alive, and a
  registration is alive exactly as long as a registry entry or a lease names it.
\<close>

theorem regions_closed_exactly_once:
  assumes "reachable cache_init cache_step (w, leases)"
  shows "mr_registered (w_log w) = mr_closed (w_log w) + arc_live (w_regs w)
    \<and> (arc_value (w_regs w) i = None \<longleftrightarrow> i \<notin># registry_refs (w_registry w) + leases)"
proof -
  have inv: "cache_inv leases w" "mr_accounted w"
    using cs.reachable_inv [OF assms] by (auto simp: cache_state_inv_def)
  then have bal: "balanced (w_regs w) (count (registry_refs (w_registry w) + leases))"
    by (simp add: cache_inv_def)
  show ?thesis
    using inv(2) balanced_alive [OF bal, of i] balanced_dead [OF bal, of i]
    by (auto simp: mr_accounted_def count_eq_zero_iff simp del: not_in_iff)
qed

theorem regions_closed_exactly_once_witness:
  "mr_registered (w_log witness_world) = mr_closed (w_log witness_world) + arc_live (w_regs witness_world)
    \<and> (arc_value (w_regs witness_world) 1 = None
       \<longleftrightarrow> 1 \<notin># registry_refs (w_registry witness_world) + {#0#})"
proof (rule regions_closed_exactly_once)
  have "cache_step (empty_world, {#}) (witness_world, add_mset 0 {#})"
    by (rule cache_step.register_ok [of 7 1 4096 64])
      (simp add: witness_world_def registration_new_def arc_new_def log_call_def empty_world_def
        no_arcs_def Let_def)
  then show "reachable cache_init cache_step (witness_world, {#0#})"
    by (rule reachable.reach_step [OF reachable.reach_init, rotated]) (simp add: cache_init_def)
qed

text \<open>
  After \<open>invalidate(a, b)\<close> no domain's cache answers a lookup whose range overlaps the
  reclaimed one, so nothing new can bind to a registration over reclaimed pages.
\<close>

theorem reclaimed_span_is_never_found:
  assumes "registry_ok w" and "start < b" and "a < end" and "start < end" and "a < b"
  shows "fst (covering start end domain (invalidate a b w)) = None"
  using rc.find_reclaim [OF assms, of domain]
  by (simp add: covering_def lookup_region_def split: option.splits)

theorem reclaimed_span_is_never_found_witness:
  "fst (covering 4100 4200 1 (invalidate 4096 4160 (track 4096 8192 1 0 witness_world))) = None"
  by (rule reclaimed_span_is_never_found)
    (simp_all add: rc.ok_keep registry_ok_def witness_world_def registration_new_def arc_new_def
      log_call_def empty_world_def no_arcs_def Let_def registry_track registry_wf_def bt_wf_def)

text \<open>
  C22. \<open>invalidate\<close> retires exactly the overlapping entries: an entry is gone afterwards when
  its base lies below the end of the range and its end above the start, and every other entry of
  every domain stays as it was.
\<close>

theorem invalidate_retires_exactly_the_overlap:
  assumes "registry_ok w"
  shows "entry_at (w_registry (invalidate start end w)) domain base =
    (case entry_at (w_registry w) domain base of
       None \<Rightarrow> None
     | Some entry \<Rightarrow> if base < end \<and> start < re_end entry then None else Some entry)"
  using assms by (simp add: registry_ok_def registry_invalidate entry_at_invalidate)

theorem invalidate_retires_exactly_the_overlap_witness:
  "entry_at (w_registry (invalidate 0 4096 (track 4096 8192 1 0 witness_world))) 1 4096
     = entry_at (w_registry (track 4096 8192 1 0 witness_world)) 1 4096"
  by (subst invalidate_retires_exactly_the_overlap)
    (simp_all add: registry_ok_def witness_world_def registration_new_def arc_new_def
      log_call_def empty_world_def no_arcs_def Let_def registry_track registry_wf_def bt_wf_def
      split: option.splits)

text \<open>
  A lookup is sound and its answer exact: \<open>covering\<close> answers a registration just when the
  entry with the greatest base at or below the start reaches the end of the range, and then it
  is that entry's registration, on the domain asked for.
\<close>

theorem covering_answers_the_nearest_entry:
  assumes "registry_ok w"
  shows "fst (covering start end domain w) = Some i \<longleftrightarrow>
    (\<exists>base entry. entry_at (w_registry w) domain base = Some entry
       \<and> base \<le> start \<and> end \<le> re_end entry \<and> re_registration entry = i
       \<and> (\<forall>b e. entry_at (w_registry w) domain b = Some e \<longrightarrow> b \<le> start \<longrightarrow> b \<le> base))"
  using assms covering_entry_iff [of "w_registry w" start "end" domain i]
  by (auto simp: covering_def registry_ok_def split: option.splits)

theorem covering_answers_the_nearest_entry_witness:
  "fst (covering 4100 4200 1 (track 4096 8192 1 0 witness_world)) = Some 0"
proof -
  let ?w = "track 4096 8192 1 0 witness_world"
  have wf: "registry_ok ?w" and empty: "w_registry witness_world = []"
    by (simp_all add: registry_ok_def witness_world_def registration_new_def arc_new_def
        log_call_def empty_world_def no_arcs_def Let_def registry_track registry_wf_def bt_wf_def)
  have at: "entry_at (w_registry ?w) 1 b =
      (if b = 4096 then Some \<lparr>re_end = 8192, re_registration = 0\<rparr> else None)" for b
    by (simp add: registry_track empty entry_at_def bt_get_def)
  show ?thesis
    by (subst covering_answers_the_nearest_entry [OF wf]) (simp add: at)
qed

end
