(* ===== verification/Local_Regions.thy ===== *)
theory Local_Regions
  imports Region_Cache
begin

text \<open>
  \<open>operands.rs\<close>, \<open>local_regions.rs\<close> and \<open>memory_region.rs\<close>: the spans whose registrations may be
  cached, the registration of an RMA operand out of the cache or afresh, and the handle of memory
  registered up front. The trait \<open>Operands\<close> is the record \<open>operands\<close> of its three methods; an
  implementation of the trait is a value of that record. The lemmas show that an operand always
  gets a lease on a region covering it, when a registration is taken and when it is shared, and
  that every path keeps the reference counts of the cache.
\<close>

section \<open>\<open>CacheableSpan\<close> and \<open>Operands\<close>\<close>

record cacheable_span =
  cs_base :: usize
  cs_end :: usize

definition span_new :: "usize \<Rightarrow> usize \<Rightarrow> cacheable_span option" where
  "span_new base len =
     (case checked_add base len of
        None \<Rightarrow> None
      | Some end \<Rightarrow> Some \<lparr>cs_base = base, cs_end = end\<rparr>)"

definition span_contains :: "cacheable_span \<Rightarrow> usize \<Rightarrow> usize \<Rightarrow> bool" where
  "span_contains span start end \<longleftrightarrow> cs_base span \<le> start \<and> end \<le> cs_end span"

text \<open>
  A slice is its address and its length. \<open>allocate\<close> may change the context; \<open>cacheable_span\<close>
  reads it, and may depend on what happened before, so it takes the log.
\<close>

record 'c operands =
  op_source :: "'c \<Rightarrow> (ptr \<times> usize) option"
  op_allocate :: "'c \<Rightarrow> usize \<Rightarrow> (ptr \<times> usize) option \<times> 'c"
  op_cacheable_span :: "log \<Rightarrow> 'c \<Rightarrow> cacheable_span option"

text \<open>The default methods of the trait.\<close>

definition default_operands :: "'c operands" where
  "default_operands =
     \<lparr>op_source = (\<lambda>_. None), op_allocate = (\<lambda>c _. (None, c)), op_cacheable_span = (\<lambda>_ _. None)\<rparr>"

text \<open>
  \<open>impl Operands for Vec<u8>\<close>: a vector is its buffer address and bytes; growing it may move the
  buffer, to an address the allocator \<open>grow\<close> chooses.
\<close>

record vec_u8 =
  vec_pointer :: ptr
  vec_bytes :: "u8 list"

definition vec_resize :: "(ptr \<Rightarrow> usize \<Rightarrow> ptr) \<Rightarrow> vec_u8 \<Rightarrow> usize \<Rightarrow> vec_u8" where
  "vec_resize grow v len =
     (if unat len \<le> length (vec_bytes v) then v\<lparr>vec_bytes := take (unat len) (vec_bytes v)\<rparr>
      else \<lparr>vec_pointer = grow (vec_pointer v) len,
            vec_bytes = vec_bytes v @ replicate (unat len - length (vec_bytes v)) 0\<rparr>)"

definition vec_operands :: "(ptr \<Rightarrow> usize \<Rightarrow> ptr) \<Rightarrow> vec_u8 operands" where
  "vec_operands grow = default_operands
     \<lparr>op_source := (\<lambda>v. Some (vec_pointer v, word_of_nat (length (vec_bytes v)))),
      op_allocate := (\<lambda>v len.
        let v' = vec_resize grow v len
        in (Some (vec_pointer v', word_of_nat (length (vec_bytes v'))), v'))\<rparr>"

section \<open>\<open>LocalRegions\<close>\<close>

record local_operand =
  lo_descriptor :: ptr
  lo_lease :: "arc_id option"

text \<open>\<open>LocalRegions::register\<close>.\<close>

definition register_region ::
  "fabric \<Rightarrow> usize \<Rightarrow> usize \<Rightarrow> usize \<Rightarrow> world \<Rightarrow> (dma_error, fid_mr) result \<times> world" where
  "register_region F domain pointer len w =
     (let (code, mr) = fi_mr_reg F (w_log w) domain pointer len;
          w' = log_call (MrReg domain pointer len code mr) w
      in (case check F code ''fi_mr_reg(operand)'' of
            Inl e \<Rightarrow> Inl e
          | Inr _ \<Rightarrow> Inr mr, w'))"

text \<open>
  \<open>LocalRegions::operand\<close>. \<open>cacheable\<close> is the closure the caller passes; it is asked on a miss
  only, and reads the log of that moment.
\<close>

definition widened_register ::
  "fabric \<Rightarrow> usize \<Rightarrow> usize \<times> usize \<Rightarrow> ptr \<Rightarrow> usize \<Rightarrow> usize \<Rightarrow> world
    \<Rightarrow> (dma_error, usize \<times> usize \<times> fid_mr) result \<times> world" where
  "widened_register F domain span pointer len end w =
     (case register_region F domain (fst span) (snd span - fst span) w of
        (Inr mr, w1) \<Rightarrow> (Inr (fst span, snd span, mr), w1)
      | (Inl error, w1) \<Rightarrow>
          (if span \<noteq> (pointer, end) then
             (case register_region F domain pointer len w1 of
                (Inr mr, w2) \<Rightarrow> (Inr (pointer, end, mr), w2)
              | (Inl error', w2) \<Rightarrow> (Inl error', w2))
           else (Inl error, w1)))"

definition operand_of ::
  "fabric \<Rightarrow> usize \<Rightarrow> ptr \<Rightarrow> usize \<Rightarrow> (log \<Rightarrow> cacheable_span option) \<Rightarrow> world
    \<Rightarrow> (dma_error, local_operand) result \<times> world" where
  "operand_of F domain pointer len cacheable w =
     (case checked_add pointer len of
        None \<Rightarrow> (Inl (Fabric ''local operand range overflows''), w)
      | Some end \<Rightarrow>
          (case covering pointer end domain w of
             (Some lease, w1) \<Rightarrow>
               (Inr \<lparr>lo_descriptor = fi_mr_desc F (the (arc_value (w_regs w1) lease)),
                     lo_lease = Some lease\<rparr>, w1)
           | (None, w1) \<Rightarrow>
               (let span = (case cacheable (w_log w1) of
                              None \<Rightarrow> None
                            | Some s \<Rightarrow> if span_contains s pointer end then Some s else None);
                    wide = (case span of None \<Rightarrow> (pointer, end) | Some s \<Rightarrow> (cs_base s, cs_end s))
                in case widened_register F domain wide pointer len end w1 of
                     (Inl error, w2) \<Rightarrow> (Inl error, w2)
                   | (Inr (base, limit, mr), w2) \<Rightarrow>
                       (let (lease, w3) = registration_new mr w2;
                            w4 = (if span \<noteq> None then track base limit domain lease w3 else w3)
                        in (Inr \<lparr>lo_descriptor = fi_mr_desc F mr, lo_lease = Some lease\<rparr>, w4)))))"

text \<open>\<open>LocalRegions::pin\<close>: the lease taken by \<open>Registration::new\<close> drops at the end.\<close>

definition pin :: "fabric \<Rightarrow> usize \<Rightarrow> usize \<Rightarrow> usize \<Rightarrow> world \<Rightarrow> (dma_error, unit) result \<times> world" where
  "pin F domain base len w =
     (case checked_add base len of
        None \<Rightarrow> (Inl (Fabric ''pinned region range overflows''), w)
      | Some end \<Rightarrow>
          (case register_region F domain base len w of
             (Inl error, w1) \<Rightarrow> (Inl error, w1)
           | (Inr mr, w1) \<Rightarrow>
               (let (lease, w2) = registration_new mr w1
                in (Inr (), registration_drop lease (track base end domain lease w2)))))"

text \<open>\<open>LocalRegions::clear\<close>.\<close>

definition clear_regions :: "usize \<Rightarrow> world \<Rightarrow> world" where
  "clear_regions domain w = clear_domain domain w"

section \<open>\<open>MemoryRegion\<close>\<close>

text \<open>
  The shared handle: cells of an \<open>Arc\<close> heap whose values are regions. Dropping the last clone
  retires the registrations over the span before the storage is freed, which the model records
  by answering the storage that may now be freed together with the world after the retirement.
\<close>

record 's region =
  rg_storage :: 's
  rg_base :: usize
  rg_end :: usize

definition memory_region_new ::
  "'s \<Rightarrow> usize \<Rightarrow> usize \<Rightarrow> 's region arcs \<Rightarrow> arc_id \<times> 's region arcs" where
  "memory_region_new storage base end h =
     arc_new \<lparr>rg_storage = storage, rg_base = base, rg_end = end\<rparr> h"

definition memory_region_length :: "'s region \<Rightarrow> usize" where
  "memory_region_length r = rg_end r - rg_base r"

definition memory_region_clone :: "arc_id \<Rightarrow> 's region arcs \<Rightarrow> 's region arcs" where
  "memory_region_clone i h = arc_clone i h"

definition region_drop :: "'s region \<Rightarrow> world \<Rightarrow> world" where
  "region_drop r w = invalidate (rg_base r) (rg_end r) w"

definition memory_region_drop ::
  "arc_id \<Rightarrow> 's region arcs \<Rightarrow> world \<Rightarrow> 's option \<times> 's region arcs \<times> world" where
  "memory_region_drop i h w =
     (case arc_drop i h of
        (None, h') \<Rightarrow> (None, h', w)
      | (Some r, h') \<Rightarrow> (Some (rg_storage r), h', region_drop r w))"

section \<open>What backs an entry of the registry\<close>

text \<open>
  Every entry of the registry stands for a region that the log shows registered on that domain
  over exactly the entry's span, and that is still open.
\<close>

definition registry_backed :: "world \<Rightarrow> bool" where
  "registry_backed w \<longleftrightarrow> (\<forall>domain base e. entry_at (w_registry w) domain base = Some e \<longrightarrow>
     (\<exists>mr len. arc_value (w_regs w) (re_registration e) = Some mr
        \<and> MrReg domain base len 0 mr \<in> set (w_log w)
        \<and> re_end e = base + len \<and> unat base + unat len < 2 ^ 64))"

definition cache_ok :: "arc_id multiset \<Rightarrow> world \<Rightarrow> bool" where
  "cache_ok L w \<longleftrightarrow> cache_inv L w \<and> mr_accounted w \<and> registry_backed w"

text \<open>The log only grows, and no cell changes its value: what later states keep of earlier ones.\<close>

definition world_ext :: "world \<Rightarrow> world \<Rightarrow> bool" where
  "world_ext w w' \<longleftrightarrow> set (w_log w) \<subseteq> set (w_log w')
     \<and> (\<forall>i v. arc_value (w_regs w') i = Some v \<longrightarrow> arc_value (w_regs w) i = Some v)"

lemma cache_ok_inv [dest]: "cache_ok L w \<Longrightarrow> cache_inv L w"
  by (simp add: cache_ok_def)

lemma cache_ok_alive: "cache_ok L w \<Longrightarrow> i \<in># registry_refs (w_registry w) + L \<Longrightarrow>
   \<exists>mr. arc_value (w_regs w) i = Some mr"
  using balanced_alive [of "w_regs w" "count (registry_refs (w_registry w) + L)" i]
  by (simp add: cache_ok_def cache_inv_def)

lemma registry_backedD:
  "registry_backed w \<Longrightarrow> entry_at (w_registry w) domain base = Some e \<Longrightarrow>
     \<exists>mr len. arc_value (w_regs w) (re_registration e) = Some mr
        \<and> MrReg domain base len 0 mr \<in> set (w_log w)
        \<and> re_end e = base + len \<and> unat base + unat len < 2 ^ 64"
  by (simp add: registry_backed_def)

lemma world_ext_refl [simp, intro]: "world_ext w w"
  by (simp add: world_ext_def)

lemma world_ext_trans: "world_ext w1 w2 \<Longrightarrow> world_ext w2 w3 \<Longrightarrow> world_ext w1 w3"
  by (auto simp: world_ext_def)

lemma world_ext_log: "world_ext w (log_call c w)"
  by (auto simp: world_ext_def log_call_def)

lemma arc_value_clone [simp]: "arcs_wf h \<Longrightarrow> arc_value (arc_clone i h) j = arc_value h j"
  by (auto simp: arc_value_def arc_clone_def update_conv' split: option.splits)

lemma arc_value_drop: "arc_value (snd (arc_drop i h)) j = Some v \<Longrightarrow> arc_value h j = Some v"
  by (auto simp: arc_value_def arc_drop_def update_conv' delete_conv' split: option.splits if_splits)

lemma arc_value_new: "arc_value (snd (arc_new v h)) j = (if j = next_arc h then Some v else arc_value h j)"
  by (simp add: arc_value_def arc_new_def)

lemma arc_value_fresh: "arcs_wf h \<Longrightarrow> arc_value h (next_arc h) = None"
  by (simp add: arc_value_def arcs_wf_fresh)

lemma world_ext_clone: "arcs_wf (w_regs w) \<Longrightarrow> world_ext w (registration_clone i w)"
  by (auto simp: world_ext_def registration_clone_def)

lemma world_ext_drop: "world_ext w (registration_drop i w)"
  by (auto simp: world_ext_def dest: arc_value_drop)
    (auto simp: registration_drop_def log_call_def split: prod.splits option.splits)

lemma world_ext_drop_all: "world_ext w (registration_drop_all is w)"
proof (induction "is" arbitrary: w)
  case (Cons i "is")
  then show ?case
    using world_ext_trans [OF world_ext_drop [of w i] Cons.IH [of "registration_drop i w"]]
    by (simp add: registration_drop_all_def)
qed (simp add: registration_drop_all_def)

lemma registry_backed_ext:
  assumes "registry_backed w" "world_ext w w'" "cache_inv L w'"
    and "\<And>d b e. entry_at (w_registry w') d b = Some e \<Longrightarrow> entry_at (w_registry w) d b = Some e"
  shows "registry_backed w'"
  unfolding registry_backed_def
proof (intro allI impI)
  fix d b e
  assume e: "entry_at (w_registry w') d b = Some e"
  then obtain mr' where alive: "arc_value (w_regs w') (re_registration e) = Some mr'"
    using entry_at_refs [OF e] balanced_alive [of "w_regs w'" "count (registry_refs (w_registry w') + L)"
        "re_registration e"] assms(3)
    by (auto simp: cache_inv_def)
  then show "\<exists>mr len. arc_value (w_regs w') (re_registration e) = Some mr
      \<and> MrReg d b len 0 mr \<in> set (w_log w') \<and> re_end e = b + len \<and> unat b + unat len < 2 ^ 64"
    using assms(1) assms(4) [OF e] assms(2)
    by (fastforce simp: registry_backed_def world_ext_def)
qed

section \<open>The operations keep the cache\<close>

definition plain_call :: "call \<Rightarrow> bool" where
  "plain_call c \<longleftrightarrow> (case c of MrReg _ _ _ code _ \<Rightarrow> code \<noteq> 0 | MrClose _ \<Rightarrow> False | _ \<Rightarrow> True)"

lemma cache_ok_empty [simp, intro]: "cache_ok {#} empty_world"
  by (simp add: cache_ok_def registry_backed_def) (simp add: empty_world_def entry_at_def bt_get_def)

lemma mr_accounted_plain: "plain_call c \<Longrightarrow> mr_accounted (log_call c w) = mr_accounted w"
  by (cases c) (auto simp: mr_accounted_def log_call_def plain_call_def)

lemma cache_ok_log: "plain_call c \<Longrightarrow> cache_ok L w \<Longrightarrow> cache_ok L (log_call c w)"
  using registry_backed_ext [of w "log_call c w" L] world_ext_log [of w c]
  by (auto simp: cache_ok_def mr_accounted_plain)

lemma cache_ok_register:
  assumes "cache_ok L w"
    and new: "registration_new mr (log_call (MrReg domain base len 0 mr) w) = (i, w')"
  shows "cache_ok (add_mset i L) w' \<and> arc_value (w_regs w') i = Some mr
    \<and> MrReg domain base len 0 mr \<in> set (w_log w') \<and> w_registry w' = w_registry w"
proof -
  let ?l = "log_call (MrReg domain base len 0 mr) w"
  have inv: "cache_inv L w" and acc: "mr_accounted w" and backed: "registry_backed w"
    using assms(1) by (auto simp: cache_ok_def)
  have i: "i = next_arc (w_regs w)" and w': "w' = ?l\<lparr>w_regs := snd (arc_new mr (w_regs w))\<rparr>"
    using new by (auto simp: registration_new_def split_def Let_def arc_simps log_call_def)
  have "registry_backed w'"
    unfolding registry_backed_def
  proof (intro allI impI)
    fix d b e
    assume "entry_at (w_registry w') d b = Some e"
    then obtain mr' len' where "arc_value (w_regs w) (re_registration e) = Some mr'"
        "MrReg d b len' 0 mr' \<in> set (w_log w)" "re_end e = b + len'" "unat b + unat len' < 2 ^ 64"
      using backed by (force simp: registry_backed_def w' log_call_def)
    moreover then have "re_registration e \<noteq> i"
      using arc_value_fresh [OF cache_inv_arcs [OF inv]] by (auto simp: i)
    ultimately show "\<exists>mr len. arc_value (w_regs w') (re_registration e) = Some mr
        \<and> MrReg d b len 0 mr \<in> set (w_log w') \<and> re_end e = b + len \<and> unat b + unat len < 2 ^ 64"
      by (auto simp: w' i arc_value_new log_call_def)
  qed
  moreover have "cache_inv (add_mset i L) w'" "mr_accounted w'"
    using cache_inv_new [of L ?l mr] mr_accounted_new [OF acc, of mr domain base len] inv
    by (simp_all add: new)
  ultimately show ?thesis by (auto simp: cache_ok_def w' i arc_value_new log_call_def)
qed

lemma cache_ok_drop: "cache_ok (add_mset i L) w \<Longrightarrow> cache_ok L (registration_drop i w)"
  using registry_backed_ext [of w "registration_drop i w" L] world_ext_drop [of w i]
    cache_inv_drop [of i L w] mr_accounted_drop [of w i]
  by (auto simp: cache_ok_def)

lemma cache_ok_clone:
  assumes "cache_ok L w" "i \<in># registry_refs (w_registry w) + L"
  shows "cache_ok (add_mset i L) (registration_clone i w)"
  using registry_backed_ext [of w "registration_clone i w" "add_mset i L"]
    world_ext_clone [of w i] cache_inv_clone [of L w i] assms cache_inv_arcs [of L w]
  by (auto simp: cache_ok_def)

lemma covering_world: "covering s e d w = (res, w') \<Longrightarrow> cache_inv L w \<Longrightarrow>
  world_ext w w' \<and> w_registry w' = w_registry w \<and> w_log w' = w_log w"
  by (auto simp: covering_def intro: world_ext_clone split: option.splits)

lemma cache_ok_covering:
  assumes "cache_ok L w" "covering start end domain w = (res, w')"
  shows "cache_ok (opt_mset res + L) w'"
  using cache_inv_covering [of L w start "end" domain res w'] covering_world [OF assms(2), of L]
    mr_accounted_covering [of L w start "end" domain] assms
    registry_backed_ext [of w w' "opt_mset res + L"]
  by (auto simp: cache_ok_def)

lemma world_ext_registry [simp]: "world_ext w (w'\<lparr>w_registry := reg\<rparr>) = world_ext w w'"
  by (simp add: world_ext_def)

lemma world_ext_track:
  assumes "cache_inv L w"
  shows "world_ext w (track base end domain i w)"
proof -
  have locked: "world_ext w (snd (track_locked base end domain i w))"
    using world_ext_clone [OF cache_inv_arcs [OF assms], of i] by (simp add: track_locked_def Let_def)
  then show ?thesis
    using world_ext_trans [OF locked world_ext_drop]
    by (auto simp: track_def split: prod.splits option.splits)
qed

lemma cache_ok_track:
  assumes ok: "cache_ok L w" and lease: "i \<in># L"
    and mr: "arc_value (w_regs w) i = Some mr"
    and reg: "MrReg domain base len 0 mr \<in> set (w_log w)"
    and span: "end = base + len" "unat base + unat len < 2 ^ 64"
  shows "cache_ok L (track base end domain i w)"
proof -
  let ?w = "track base end domain i w"
  have inv: "cache_inv L w" and acc: "mr_accounted w" and backed: "registry_backed w"
    using ok by (auto simp: cache_ok_def)
  have inv': "cache_inv L ?w" by (rule cache_inv_track [OF inv lease])
  have ext: "world_ext w ?w" by (rule world_ext_track [OF inv])
  have "registry_backed ?w"
    unfolding registry_backed_def
  proof (intro allI impI)
    fix d b e
    assume e: "entry_at (w_registry ?w) d b = Some e"
    then obtain mr' where "arc_value (w_regs ?w) (re_registration e) = Some mr'"
      using entry_at_refs [OF e] balanced_alive [of "w_regs ?w" "count (registry_refs (w_registry ?w) + L)"
          "re_registration e"] inv'
      by (auto simp: cache_inv_def)
    then show "\<exists>mr len. arc_value (w_regs ?w) (re_registration e) = Some mr
        \<and> MrReg d b len 0 mr \<in> set (w_log ?w) \<and> re_end e = b + len \<and> unat b + unat len < 2 ^ 64"
      using e backed ext mr reg span
      by (fastforce simp: registry_track entry_at_track [OF cache_inv_wf [OF inv]] registry_backed_def
          world_ext_def split: if_splits)
  qed
  then show ?thesis
    using inv' mr_accounted_track [OF inv lease acc] by (simp add: cache_ok_def)
qed

lemma world_ext_invalidate: "world_ext w (invalidate start end w)"
  using world_ext_drop_all [of "snd (invalidate_locked start end w)" "fst (invalidate_locked start end w)"]
  by (auto simp: invalidate_def invalidate_locked_def Let_def split_def world_ext_def)

lemma world_ext_clear: "world_ext w (clear_domain domain w)"
  using world_ext_drop_all [of "snd (clear_domain_locked domain w)" "fst (clear_domain_locked domain w)"]
  by (auto simp: clear_domain_def clear_domain_locked_def Let_def split_def world_ext_def)

lemma cache_ok_invalidate:
  assumes "cache_ok L w"
  shows "cache_ok L (invalidate start end w)"
proof -
  have inv: "cache_inv L w" using assms by auto
  have "registry_backed (invalidate start end w)"
    using assms by (intro registry_backed_ext [OF _ world_ext_invalidate cache_inv_invalidate [OF inv]])
      (auto simp: cache_ok_def registry_invalidate entry_at_invalidate [OF cache_inv_wf [OF inv]]
        split: option.splits if_splits)
  then show ?thesis
    using assms cache_inv_invalidate [OF inv] mr_accounted_invalidate [OF inv]
    by (simp add: cache_ok_def)
qed

lemma cache_ok_clear_domain:
  assumes "cache_ok L w"
  shows "cache_ok L (clear_domain domain w)"
proof -
  have inv: "cache_inv L w" using assms by auto
  have "registry_backed (clear_domain domain w)"
    using assms by (intro registry_backed_ext [OF _ world_ext_clear cache_inv_clear_domain [OF inv]])
      (auto simp: cache_ok_def registry_clear entry_at_take [OF cache_inv_wf [OF inv]]
        split: option.splits if_splits)
  then show ?thesis
    using assms cache_inv_clear_domain [OF inv] mr_accounted_clear_domain [OF inv]
    by (simp add: cache_ok_def)
qed

lemmas cache_ok_ops = cache_ok_log cache_ok_drop cache_ok_track cache_ok_invalidate cache_ok_clear_domain

section \<open>Registering operands\<close>

lemma register_region_cases:
  assumes "register_region F domain pointer len w = (res, w')"
  obtains (failed) code mr e where "code \<noteq> 0" "res = Inl e"
      "e = fabric_error F code ''fi_mr_reg(operand)''"
      "w' = log_call (MrReg domain pointer len code mr) w"
    | (registered) mr where "res = Inr mr" "w' = log_call (MrReg domain pointer len 0 mr) w"
  using assms by (auto simp: register_region_def Let_def split_def check_def split: if_splits)

lemma plain_failed [simp]: "code \<noteq> 0 \<Longrightarrow> plain_call (MrReg d p l code mr)"
  by (simp add: plain_call_def)

text \<open>The span a fresh registration covers holds the operand, and lies inside the address space.\<close>

lemma wide_span:
  fixes base limit start len :: usize
  assumes "base \<le> start" "start + len \<le> limit" "unat start + unat len < 2 ^ 64"
  shows "unat base + unat (limit - base) = unat limit \<and> base + (limit - base) = limit
    \<and> unat start + unat len \<le> unat base + unat (limit - base)"
proof -
  have "unat (start + len) = unat start + unat len" by (rule unat_add_no_wrap [OF assms(3)])
  then have "base \<le> limit" "unat start + unat len \<le> unat limit"
    using assms by (simp_all add: word_le_nat_alt)
  then show ?thesis by (simp add: unat_sub word_le_nat_alt)
qed

lemma widened_register_cases:
  assumes "widened_register F domain span pointer len end w = (res, w')" "cache_ok L w"
    and "end = pointer + len" "fst span \<le> pointer" "end \<le> snd span"
    and "unat pointer + unat len < 2 ^ 64"
  obtains (failed) e where "res = Inl e" "cache_ok L w'" "w_registry w' = w_registry w"
    | (registered) base limit mr w1 where "res = Inr (base, limit, mr)" "cache_ok L w1"
        "w_registry w1 = w_registry w" "base \<le> pointer" "end \<le> limit"
        "w' = log_call (MrReg domain base (limit - base) 0 mr) w1"
proof (cases "register_region F domain (fst span) (snd span - fst span) w")
  case (Pair r1 w1)
  then show ?thesis
  proof (cases rule: register_region_cases)
    case (registered mr)
    then show ?thesis
      using that(2) [of "fst span" "snd span" mr w] assms Pair
      by (auto simp: widened_register_def)
  next
    case (failed code mr e)
    note first = this
    then have ok: "cache_ok L w1" "w_registry w1 = w_registry w"
      using assms(2) by (auto intro: cache_ok_log)
    show ?thesis
    proof (cases "span = (pointer, end)")
      case True
      then show ?thesis using that(1) [of e] assms Pair first ok by (auto simp: widened_register_def)
    next
      case False
      obtain r2 w2 where second: "register_region F domain pointer len w1 = (r2, w2)"
        by (cases "register_region F domain pointer len w1")
      then show ?thesis
      proof (cases rule: register_region_cases)
        case (registered mr)
        then show ?thesis
          using that(2) [of pointer "end" mr w1] assms Pair False ok first second
          by (auto simp: widened_register_def)
      next
        case (failed code mr e)
        then show ?thesis
          using that(1) [of e] assms Pair False ok first second cache_ok_log [OF _ ok(1)]
          by (auto simp: widened_register_def)
      qed
    qed
  qed
qed

lemma cache_ok_pin:
  assumes "cache_ok L w"
  shows "cache_ok L (snd (pin F domain base len w))"
proof (cases "checked_add base len")
  case None
  then show ?thesis using assms by (simp add: pin_def)
next
  case (Some "end")
  then have span: "unat base + unat len < 2 ^ 64" "end = base + len" by (auto simp: arith_simps)
  obtain r w1 where reg: "register_region F domain base len w = (r, w1)"
    by (cases "register_region F domain base len w")
  then show ?thesis
  proof (cases rule: register_region_cases)
    case (failed code mr e)
    then show ?thesis using assms Some reg by (auto simp: pin_def intro: cache_ok_log)
  next
    case (registered mr)
    obtain i w2 where new: "registration_new mr w1 = (i, w2)" by (cases "registration_new mr w1")
    note fresh = cache_ok_register [OF assms new [unfolded registered(2)]]
    have "cache_ok (add_mset i L) (track base end domain i w2)"
      using fresh span by (intro cache_ok_track [where mr = mr and len = len]) auto
    then have "cache_ok L (registration_drop i (track base end domain i w2))"
      by (rule cache_ok_drop)
    then show ?thesis using Some reg registered new by (simp add: pin_def)
  qed
qed

text \<open>What an operand resolves to.\<close>

definition covers :: "log \<Rightarrow> usize \<Rightarrow> fid_mr \<Rightarrow> ptr \<Rightarrow> usize \<Rightarrow> bool" where
  "covers l domain mr pointer len \<longleftrightarrow>
     (\<exists>base n. MrReg domain base n 0 mr \<in> set l \<and> base \<le> pointer
        \<and> unat pointer + unat len \<le> unat base + unat n)"

lemma operand_hit:
  assumes ok: "cache_ok L w" and no_wrap: "unat pointer + unat len < 2 ^ 64"
    and hit: "covering pointer (pointer + len) domain w = (Some i, w')"
  shows "cache_ok (add_mset i L) w' \<and> w_log w' = w_log w
    \<and> (\<exists>mr. arc_value (w_regs w') i = Some mr \<and> covers (w_log w') domain mr pointer len)"
proof -
  have ok': "cache_ok (add_mset i L) w'" using cache_ok_covering [OF ok hit] by simp
  have "covering_entry pointer (pointer + len) domain (w_registry w) = Some i"
    using hit by (auto simp: covering_def split: option.splits)
  then obtain base e where e: "entry_at (w_registry w) domain base = Some e" "base \<le> pointer"
      "pointer + len \<le> re_end e" "re_registration e = i"
    using covering_entry_iff [OF cache_inv_wf [OF cache_ok_inv [OF ok]]] by blast
  then obtain mr n where mr: "arc_value (w_regs w) i = Some mr"
      "MrReg domain base n 0 mr \<in> set (w_log w)" "re_end e = base + n" "unat base + unat n < 2 ^ 64"
    using registry_backedD [of w domain base e] ok by (auto simp: cache_ok_def)
  have "unat pointer + unat len \<le> unat base + unat n"
    using e(3) mr(3,4) no_wrap by (simp add: word_le_nat_alt unat_add_no_wrap)
  moreover obtain mr' where "arc_value (w_regs w') i = Some mr'"
    using cache_ok_alive [OF ok', of i] by auto
  moreover have "world_ext w w'" "w_log w' = w_log w"
    using covering_world [OF hit cache_ok_inv [OF ok]] by auto
  ultimately show ?thesis
    using ok' mr e(2) by (auto simp: covers_def world_ext_def)
qed

lemma operand_fresh:
  assumes ok: "cache_ok L w1" and base: "base \<le> pointer" "pointer + len \<le> limit"
    and no_wrap: "unat pointer + unat len < 2 ^ 64"
    and new: "registration_new mr (log_call (MrReg domain base (limit - base) 0 mr) w1) = (i, w3)"
    and w4: "w4 = (if cached then track base limit domain i w3 else w3)"
  shows "cache_ok (add_mset i L) w4 \<and> arc_value (w_regs w4) i = Some mr
    \<and> covers (w_log w4) domain mr pointer len"
proof -
  note fresh = cache_ok_register [OF ok new]
  note wide = wide_span [OF base no_wrap]
  have limit: "unat limit < 2 ^ 64" using unsigned_less [of limit] by simp
  have ok4: "cache_ok (add_mset i L) w4"
    unfolding w4 using fresh wide limit
    by (cases cached) (auto intro!: cache_ok_track [where mr = mr and len = "limit - base"])
  have ext: "world_ext w3 w4"
    unfolding w4 using world_ext_track [of "add_mset i L" w3] fresh by auto
  obtain mr' where "arc_value (w_regs w4) i = Some mr'" using cache_ok_alive [OF ok4, of i] by auto
  then show ?thesis
    using ok4 ext fresh wide base by (auto simp: covers_def world_ext_def)
qed

lemma operand_of_ok:
  assumes ok: "cache_ok L w" and res: "operand_of F domain pointer len cacheable w = (res, w')"
  shows "case res of
      Inl e \<Rightarrow> cache_ok L w'
    | Inr lo \<Rightarrow> (\<exists>i mr. lo_lease lo = Some i \<and> cache_ok (add_mset i L) w'
         \<and> arc_value (w_regs w') i = Some mr \<and> lo_descriptor lo = fi_mr_desc F mr
         \<and> covers (w_log w') domain mr pointer len)"
proof (cases "checked_add pointer len")
  case None
  then show ?thesis using ok res by (auto simp: operand_of_def)
next
  case (Some "end")
  then have no_wrap: "unat pointer + unat len < 2 ^ 64" and "end": "end = pointer + len"
    by (auto simp: arith_simps)
  obtain found w1 where cov: "covering pointer (pointer + len) domain w = (found, w1)"
    by (cases "covering pointer (pointer + len) domain w")
  show ?thesis
  proof (cases found)
    case (Some i)
    then show ?thesis
      using operand_hit [OF ok no_wrap, of domain i w1] cov \<open>checked_add pointer len = _\<close> res "end"
      by (auto simp: operand_of_def)
  next
    case None
    then have ok1: "cache_ok L w1" using cache_ok_covering [OF ok cov] by simp
    define span where "span = (case cacheable (w_log w1) of None \<Rightarrow> None
      | Some s \<Rightarrow> if span_contains s pointer (pointer + len) then Some s else None)"
    define wide where "wide = (case span of None \<Rightarrow> (pointer, pointer + len)
      | Some s \<Rightarrow> (cs_base s, cs_end s))"
    have wide_ok: "fst wide \<le> pointer" "pointer + len \<le> snd wide"
      by (auto simp: wide_def span_def span_contains_def split: option.splits if_splits)
    obtain r w2 where reg: "widened_register F domain wide pointer len (pointer + len) w1 = (r, w2)"
      by (cases "widened_register F domain wide pointer len (pointer + len) w1")
    have unfolded: "operand_of F domain pointer len cacheable w =
       (case r of Inl error \<Rightarrow> (Inl error, w2)
        | Inr (base, limit, mr) \<Rightarrow>
            (let (lease, w3) = registration_new mr w2;
                 w4 = (if span \<noteq> None then track base limit domain lease w3 else w3)
             in (Inr \<lparr>lo_descriptor = fi_mr_desc F mr, lo_lease = Some lease\<rparr>, w4)))"
      using \<open>checked_add pointer len = _\<close> "end" cov None reg
      by (simp add: operand_of_def span_def [symmetric] wide_def [symmetric] split: sum.splits)
    from reg ok1 refl wide_ok no_wrap show ?thesis
    proof (cases rule: widened_register_cases)
      case (failed e)
      then show ?thesis using res unfolded by auto
    next
      case (registered base limit mr w0)
      obtain i w3 where new: "registration_new mr w2 = (i, w3)" by (cases "registration_new mr w2")
      show ?thesis
        using operand_fresh [OF registered(2,4,5) no_wrap new [unfolded registered(6)] refl,
            of "span \<noteq> None"] res unfolded new registered(1)
        by (auto simp: Let_def)
    qed
  qed
qed

section \<open>Properties\<close>

text \<open>
  C29. An operand that resolves always holds a lease on an open region of its own domain that the
  fabric registered over memory containing the whole operand, and the descriptor handed to the
  post is that region's. This holds for a cache hit, a fresh registration, a widened one and the
  fallback to the operand's own extent alike, and the reference counts of the cache are kept.
\<close>

theorem operand_leases_a_covering_region:
  assumes "cache_ok leases w"
    and "operand_of F domain pointer len cacheable w = (Inr lo, w')"
  shows "\<exists>i mr. lo_lease lo = Some i \<and> cache_ok (add_mset i leases) w'
    \<and> arc_value (w_regs w') i = Some mr \<and> lo_descriptor lo = fi_mr_desc F mr
    \<and> covers (w_log w') domain mr pointer len"
  using operand_of_ok [OF assms] by simp

definition witness_span :: cacheable_span where
  "witness_span = \<lparr>cs_base = 4096, cs_end = 8192\<rparr>"

lemmas witness_eval = operand_of_def checked_add_def covering_def covering_entry_def Let_def
  widened_register_def register_region_def loopback_def check_def registration_new_def arc_new_def
  no_arcs_def log_call_def empty_world_def span_contains_def witness_span_def

theorem operand_leases_a_covering_region_witness:
  "\<exists>lo w'. operand_of loopback 1 5000 64 (\<lambda>_. Some witness_span) empty_world = (Inr lo, w')
    \<and> (\<exists>i mr. lo_lease lo = Some i \<and> cache_ok (add_mset i {#}) w'
      \<and> arc_value (w_regs w') i = Some mr \<and> lo_descriptor lo = fi_mr_desc loopback mr
      \<and> covers (w_log w') 1 mr 5000 64)"
proof -
  obtain lo w' where run: "operand_of loopback 1 5000 64 (\<lambda>_. Some witness_span) empty_world = (Inr lo, w')"
    by (simp add: witness_eval)
  show ?thesis
    using operand_leases_a_covering_region [OF cache_ok_empty run] run by blast
qed

text \<open>
  A cached registration costs no \<open>fi_mr_reg\<close>: when an entry of the domain covers the operand,
  no call at all is made, the registry is unchanged, and the closure for the span is not asked.
\<close>

theorem operand_hit_registers_nothing:
  assumes "checked_add pointer len = Some end"
    and "covering_entry pointer end domain (w_registry w) = Some i"
  shows "\<exists>lo w'. (\<forall>cacheable. operand_of F domain pointer len cacheable w = (Inr lo, w'))
    \<and> lo_lease lo = Some i \<and> w_log w' = w_log w \<and> w_registry w' = w_registry w"
  using assms by (auto simp: operand_of_def covering_def)

theorem operand_hit_registers_nothing_witness:
  "\<exists>lo w'. (\<forall>cacheable. operand_of loopback 1 5000 64 cacheable
        (track 4096 8192 1 0 witness_world) = (Inr lo, w'))
    \<and> lo_lease lo = Some 0 \<and> w_log w' = w_log (track 4096 8192 1 0 witness_world)
    \<and> w_registry w' = w_registry (track 4096 8192 1 0 witness_world)"
  by (rule operand_hit_registers_nothing [of _ _ 5064])
    (simp_all add: checked_add_def registry_track witness_world_def registration_new_def arc_new_def
      log_call_def empty_world_def no_arcs_def covering_entry_def bt_last_le_def)

text \<open>
  Memory the caller made no promise about never stays registered: when no offered span
  contains the operand, a miss leaves the registry as it was, so nothing but the operand's own
  lease holds the new region, and dropping that lease closes it.
\<close>

theorem unpromised_operand_is_closed_with_its_lease:
  assumes "cache_ok leases w"
    and "operand_of F domain pointer len cacheable w = (Inr lo, w')"
    and "covering_entry pointer (pointer + len) domain (w_registry w) = None"
    and "\<forall>s. cacheable (w_log w) = Some s \<longrightarrow> \<not> span_contains s pointer (pointer + len)"
  shows "w_registry w' = w_registry w
    \<and> (\<exists>i mr. lo_lease lo = Some i \<and> w_log w' = MrReg domain pointer len 0 mr # w_log w
        \<and> w_log (registration_drop i w') = MrClose mr # w_log w')"
proof -
  let ?reg = "register_region F domain pointer len w"
  obtain "end" where "end": "checked_add pointer len = Some end" "end = pointer + len"
    using assms(2) by (auto simp: operand_of_def checked_add_def split: option.splits if_splits)
  have span: "(case cacheable (w_log w) of None \<Rightarrow> None
      | Some s \<Rightarrow> if span_contains s pointer (pointer + len) then Some s else None) = None"
    using assms(4) by (auto split: option.splits)
  have cov: "covering pointer (pointer + len) domain w = (None, w)"
    using assms(3) by (simp add: covering_def)
  obtain r w1 where reg: "?reg = (r, w1)" by (cases ?reg)
  then show ?thesis
  proof (cases rule: register_region_cases)
    case (failed code mr e)
    then show ?thesis using assms(2) "end" cov reg
      by (simp add: operand_of_def widened_register_def span)
  next
    case (registered mr)
    have fresh: "map_of (cells (w_regs w)) (next_arc (w_regs w)) = None"
      using assms(1) by (intro arcs_wf_fresh) auto
    show ?thesis
      using assms(2) "end" cov reg registered
      by (auto simp: operand_of_def widened_register_def span Let_def registration_new_def
          arc_new_def log_call_def registration_drop_def arc_drop_def)
  qed
qed

theorem unpromised_operand_is_closed_with_its_lease_witness:
  "\<exists>lo w'. operand_of loopback 1 5000 64 (\<lambda>_. None) empty_world = (Inr lo, w')
    \<and> w_registry w' = w_registry empty_world
    \<and> (\<exists>i mr. lo_lease lo = Some i \<and> w_log w' = MrReg 1 5000 64 0 mr # w_log empty_world
        \<and> w_log (registration_drop i w') = MrClose mr # w_log w')"
proof -
  obtain lo w' where run: "operand_of loopback 1 5000 64 (\<lambda>_. None) empty_world = (Inr lo, w')"
    by (simp add: witness_eval)
  show ?thesis
    using unpromised_operand_is_closed_with_its_lease [OF cache_ok_empty run] run
    by (simp add: covering_entry_def empty_world_def)
qed

text \<open>
  Pinned memory serves its operands: after a \<open>pin\<close> that succeeded, an operand inside the span
  is found in the cache, unless another entry of the domain starts between the span's base and
  the operand. (The lookup takes the nearest entry below the operand, so such an entry hides the
  pinned span from every operand that reaches past it.)
\<close>

theorem pinned_region_serves_operands:
  assumes "registry_ok w"
    and "pin F domain base len w = (Inr (), w')"
    and "base \<le> start" and "start \<le> end" and "end \<le> base + len"
    and "\<forall>b e. entry_at (w_registry w) domain b = Some e \<longrightarrow> b \<le> base \<or> start < b"
  shows "\<exists>i. covering_entry start end domain (w_registry w') = Some i"
proof -
  obtain limit where limit: "checked_add base len = Some limit" "limit = base + len"
    using assms(2) by (auto simp: pin_def checked_add_def split: option.splits if_splits)
  obtain mr w1 where reg: "register_region F domain base len w = (Inr mr, w1)"
    using assms(2) limit by (auto simp: pin_def split: prod.splits sum.splits)
  then have w1: "w_registry w1 = w_registry w" by (cases rule: register_region_cases) auto
  obtain i w2 where new: "registration_new mr w1 = (i, w2)" by (cases "registration_new mr w1")
  then have "w_registry w2 = w_registry w"
    using w1 by (auto simp: registration_new_def split_def Let_def)
  then have reg': "w_registry w' = domain_regions_upd domain
      (bt_insert base \<lparr>re_end = limit, re_registration = i\<rparr>) (w_registry w)"
    using assms(2) limit(1) reg new by (auto simp: pin_def registry_track)
  have wf: "registry_wf (w_registry w)" using assms(1) by (simp add: registry_ok_def)
  have "covering_entry start end domain (w_registry w') = Some i"
    unfolding reg'
    by (subst covering_entry_iff [OF registry_wf_track [OF wf]])
      (use assms limit in \<open>auto simp: entry_at_track [OF wf] intro!: exI [of _ base]
        dest: order.strict_trans2\<close>)
  then show ?thesis by blast
qed

theorem pinned_region_serves_operands_witness:
  "\<exists>w'. pin loopback 1 4096 4096 empty_world = (Inr (), w')
    \<and> (\<exists>i. covering_entry 5000 5064 1 (w_registry w') = Some i)"
proof -
  obtain w' where run: "pin loopback 1 4096 4096 empty_world = (Inr (), w')"
    by (simp add: witness_eval pin_def)
  show ?thesis
    using pinned_region_serves_operands [OF _ run, of 5000 5064] run
    by (simp add: registry_ok_def empty_world_def entry_at_def bt_get_def)
qed

text \<open>
  C30. Dropping the last clone of a \<open>MemoryRegion\<close> retires its registrations before the storage is
  handed back to be freed: no lookup of any domain overlapping the span succeeds from then on.
  While another clone lives, nothing is retired and the storage is not freed.
\<close>

theorem last_memory_region_retires_before_freeing:
  assumes "registry_ok w" and "arcs_wf h" and "arc_value h i = Some r"
    and "rg_base r < rg_end r"
  shows "case memory_region_drop i h w of (freed, h', w') \<Rightarrow>
    (if strong_count h i = 1
     then freed = Some (rg_storage r) \<and> arc_value h' i = None
       \<and> (\<forall>start end domain. start < rg_end r \<longrightarrow> rg_base r < end \<longrightarrow> start < end \<longrightarrow>
            covering_entry start end domain (w_registry w') = None)
     else freed = None \<and> arc_value h' i = Some r \<and> w' = w)"
proof -
  obtain n where n: "map_of (cells h) i = Some (r, n)" using assms(3) by (auto simp: arc_value_def)
  then have pos: "0 < n" using arcs_wf_lookup [OF assms(2) n] by simp
  show ?thesis
  proof (cases "n = 1")
    case True
    then show ?thesis
      using n rc.find_reclaim [OF assms(1), of _ "rg_end r" "rg_base r"] assms(4)
      by (auto simp: memory_region_drop_def arc_drop_def strong_count_def region_drop_def
          arc_value_def delete_conv' lookup_region_def)
  next
    case False
    then show ?thesis
      using n pos by (auto simp: memory_region_drop_def arc_drop_def strong_count_def arc_value_def
          update_conv')
  qed
qed

theorem last_memory_region_retires_before_freeing_witness:
  "case memory_region_drop 0 (snd (memory_region_new () 4096 8192 no_arcs)) empty_world of
     (freed, h', w') \<Rightarrow> freed = Some () \<and> arc_value h' 0 = None
       \<and> covering_entry 5000 5064 1 (w_registry w') = None"
proof -
  let ?r = "\<lparr>rg_storage = (), rg_base = 4096, rg_end = 8192\<rparr>"
  let ?h = "snd (memory_region_new () 4096 8192 no_arcs)"
  have "registry_ok empty_world" by (simp add: registry_ok_def empty_world_def)
  moreover have "arcs_wf ?h" unfolding memory_region_new_def by simp
  moreover have "arc_value ?h 0 = Some ?r" "strong_count ?h 0 = 1"
    by (simp_all add: memory_region_new_def arc_new_def no_arcs_def arc_value_def strong_count_def)
  ultimately show ?thesis
    using last_memory_region_retires_before_freeing [of empty_world ?h 0 ?r]
    by (auto split: prod.splits)
qed

end
