(* ===== verification/Peer_Addresses.thy ===== *)
theory Peer_Addresses
  imports Local_Regions
begin

text \<open>
  \<open>peer_addresses.rs\<close>: the entries an endpoint keeps in its address vector. \<open>RegisteredAddress\<close> is
  a cell of an \<open>Arc\<close> heap whose value is the \<open>fi_addr_t\<close>; its \<open>Drop\<close> is \<open>fi_av_remove\<close>, recorded
  in the log (the code only warns when that call fails). The index \<open>by_address\<close> is keyed by the
  bytes that identify an endpoint slot and holds the advertised bytes and a \<open>Weak\<close>; \<open>by_client\<close>
  holds the owning clones. The lemmas show that entries are counted exactly, that one slot has at
  most one live entry, that a recycled slot evicts its stale clients, and that the index of dead
  entries stays bounded.
\<close>

section \<open>Addresses\<close>

definition MINIMUM_SWEEP :: nat where "MINIMUM_SWEEP = 64"
definition EFA_ADDRESS_LEN :: nat where "EFA_ADDRESS_LEN = 32"
definition EFA_IDENTITY_LEN :: nat where "EFA_IDENTITY_LEN = 18"

datatype address_format = Efa | Opaque

definition from_fi :: "fabric \<Rightarrow> u32 \<Rightarrow> address_format" where
  "from_fi F addr_format = (if FI_ADDR_EFA F = addr_format then Efa else Opaque)"

fun identity_len :: "address_format \<Rightarrow> u8 list \<Rightarrow> (dma_error, nat) result" where
  "identity_len Efa bytes =
     (if EFA_ADDRESS_LEN \<noteq> length bytes
      then Inl (Fabric (''efa address is '' @ show_nat (length bytes) @ '' bytes, not ''
        @ show_nat EFA_ADDRESS_LEN))
      else Inr EFA_IDENTITY_LEN)"
| "identity_len Opaque bytes = Inr (length bytes)"

text \<open>A \<open>PeerAddress\<close>; as a key it is compared and hashed by its identity alone.\<close>

record peer_address =
  pr_bytes :: "u8 list"
  pr_identity_len :: nat

definition peer_address_new :: "address_format \<Rightarrow> u8 list \<Rightarrow> (dma_error, peer_address) result" where
  "peer_address_new format bytes =
     (case identity_len format bytes of
        Inl e \<Rightarrow> Inl e
      | Inr n \<Rightarrow> Inr \<lparr>pr_bytes = bytes, pr_identity_len = n\<rparr>)"

definition pr_identity :: "peer_address \<Rightarrow> u8 list" where
  "pr_identity a = take (pr_identity_len a) (pr_bytes a)"

section \<open>State\<close>

text \<open>
  \<open>pa_by_address\<close> maps an identity to the stored key and the weak reference. \<open>pa_arcs\<close> is the heap
  of \<open>RegisteredAddress\<close> cells.
\<close>

record peers =
  pa_format :: address_format
  pa_by_address :: "(u8 list \<times> (peer_address \<times> arc_id)) list"
  pa_by_client :: "(u64 \<times> arc_id) list"
  pa_sweep_at :: nat
  pa_arcs :: "fi_addr arcs"

definition peers_new :: "address_format \<Rightarrow> peers" where
  "peers_new format = \<lparr>pa_format = format, pa_by_address = [], pa_by_client = [],
     pa_sweep_at = MINIMUM_SWEEP, pa_arcs = no_arcs\<rparr>"

definition registered_clone :: "arc_id \<Rightarrow> peers \<Rightarrow> peers" where
  "registered_clone i p = p\<lparr>pa_arcs := arc_clone i (pa_arcs p)\<rparr>"

text \<open>Dropping one \<open>Arc\<close>; the last one runs \<open>RegisteredAddress::drop\<close>.\<close>

definition registered_drop :: "arc_id \<Rightarrow> peers \<Rightarrow> world \<Rightarrow> peers \<times> world" where
  "registered_drop i p w =
     (case arc_drop i (pa_arcs p) of
        (None, h) \<Rightarrow> (p\<lparr>pa_arcs := h\<rparr>, w)
      | (Some peer, h) \<Rightarrow> (p\<lparr>pa_arcs := h\<rparr>, log_call (AvRemove peer) w))"

fun registered_drop_all :: "arc_id list \<Rightarrow> peers \<Rightarrow> world \<Rightarrow> peers \<times> world" where
  "registered_drop_all [] p w = (p, w)"
| "registered_drop_all (i # is) p w =
     (let (p', w') = registered_drop i p w in registered_drop_all is p' w')"

section \<open>Operations\<close>

text \<open>\<open>by_client.insert\<close> and \<open>by_client.remove\<close>, with the drop of the value they return.\<close>

definition by_client_insert :: "u64 \<Rightarrow> arc_id \<Rightarrow> peers \<Rightarrow> world \<Rightarrow> peers \<times> world" where
  "by_client_insert client i p w =
     (let p' = p\<lparr>pa_by_client := AList.update client i (pa_by_client p)\<rparr>
      in case map_of (pa_by_client p) client of
           None \<Rightarrow> (p', w)
         | Some old \<Rightarrow> registered_drop old p' w)"

definition by_client_remove :: "u64 \<Rightarrow> peers \<Rightarrow> world \<Rightarrow> peers \<times> world" where
  "by_client_remove client p w =
     (case map_of (pa_by_client p) client of
        None \<Rightarrow> (p, w)
      | Some old \<Rightarrow>
          registered_drop old (p\<lparr>pa_by_client := AList.delete client (pa_by_client p)\<rparr>) w)"

text \<open>\<open>by_client.retain(|_, held| !Arc::ptr_eq(held, &stale))\<close>: each entry retained out is dropped.\<close>

definition evict :: "arc_id \<Rightarrow> peers \<Rightarrow> world \<Rightarrow> peers \<times> world" where
  "evict stale p w =
     registered_drop_all (filter (\<lambda>i. i = stale) (hm_values (pa_by_client p)))
       (p\<lparr>pa_by_client := hm_retain (\<lambda>i. i \<noteq> stale) (pa_by_client p)\<rparr>) w"

definition insert_address :: "fabric \<Rightarrow> u8 list \<Rightarrow> world \<Rightarrow> (dma_error, fi_addr) result \<times> world" where
  "insert_address F address w =
     (let (inserted, peer) = fi_av_insert F (w_log w) address;
          w' = log_call (AvInsert address inserted peer) w
      in (if 1 \<noteq> inserted
          then Inl (Fabric (''fi_av_insert inserted '' @ show_int inserted @ '' of 1 addresses''))
          else Inr peer, w'))"

definition sweep :: "peers \<Rightarrow> peers" where
  "sweep p =
     (if hm_len (pa_by_address p) < pa_sweep_at p then p
      else (let kept = hm_retain (\<lambda>(_, weak). 0 < strong_count (pa_arcs p) weak) (pa_by_address p)
            in p\<lparr>pa_by_address := kept, pa_sweep_at := max MINIMUM_SWEEP (hm_len kept * 2)\<rparr>))"

text \<open>The lookup of \<open>handle\<close>: an upgraded entry and whether its bytes are the advertised ones.\<close>

definition held_entry :: "u8 list \<Rightarrow> u8 list \<Rightarrow> peers \<Rightarrow> (bool \<times> arc_id) option \<times> peers" where
  "held_entry identity address p =
     (case map_of (pa_by_address p) identity of
        None \<Rightarrow> (None, p)
      | Some (known, weak) \<Rightarrow>
          (case arc_upgrade weak (pa_arcs p) of
             (None, h) \<Rightarrow> (None, p\<lparr>pa_arcs := h\<rparr>)
           | (Some entry, h) \<Rightarrow> (Some (pr_bytes known = address, entry), p\<lparr>pa_arcs := h\<rparr>)))"

text \<open>The part of \<open>handle\<close> after the match: a new entry for the address.\<close>

definition handle_new ::
  "fabric \<Rightarrow> u64 \<Rightarrow> u8 list \<Rightarrow> u8 list \<Rightarrow> peers \<Rightarrow> world
    \<Rightarrow> (dma_error, arc_id) result \<times> peers \<times> world" where
  "handle_new F client identity address p w =
     (let (p1, w1) = by_client_remove client p w;
          p2 = p1\<lparr>pa_by_address := AList.delete identity (pa_by_address p1)\<rparr>
      in case peer_address_new (pa_format p2) address of
           Inl e \<Rightarrow> (Inl e, p2, w1)
         | Inr key \<Rightarrow>
             (case insert_address F (pr_bytes key) w1 of
                (Inl e, w2) \<Rightarrow> (Inl e, p2, w2)
              | (Inr peer, w2) \<Rightarrow>
                  (let (entry, h) = arc_new peer (pa_arcs p2);
                       p3 = sweep (p2\<lparr>pa_arcs := h\<rparr>);
                       p4 = p3\<lparr>pa_by_address :=
                                AList.update (pr_identity key) (key, entry) (pa_by_address p3)\<rparr>;
                       (p5, w3) = by_client_insert client entry (registered_clone entry p4) w2
                   in (Inr entry, p5, w3))))"

definition handle ::
  "fabric \<Rightarrow> u64 \<Rightarrow> u8 list \<Rightarrow> peers \<Rightarrow> world
    \<Rightarrow> (dma_error, arc_id) result \<times> peers \<times> world" where
  "handle F client address p w =
     (case identity_len (pa_format p) address of
        Inl e \<Rightarrow> (Inl e, p, w)
      | Inr n \<Rightarrow>
          (let identity = take n address
           in case held_entry identity address p of
                (Some (True, entry), p1) \<Rightarrow>
                  (let (p2, w2) = by_client_insert client entry (registered_clone entry p1) w
                   in (Inr entry, p2, w2))
              | (Some (False, stale), p1) \<Rightarrow>
                  (let (p2, w2) = evict stale p1 w;
                       (p3, w3) = registered_drop stale p2 w2
                   in handle_new F client identity address p3 w3)
              | (None, p1) \<Rightarrow> handle_new F client identity address p1 w))"

definition release :: "u64 \<Rightarrow> peers \<Rightarrow> world \<Rightarrow> peers \<times> world" where
  "release client p w = by_client_remove client p w"

definition clear_peers :: "peers \<Rightarrow> world \<Rightarrow> peers \<times> world" where
  "clear_peers p w =
     (let (p', w') = registered_drop_all (hm_values (pa_by_client p)) (p\<lparr>pa_by_client := []\<rparr>) w
      in (p'\<lparr>pa_by_address := []\<rparr>, w'))"

section \<open>The invariant\<close>

text \<open>
  \<open>held\<close> are the clones outside the table (a post holds one while it runs). Counts are exact, both
  maps are well-formed, every key of the index is the identity of the address stored with it, and
  no two index entries name the same cell.
\<close>

definition key_ok :: "address_format \<Rightarrow> u8 list \<Rightarrow> peer_address \<Rightarrow> bool" where
  "key_ok format identity key \<longleftrightarrow>
     identity_len format (pr_bytes key) = Inr (pr_identity_len key) \<and> identity = pr_identity key"

definition index_ok :: "peers \<Rightarrow> bool" where
  "index_ok p \<longleftrightarrow> hm_wf (pa_by_address p)
     \<and> (\<forall>(identity, key, weak) \<in> set (pa_by_address p).
          key_ok (pa_format p) identity key \<and> weak < next_arc (pa_arcs p))
     \<and> distinct (map (snd \<circ> snd) (pa_by_address p))"

definition client_refs :: "peers \<Rightarrow> arc_id multiset" where
  "client_refs p = mset (hm_values (pa_by_client p))"

definition peers_inv :: "arc_id multiset \<Rightarrow> peers \<Rightarrow> bool" where
  "peers_inv held p \<longleftrightarrow> hm_wf (pa_by_client p) \<and> index_ok p
     \<and> balanced (pa_arcs p) (count (client_refs p + held))"

text \<open>Every live entry can be found: it is in the index. True while no clone is held outside.\<close>

definition indexed :: "peers \<Rightarrow> bool" where
  "indexed p \<longleftrightarrow> (\<forall>i. 0 < strong_count (pa_arcs p) i \<longrightarrow>
     (\<exists>x \<in> set (pa_by_address p). snd (snd x) = i))"

text \<open>Entries inserted into and removed from the address vector, according to the log.\<close>

fun av_inserted :: "log \<Rightarrow> fi_addr multiset" where
  "av_inserted [] = {#}"
| "av_inserted (AvInsert _ n peer # l) =
     (if n = 1 then add_mset peer (av_inserted l) else av_inserted l)"
| "av_inserted (_ # l) = av_inserted l"

fun av_removed :: "log \<Rightarrow> fi_addr multiset" where
  "av_removed [] = {#}"
| "av_removed (AvRemove peer # l) = add_mset peer (av_removed l)"
| "av_removed (_ # l) = av_removed l"

definition av_accounted :: "peers \<Rightarrow> world \<Rightarrow> bool" where
  "av_accounted p w \<longleftrightarrow> av_inserted (w_log w) = av_removed (w_log w) + arc_live (pa_arcs p)"

section \<open>Ownership moves between the table and its users\<close>

lemma values_update:
  "hm_wf m \<Longrightarrow> mset (hm_values (AList.update k v m)) + opt_mset (map_of m k)
     = add_mset v (mset (hm_values m))"
  by (induction m) (auto simp: hm_values_def hm_wf_def)

lemma values_delete:
  "hm_wf m \<Longrightarrow> mset (hm_values (AList.delete k m)) + opt_mset (map_of m k) = mset (hm_values m)"
proof (induction m)
  case (Cons kv m)
  then show ?case
    using mset_delete_absent [of "fst kv" m]
    by (cases kv) (auto simp: hm_values_def hm_wf_def image_mset.compositionality [symmetric]
        simp flip: mset_map)
qed (simp add: hm_values_def)

lemma values_retain:
  "mset (hm_values (hm_retain P m)) + mset (filter (\<lambda>v. \<not> P v) (hm_values m)) = mset (hm_values m)"
  by (induction m) (auto simp: hm_values_def hm_retain_def)

lemma peers_inv_arcs [dest]: "peers_inv H p \<Longrightarrow> arcs_wf (pa_arcs p)"
  by (auto simp: peers_inv_def)

lemma peers_inv_count:
  "peers_inv H p \<Longrightarrow> strong_count (pa_arcs p) i = count (client_refs p + H) i"
  by (simp add: peers_inv_def balanced_def)

lemma index_ok_arcs:
  "index_ok p \<Longrightarrow> next_arc (pa_arcs p) \<le> next_arc h \<Longrightarrow> index_ok (p\<lparr>pa_arcs := h\<rparr>)"
  by (fastforce simp: index_ok_def)

lemma client_refs_arcs [simp]: "client_refs (p\<lparr>pa_arcs := h\<rparr>) = client_refs p"
  by (simp add: client_refs_def)

lemma client_refs_index [simp]: "client_refs (p\<lparr>pa_by_address := a\<rparr>) = client_refs p"
  by (simp add: client_refs_def)

lemma peers_invI:
  "hm_wf (pa_by_client p) \<Longrightarrow> index_ok p \<Longrightarrow> arcs_wf (pa_arcs p) \<Longrightarrow>
     (\<And>i. strong_count (pa_arcs p) i = count (client_refs p + H) i) \<Longrightarrow> peers_inv H p"
  by (simp add: peers_inv_def balanced_def)

lemma peers_inv_clone:
  assumes "peers_inv H p" "i \<in># client_refs p + H"
  shows "peers_inv (add_mset i H) (registered_clone i p)"
proof (rule peers_invI)
  fix j
  have "0 < strong_count (pa_arcs p) i" using assms by (simp add: peers_inv_count)
  then show "strong_count (pa_arcs (registered_clone i p)) j =
      count (client_refs (registered_clone i p) + add_mset i H) j"
    using peers_inv_count [OF assms(1), of j]
    by (auto simp: registered_clone_def strong_count_clone [OF peers_inv_arcs [OF assms(1)]])
qed (use assms in \<open>auto simp: registered_clone_def peers_inv_def intro: index_ok_arcs\<close>)

lemma registered_drop_fst: "fst (registered_drop i p w) = p\<lparr>pa_arcs := snd (arc_drop i (pa_arcs p))\<rparr>"
  by (simp add: registered_drop_def split: prod.splits option.splits)

lemma peers_inv_drop:
  assumes "peers_inv (add_mset i H) p"
  shows "peers_inv H (fst (registered_drop i p w))"
proof (rule peers_invI)
  fix j
  show "strong_count (pa_arcs (fst (registered_drop i p w))) j =
      count (client_refs (fst (registered_drop i p w)) + H) j"
    using peers_inv_count [OF assms, of j]
    by (auto simp: registered_drop_fst strong_count_drop [OF peers_inv_arcs [OF assms]])
qed (use assms in \<open>auto simp: registered_drop_fst peers_inv_def intro: index_ok_arcs\<close>)

lemma peers_inv_drop_all:
  "peers_inv (mset is + H) p \<Longrightarrow> peers_inv H (fst (registered_drop_all is p w))"
proof (induction "is" arbitrary: p w)
  case (Cons i "is")
  then have "peers_inv (mset is + H) (fst (registered_drop i p w))"
    by (intro peers_inv_drop) simp
  then show ?case using Cons.IH by (simp add: split_def Let_def)
qed simp

lemma peers_inv_move:
  assumes "peers_inv H p" "hm_wf m" "client_refs p + H = mset (hm_values m) + H'"
  shows "peers_inv H' (p\<lparr>pa_by_client := m\<rparr>)"
  using assms by (auto simp: peers_inv_def client_refs_def index_ok_def)

lemma peers_inv_by_client_insert:
  assumes "peers_inv (add_mset i H) p"
  shows "peers_inv H (fst (by_client_insert client i p w))"
proof -
  have wf: "hm_wf (pa_by_client p)" using assms by (simp add: peers_inv_def)
  let ?m = "AList.update client i (pa_by_client p)"
  have "peers_inv (opt_mset (map_of (pa_by_client p) client) + H) (p\<lparr>pa_by_client := ?m\<rparr>)"
    by (rule peers_inv_move [OF assms hm_wf_update [OF wf]])
      (use values_update [OF wf, of client i] in \<open>simp add: client_refs_def ac_simps\<close>)
  then show ?thesis
    by (auto simp: by_client_insert_def Let_def intro: peers_inv_drop split: option.splits)
qed

lemma peers_inv_by_client_remove:
  assumes "peers_inv H p"
  shows "peers_inv H (fst (by_client_remove client p w))"
proof -
  have wf: "hm_wf (pa_by_client p)" using assms by (simp add: peers_inv_def)
  let ?m = "AList.delete client (pa_by_client p)"
  have "peers_inv (opt_mset (map_of (pa_by_client p) client) + H) (p\<lparr>pa_by_client := ?m\<rparr>)"
    by (rule peers_inv_move [OF assms hm_wf_delete [OF wf]])
      (use values_delete [OF wf, of client] in \<open>simp add: client_refs_def ac_simps\<close>)
  then show ?thesis
    using assms by (auto simp: by_client_remove_def intro: peers_inv_drop split: option.splits)
qed

lemma peers_inv_evict:
  assumes "peers_inv H p"
  shows "peers_inv H (fst (evict stale p w))"
proof -
  have wf: "hm_wf (pa_by_client p)" using assms by (simp add: peers_inv_def)
  show ?thesis
    unfolding evict_def
    by (intro peers_inv_drop_all peers_inv_move [OF assms hm_wf_retain [OF wf]])
      (use values_retain [of "\<lambda>i. i \<noteq> stale" "pa_by_client p"] in \<open>simp add: client_refs_def ac_simps\<close>)
qed

lemma index_ok_retain:
  "index_ok p \<Longrightarrow> index_ok (p\<lparr>pa_by_address := hm_retain P (pa_by_address p), pa_sweep_at := n\<rparr>)"
  using hm_wf_retain [of "pa_by_address p" P]
  by (auto simp: index_ok_def hm_retain_def intro: distinct_map_filter)

lemma index_ok_delete:
  "index_ok p \<Longrightarrow> index_ok (p\<lparr>pa_by_address := AList.delete k (pa_by_address p)\<rparr>)"
  using hm_wf_delete [of "pa_by_address p" k]
  by (auto simp: index_ok_def AList.delete_eq intro: distinct_map_filter)

lemma peers_inv_index:
  "peers_inv H p \<Longrightarrow> index_ok (p\<lparr>pa_by_address := a, pa_sweep_at := n\<rparr>) \<Longrightarrow>
     peers_inv H (p\<lparr>pa_by_address := a, pa_sweep_at := n\<rparr>)"
  by (simp add: peers_inv_def client_refs_def)

lemma peers_inv_sweep: "peers_inv H p \<Longrightarrow> peers_inv H (sweep p)"
  by (auto simp: sweep_def Let_def peers_inv_def client_refs_def intro: index_ok_retain)

lemma peers_inv_held_entry:
  assumes "peers_inv H p" "held_entry identity address p = (res, p')"
  shows "peers_inv (opt_mset (map_option snd res) + H) p'"
proof (cases "map_of (pa_by_address p) identity")
  case None
  then show ?thesis using assms by (auto simp: held_entry_def)
next
  case (Some kw)
  obtain known weak where kw: "kw = (known, weak)" by (cases kw)
  show ?thesis
  proof (cases "0 < strong_count (pa_arcs p) weak")
    case True
    then have "weak \<in># client_refs p + H" by (simp add: peers_inv_count [OF assms(1)])
    from peers_inv_clone [OF assms(1) this] show ?thesis
      using assms(2) Some kw True
      by (auto simp: held_entry_def arc_upgrade_def registered_clone_def)
  next
    case False
    then show ?thesis using assms Some kw by (auto simp: held_entry_def arc_upgrade_def)
  qed
qed

section \<open>Entries of the address vector are accounted for\<close>

definition peers_ok :: "arc_id multiset \<Rightarrow> peers \<Rightarrow> world \<Rightarrow> bool" where
  "peers_ok held p w \<longleftrightarrow> peers_inv held p \<and> av_accounted p w"

lemma peers_ok_inv [dest]: "peers_ok H p w \<Longrightarrow> peers_inv H p"
  by (simp add: peers_ok_def)

lemma av_drop:
  assumes "arcs_wf (pa_arcs p)" "av_accounted p w" "registered_drop i p w = (p', w')"
  shows "av_accounted p' w'"
  using arc_live_drop [OF assms(1), of i] assms(2,3)
  by (auto simp: av_accounted_def registered_drop_def log_call_def split: prod.splits option.splits)

lemma peers_ok_drop:
  "peers_ok (add_mset i H) p w \<Longrightarrow> registered_drop i p w = (p', w') \<Longrightarrow> peers_ok H p' w'"
  using peers_inv_drop [of i H p w] av_drop [of p w i p' w'] by (auto simp: peers_ok_def)

lemma peers_ok_drop_all:
  "peers_ok (mset is + H) p w \<Longrightarrow> registered_drop_all is p w = (p', w') \<Longrightarrow> peers_ok H p' w'"
proof (induction "is" arbitrary: p w)
  case (Cons i "is")
  obtain p1 w1 where one: "registered_drop i p w = (p1, w1)" by (cases "registered_drop i p w")
  then have "peers_ok (mset is + H) p1 w1" using peers_ok_drop [OF _ one] Cons.prems(1) by simp
  then show ?case using Cons one by simp
qed simp

lemma peers_ok_clone:
  "peers_ok H p w \<Longrightarrow> i \<in># client_refs p + H \<Longrightarrow> peers_ok (add_mset i H) (registered_clone i p) w"
  using peers_inv_clone [of H p i] peers_inv_arcs [of H p]
  by (auto simp: peers_ok_def av_accounted_def registered_clone_def arc_live_clone)

lemma av_accounted_tables [simp]:
  "av_accounted (p\<lparr>pa_by_client := m\<rparr>) w = av_accounted p w"
  "av_accounted (p\<lparr>pa_by_address := a\<rparr>) w = av_accounted p w"
  "av_accounted (p\<lparr>pa_by_address := a, pa_sweep_at := n\<rparr>) w = av_accounted p w"
  by (simp_all add: av_accounted_def)

lemma peers_ok_by_client_insert:
  assumes ok: "peers_ok (add_mset i H) p w" and run: "by_client_insert client i p w = (p', w')"
  shows "peers_ok H p' w'"
proof -
  have "peers_inv H p'" using peers_inv_by_client_insert [of i H p client w] ok run by auto
  moreover have "av_accounted p' w'"
    using ok run peers_inv_arcs [of "add_mset i H" p]
      av_drop [of "p\<lparr>pa_by_client := AList.update client i (pa_by_client p)\<rparr>" w _ p' w']
    by (auto simp: peers_ok_def by_client_insert_def Let_def split: option.splits)
  ultimately show ?thesis by (simp add: peers_ok_def)
qed

lemma peers_ok_by_client_remove:
  assumes ok: "peers_ok H p w" and run: "by_client_remove client p w = (p', w')"
  shows "peers_ok H p' w'"
proof -
  have "peers_inv H p'" using peers_inv_by_client_remove [of H p client w] ok run by auto
  moreover have "av_accounted p' w'"
    using ok run peers_inv_arcs [of H p]
      av_drop [of "p\<lparr>pa_by_client := AList.delete client (pa_by_client p)\<rparr>" w _ p' w']
    by (auto simp: peers_ok_def by_client_remove_def split: option.splits)
  ultimately show ?thesis by (simp add: peers_ok_def)
qed

lemma av_drop_all:
  "arcs_wf (pa_arcs p) \<Longrightarrow> av_accounted p w \<Longrightarrow> registered_drop_all is p w = (p', w') \<Longrightarrow>
     av_accounted p' w'"
proof (induction "is" arbitrary: p w)
  case (Cons i "is")
  obtain p1 w1 where one: "registered_drop i p w = (p1, w1)" by (cases "registered_drop i p w")
  then have "arcs_wf (pa_arcs p1)"
    using Cons.prems(1) registered_drop_fst [of i p w] by simp
  then show ?case using Cons one av_drop [OF Cons.prems(1,2) one] by simp
qed simp

lemma peers_ok_evict:
  assumes ok: "peers_ok H p w" and run: "evict stale p w = (p', w')"
  shows "peers_ok H p' w'"
proof -
  have "peers_inv H p'" using peers_inv_evict [of H p stale w] ok run by auto
  moreover have "av_accounted p' w'"
    using ok run peers_inv_arcs [of H p]
      av_drop_all [of "p\<lparr>pa_by_client := hm_retain (\<lambda>i. i \<noteq> stale) (pa_by_client p)\<rparr>" w _ p' w']
    by (auto simp: peers_ok_def evict_def)
  ultimately show ?thesis by (simp add: peers_ok_def)
qed

lemma peers_ok_held_entry:
  assumes ok: "peers_ok H p w" and run: "held_entry identity address p = (res, p')"
  shows "peers_ok (opt_mset (map_option snd res) + H) p' w"
proof -
  have "arcs_wf (pa_arcs p)" using ok by auto
  then have "av_accounted p' w"
    using ok run by (auto simp: peers_ok_def held_entry_def arc_upgrade_def av_accounted_def
        arc_live_clone split: option.splits if_splits)
  then show ?thesis using peers_inv_held_entry [OF _ run, of H] ok by (auto simp: peers_ok_def)
qed

lemma peers_ok_log: "peers_ok H p w \<Longrightarrow> av_inserted [c] = {#} \<Longrightarrow> av_removed [c] = {#} \<Longrightarrow>
   peers_ok H p (log_call c w)"
  by (cases c) (auto simp: peers_ok_def av_accounted_def log_call_def split: if_splits)

section \<open>A new entry\<close>

lemma ids_update:
  "distinct (map (snd \<circ> snd) m) \<Longrightarrow> i \<notin> (snd \<circ> snd) ` set m \<Longrightarrow>
     distinct (map (snd \<circ> snd) (AList.update k (key, i) m))"
proof (induction m)
  case (Cons kv m)
  then show ?case by (cases kv) (auto dest!: set_update_le)
qed simp

lemma key_ok_new: "peer_address_new format bytes = Inr key \<Longrightarrow> key_ok format (pr_identity key) key"
  by (auto simp: peer_address_new_def key_ok_def split: sum.splits)

lemma index_ok_add:
  assumes "index_ok p" "key_ok (pa_format p) (pr_identity key) key"
    and "i < next_arc (pa_arcs p)" "i \<notin> (snd \<circ> snd) ` set (pa_by_address p)"
  shows "index_ok (p\<lparr>pa_by_address := AList.update (pr_identity key) (key, i) (pa_by_address p)\<rparr>)"
  using assms ids_update [of "pa_by_address p" i "pr_identity key" key]
  by (auto simp: index_ok_def dest!: set_update_le)

lemma sweep_fields [simp]:
  "pa_arcs (sweep p) = pa_arcs p" "pa_format (sweep p) = pa_format p"
  "pa_by_client (sweep p) = pa_by_client p" "client_refs (sweep p) = client_refs p"
  by (simp_all add: sweep_def Let_def client_refs_def)

lemma set_sweep: "set (pa_by_address (sweep p)) \<subseteq> set (pa_by_address p)"
  by (auto simp: sweep_def Let_def hm_retain_def)

lemma by_client_remove_fields [simp]:
  "pa_format (fst (by_client_remove client p w)) = pa_format p"
  "pa_by_address (fst (by_client_remove client p w)) = pa_by_address p"
  by (simp_all add: by_client_remove_def registered_drop_fst split: option.splits)

lemma by_client_insert_fields [simp]:
  "pa_format (fst (by_client_insert client i p w)) = pa_format p"
  "pa_by_address (fst (by_client_insert client i p w)) = pa_by_address p"
  "pa_by_client (fst (by_client_insert client i p w)) = AList.update client i (pa_by_client p)"
  by (simp_all add: by_client_insert_def registered_drop_fst Let_def split: option.splits)

lemma insert_address_cases:
  assumes "insert_address F address w = (res, w')"
  obtains (failed) n peer where "n \<noteq> 1" "w' = log_call (AvInsert address n peer) w"
      "res = Inl (Fabric (''fi_av_insert inserted '' @ show_int n @ '' of 1 addresses''))"
    | (inserted) peer where "res = Inr peer" "w' = log_call (AvInsert address 1 peer) w"
  using assms by (auto simp: insert_address_def Let_def split_def split: if_splits)

lemma next_arc_new: "next_arc (snd (arc_new v h)) = Suc (next_arc h)"
  by (simp add: arc_new_def)

lemma peers_ok_new:
  assumes ok: "peers_ok H p w" and new: "arc_new peer (pa_arcs p) = (i, h)"
  shows "peers_ok (add_mset i H) (p\<lparr>pa_arcs := h\<rparr>) (log_call (AvInsert address 1 peer) w)"
proof -
  have i: "i = next_arc (pa_arcs p)" and h: "h = snd (arc_new peer (pa_arcs p))"
    using new by (auto simp: arc_new_def)
  have inv: "peers_inv H p" using ok by auto
  then have "count (client_refs p + H) i = 0"
    using strong_count_bound [of "pa_arcs p" i] peers_inv_count [OF inv, of i] by (auto simp: i)
  then have "peers_inv (add_mset i H) (p\<lparr>pa_arcs := h\<rparr>)"
    using inv peers_inv_count [OF inv]
    by (intro peers_invI)
      (auto simp: h i arc_simps peers_inv_def next_arc_new intro!: index_ok_arcs)
  then show ?thesis
    using ok by (simp add: peers_ok_def av_accounted_def h arc_live_new log_call_def)
qed

lemma handle_new_ok:
  assumes ok: "peers_ok H p w"
    and run: "handle_new F client identity address p w = (res, p', w')"
  shows "peers_ok (case res of Inl _ \<Rightarrow> H | Inr i \<Rightarrow> add_mset i H) p' w'"
proof -
  obtain p1 w1 where rem: "by_client_remove client p w = (p1, w1)"
    by (cases "by_client_remove client p w")
  define p2 where "p2 = p1\<lparr>pa_by_address := AList.delete identity (pa_by_address p1)\<rparr>"
  have "peers_ok H p1 w1" by (rule peers_ok_by_client_remove [OF ok rem])
  then have ok2: "peers_ok H p2 w1"
    by (auto simp: peers_ok_def p2_def peers_inv_def intro: index_ok_delete)
  show ?thesis
  proof (cases "peer_address_new (pa_format p2) address")
    case (Inl e)
    then show ?thesis using run rem ok2 by (auto simp: handle_new_def p2_def Let_def)
  next
    case (Inr key)
    obtain r w2 where ins: "insert_address F (pr_bytes key) w1 = (r, w2)"
      by (cases "insert_address F (pr_bytes key) w1")
    then show ?thesis
    proof (cases rule: insert_address_cases)
      case (failed n peer)
      then show ?thesis
        using run rem ok2 Inr ins peers_ok_log [OF ok2, of "AvInsert (pr_bytes key) n peer"]
        by (auto simp: handle_new_def p2_def Let_def)
    next
      case (inserted peer)
      obtain i h where new: "arc_new peer (pa_arcs p2) = (i, h)" by (cases "arc_new peer (pa_arcs p2)")
      define p3 where "p3 = sweep (p2\<lparr>pa_arcs := h\<rparr>)"
      define p4 where
        "p4 = p3\<lparr>pa_by_address := AList.update (pr_identity key) (key, i) (pa_by_address p3)\<rparr>"
      have "peers_ok (add_mset i H) (p2\<lparr>pa_arcs := h\<rparr>) w2"
        using peers_ok_new [OF ok2 new] inserted by simp
      then have ok3: "peers_ok (add_mset i H) p3 w2"
        by (auto simp: peers_ok_def p3_def av_accounted_def intro: peers_inv_sweep)
      have i: "i = next_arc (pa_arcs p2)" "next_arc h = Suc i"
        using new by (auto simp: arc_new_def)
      have "i \<notin> (snd \<circ> snd) ` set (pa_by_address p2)"
        using ok2 by (fastforce simp: peers_ok_def peers_inv_def index_ok_def i)
      then have "i \<notin> (snd \<circ> snd) ` set (pa_by_address p3)"
        using set_sweep [of "p2\<lparr>pa_arcs := h\<rparr>"] by (auto simp: p3_def)
      then have "index_ok p4"
        unfolding p4_def using ok3 key_ok_new [OF Inr] i(2)
        by (intro index_ok_add) (auto simp: peers_ok_def peers_inv_def p3_def)
      then have ok4: "peers_ok (add_mset i H) p4 w2"
        using ok3 by (auto simp: peers_ok_def p4_def peers_inv_def)
      obtain p5 w3 where ins5: "by_client_insert client i (registered_clone i p4) w2 = (p5, w3)"
        by (cases "by_client_insert client i (registered_clone i p4) w2")
      have "peers_ok (add_mset i (add_mset i H)) (registered_clone i p4) w2"
        by (rule peers_ok_clone [OF ok4]) simp
      from peers_ok_by_client_insert [OF this ins5]
      have "peers_ok (add_mset i H) p5 w3" .
      moreover have "res = Inr i" "p' = p5" "w' = w3"
        using run rem Inr ins inserted new ins5 unfolding p4_def p3_def p2_def
        by (simp_all add: handle_new_def)
      ultimately show ?thesis by simp
    qed
  qed
qed

lemma handle_ok:
  assumes ok: "peers_ok H p w" and run: "handle F client address p w = (res, p', w')"
  shows "peers_ok (case res of Inl _ \<Rightarrow> H | Inr i \<Rightarrow> add_mset i H) p' w'"
proof (cases "identity_len (pa_format p) address")
  case (Inl e)
  then have "res = Inl e" "p' = p" "w' = w" using run by (simp_all add: handle_def)
  then show ?thesis using ok by simp
next
  case (Inr n)
  obtain held p1 where look: "held_entry (take n address) address p = (held, p1)"
    by (cases "held_entry (take n address) address p")
  note ok1 = peers_ok_held_entry [OF ok look]
  show ?thesis
  proof (cases held)
    case None
    then show ?thesis using ok1 run Inr look handle_new_ok [of H p1 w] by (simp add: handle_def)
  next
    case (Some be)
    then obtain b entry where held: "held = Some (b, entry)" by (cases be) auto
    show ?thesis
    proof (cases b)
      case True
      obtain p2 w2 where ins: "by_client_insert client entry (registered_clone entry p1) w = (p2, w2)"
        by (cases "by_client_insert client entry (registered_clone entry p1) w")
      have "peers_ok (add_mset entry (add_mset entry H)) (registered_clone entry p1) w"
        by (rule peers_ok_clone) (use ok1 held in auto)
      from peers_ok_by_client_insert [OF this ins] show ?thesis
        using run Inr look held True ins by (auto simp: handle_def)
    next
      case False
      obtain p2 w2 where ev: "evict entry p1 w = (p2, w2)" by (cases "evict entry p1 w")
      obtain p3 w3 where dr: "registered_drop entry p2 w2 = (p3, w3)"
        by (cases "registered_drop entry p2 w2")
      have "peers_ok (add_mset entry H) p2 w2"
        using peers_ok_evict [OF _ ev] ok1 held by simp
      from peers_ok_drop [OF this dr] have "peers_ok H p3 w3" .
      then show ?thesis
        using handle_new_ok [of H p3 w3] run Inr look held False ev dr by (simp add: handle_def)
    qed
  qed
qed

section \<open>What \<open>handle\<close> leaves in the tables\<close>

lemma registered_drop_tables [simp]:
  "pa_by_client (fst (registered_drop i p w)) = pa_by_client p"
  "pa_by_address (fst (registered_drop i p w)) = pa_by_address p"
  "pa_format (fst (registered_drop i p w)) = pa_format p"
  "pa_sweep_at (fst (registered_drop i p w)) = pa_sweep_at p"
  by (simp_all add: registered_drop_fst)

lemma registered_drop_all_tables [simp]:
  "pa_by_client (fst (registered_drop_all is p w)) = pa_by_client p"
  "pa_by_address (fst (registered_drop_all is p w)) = pa_by_address p"
  "pa_format (fst (registered_drop_all is p w)) = pa_format p"
  "pa_sweep_at (fst (registered_drop_all is p w)) = pa_sweep_at p"
  by (induction "is" arbitrary: p w) (simp_all add: Let_def split_def)

lemma by_client_remove_tables [simp]:
  "pa_by_client (fst (by_client_remove client p w)) = AList.delete client (pa_by_client p)"
  "pa_sweep_at (fst (by_client_remove client p w)) = pa_sweep_at p"
  by (auto simp: by_client_remove_def map_of_eq_None_iff delete_idem split: option.splits)

lemma evict_tables [simp]:
  "pa_by_client (fst (evict stale p w)) = hm_retain (\<lambda>i. i \<noteq> stale) (pa_by_client p)"
  "pa_by_address (fst (evict stale p w)) = pa_by_address p"
  "pa_format (fst (evict stale p w)) = pa_format p"
  "pa_sweep_at (fst (evict stale p w)) = pa_sweep_at p"
  by (simp_all add: evict_def)

lemma held_entry_tables:
  assumes "held_entry identity address p = (res, p')"
  shows "pa_by_client p' = pa_by_client p" "pa_by_address p' = pa_by_address p"
    "pa_format p' = pa_format p" "pa_sweep_at p' = pa_sweep_at p"
  using assms by (auto simp: held_entry_def arc_upgrade_def split: option.splits if_splits)

lemma registered_clone_tables [simp]:
  "pa_by_client (registered_clone i p) = pa_by_client p"
  "pa_by_address (registered_clone i p) = pa_by_address p"
  "pa_format (registered_clone i p) = pa_format p"
  by (simp_all add: registered_clone_def)

lemma handle_new_tables:
  assumes run: "handle_new F client identity address p w = (Inr entry, p', w')"
    and n: "identity_len (pa_format p) address = Inr n" "identity = take n address"
  shows "map_of (pa_by_client p') = (map_of (pa_by_client p)) (client \<mapsto> entry)
    \<and> map_of (pa_by_address p') identity = Some (\<lparr>pr_bytes = address, pr_identity_len = n\<rparr>, entry)
    \<and> pa_format p' = pa_format p"
proof -
  let ?key = "\<lparr>pr_bytes = address, pr_identity_len = n\<rparr>"
  obtain p1 w1 where rem: "by_client_remove client p w = (p1, w1)"
    by (cases "by_client_remove client p w")
  then have p1: "pa_format p1 = pa_format p" "pa_by_client p1 = AList.delete client (pa_by_client p)"
    using by_client_remove_fields [of client p w] by_client_remove_tables [of client p w] by simp_all
  have key: "peer_address_new (pa_format p) address = Inr ?key" "pr_identity ?key = identity"
    using n by (simp_all add: peer_address_new_def pr_identity_def)
  obtain r w2 where ins: "insert_address F address w1 = (r, w2)"
    by (cases "insert_address F address w1")
  obtain peer where r: "r = Inr peer" using run rem p1 key ins by (cases r) (auto simp: handle_new_def)
  obtain i h where new: "arc_new peer (pa_arcs p1) = (i, h)" by (cases "arc_new peer (pa_arcs p1)")
  define p3 where
    "p3 = sweep (p1\<lparr>pa_by_address := AList.delete identity (pa_by_address p1), pa_arcs := h\<rparr>)"
  define p4 where "p4 = p3\<lparr>pa_by_address := AList.update identity (?key, i) (pa_by_address p3)\<rparr>"
  have "entry = i \<and> p' = fst (by_client_insert client i (registered_clone i p4) w2)"
    using run rem p1 key ins r new unfolding p4_def p3_def
    by (auto simp: handle_new_def Let_def)
  then show ?thesis
    using p1 by (auto simp: p4_def p3_def update_conv' delete_conv' fun_eq_iff)
qed

text \<open>The entries of an address that \<open>handle\<close> supersedes: same slot, other bytes.\<close>

definition superseded :: "u8 list \<Rightarrow> u8 list \<Rightarrow> peers \<Rightarrow> arc_id \<Rightarrow> bool" where
  "superseded identity address p i \<longleftrightarrow>
     (case map_of (pa_by_address p) identity of
        None \<Rightarrow> False
      | Some (known, weak) \<Rightarrow> weak = i \<and> pr_bytes known \<noteq> address)"

lemma handle_tables:
  assumes ok: "peers_ok H p w" and run: "handle F client address p w = (Inr entry, p', w')"
    and n: "identity_len (pa_format p) address = Inr n"
  shows "map_of (pa_by_client p') c =
      (if c = client then Some entry
       else case map_of (pa_by_client p) c of
              None \<Rightarrow> None
            | Some i \<Rightarrow> if superseded (take n address) address p i then None else Some i)
    \<and> (\<exists>key. map_of (pa_by_address p') (take n address) = Some (key, entry) \<and> pr_bytes key = address)"
proof -
  let ?id = "take n address"
  have wf: "hm_wf (pa_by_client p)" using ok by (auto simp: peers_ok_def peers_inv_def)
  obtain held p1 where look: "held_entry ?id address p = (held, p1)"
    by (cases "held_entry ?id address p")
  note tables = held_entry_tables [OF look]
  have alive: "map_of (pa_by_client p) c = Some i \<Longrightarrow> 0 < strong_count (pa_arcs p) i" for i
    using peers_inv_count [OF peers_ok_inv [OF ok], of i] hm_count_pos [of "pa_by_client p" i]
    by (force simp: client_refs_def hm_count_def dest: map_of_SomeD)
  show ?thesis
  proof (cases held)
    case None
    have dead: "superseded ?id address p i \<Longrightarrow> strong_count (pa_arcs p) i = 0" for i
      using look None by (auto simp: held_entry_def arc_upgrade_def superseded_def
          split: option.splits if_splits)
    have "handle_new F client ?id address p1 w = (Inr entry, p', w')"
      using run n look None by (simp add: handle_def)
    from handle_new_tables [OF this, of n] show ?thesis
      using n tables dead alive by (fastforce split: option.splits)
  next
    case (Some be)
    then obtain b e where held: "held = Some (b, e)" by (cases be) auto
    obtain known where known: "map_of (pa_by_address p) ?id = Some (known, e)"
        "b = (pr_bytes known = address)"
      using look held by (auto simp: held_entry_def arc_upgrade_def split: option.splits if_splits)
    show ?thesis
    proof (cases b)
      case True
      have "entry = e \<and> p' = fst (by_client_insert client e (registered_clone e p1) w)"
        using run n look held True by (auto simp: handle_def)
      then show ?thesis
        using known True tables by (auto simp: superseded_def update_conv' split: option.splits)
    next
      case False
      define p3 where "p3 = fst (registered_drop e (fst (evict e p1 w)) (snd (evict e p1 w)))"
      obtain w3 where new: "handle_new F client ?id address p3 w3 = (Inr entry, p', w')"
        using run n look held False by (auto simp: handle_def p3_def split_def Let_def)
      have "pa_format p3 = pa_format p" "pa_by_client p3 = hm_retain (\<lambda>i. i \<noteq> e) (pa_by_client p)"
        using tables by (simp_all add: p3_def)
      with handle_new_tables [OF new, of n] show ?thesis
        using n known False wf
        by (auto simp: superseded_def map_of_hm_retain split: option.splits)
    qed
  qed
qed

section \<open>One live entry per slot\<close>

lemma live_drop:
  "arcs_wf (pa_arcs p) \<Longrightarrow> 0 < strong_count (pa_arcs (fst (registered_drop i p w))) j \<Longrightarrow>
     0 < strong_count (pa_arcs p) j"
  by (auto simp: registered_drop_fst strong_count_drop split: if_splits)

lemma live_drop_all:
  "arcs_wf (pa_arcs p) \<Longrightarrow> 0 < strong_count (pa_arcs (fst (registered_drop_all is p w))) j \<Longrightarrow>
     0 < strong_count (pa_arcs p) j"
proof (induction "is" arbitrary: p w)
  case (Cons i "is")
  have "arcs_wf (pa_arcs (fst (registered_drop i p w)))"
    using Cons.prems(1) by (simp add: registered_drop_fst)
  then show ?case using Cons live_drop [OF Cons.prems(1), of i w j] by (auto simp: Let_def split_def)
qed simp

lemma live_clone:
  "arcs_wf (pa_arcs p) \<Longrightarrow> 0 < strong_count (pa_arcs (registered_clone i p)) j \<longleftrightarrow>
     0 < strong_count (pa_arcs p) j"
  by (auto simp: registered_clone_def strong_count_clone)

lemma live_by_client_insert:
  "arcs_wf (pa_arcs p) \<Longrightarrow> 0 < strong_count (pa_arcs (fst (by_client_insert client i p w))) j \<Longrightarrow>
     0 < strong_count (pa_arcs p) j"
  by (auto simp: by_client_insert_def Let_def dest!: live_drop [rotated] split: option.splits)

lemma live_by_client_remove:
  "arcs_wf (pa_arcs p) \<Longrightarrow> 0 < strong_count (pa_arcs (fst (by_client_remove client p w))) j \<Longrightarrow>
     0 < strong_count (pa_arcs p) j"
  by (auto simp: by_client_remove_def dest!: live_drop [rotated] split: option.splits)

lemma live_evict:
  "arcs_wf (pa_arcs p) \<Longrightarrow> 0 < strong_count (pa_arcs (fst (evict stale p w))) j \<Longrightarrow>
     0 < strong_count (pa_arcs p) j"
  by (auto simp: evict_def dest!: live_drop_all [rotated])

lemma live_held_entry:
  "arcs_wf (pa_arcs p) \<Longrightarrow> held_entry identity address p = (res, p') \<Longrightarrow>
     0 < strong_count (pa_arcs p') j \<longleftrightarrow> 0 < strong_count (pa_arcs p) j"
  by (auto simp: held_entry_def arc_upgrade_def strong_count_clone split: option.splits if_splits)

lemma index_after_sweep:
  assumes "x \<in> set (pa_by_address p)" "0 < strong_count (pa_arcs p) (snd (snd x))"
  shows "x \<in> set (pa_by_address (sweep p))"
  using assms by (auto simp: sweep_def Let_def hm_retain_def)

lemma index_after_delete:
  "x \<in> set m \<Longrightarrow> fst x \<noteq> k \<Longrightarrow> x \<in> set (AList.delete k m)"
  by (auto simp: AList.delete_eq)

lemma index_after_update: "x \<in> set m \<Longrightarrow> fst x \<noteq> k \<Longrightarrow> x \<in> set (AList.update k v m)"
  by (induction m) auto

lemma indexedD:
  "indexed p \<Longrightarrow> 0 < strong_count (pa_arcs p) j \<Longrightarrow> \<exists>k key. (k, key, j) \<in> set (pa_by_address p)"
  by (metis indexed_def prod.collapse)

lemma handle_new_indexed:
  assumes ok: "peers_ok H p w" and all: "indexed p"
    and dead: "\<And>known weak. map_of (pa_by_address p) identity = Some (known, weak) \<Longrightarrow>
      strong_count (pa_arcs p) weak = 0"
    and n: "identity_len (pa_format p) address = Inr n" "identity = take n address"
    and run: "handle_new F client identity address p w = (res, p', w')"
  shows "indexed p'"
proof -
  let ?key = "\<lparr>pr_bytes = address, pr_identity_len = n\<rparr>"
  obtain p1 w1 where rem: "by_client_remove client p w = (p1, w1)"
    by (cases "by_client_remove client p w")
  then have p1: "pa_format p1 = pa_format p" "pa_by_address p1 = pa_by_address p"
    using by_client_remove_fields [of client p w] by simp_all
  have wf: "arcs_wf (pa_arcs p)" "arcs_wf (pa_arcs p1)"
    using ok peers_ok_by_client_remove [OF ok rem] by auto
  have key: "peer_address_new (pa_format p) address = Inr ?key" "pr_identity ?key = identity"
    using n by (simp_all add: peer_address_new_def pr_identity_def)
  have map_wf: "hm_wf (pa_by_address p)" using ok by (auto simp: peers_ok_def peers_inv_def index_ok_def)
  have kept: "\<exists>x \<in> set (AList.delete identity (pa_by_address p)). snd (snd x) = j"
    if "0 < strong_count (pa_arcs p1) j" for j
  proof -
    have "0 < strong_count (pa_arcs p) j"
      using that live_by_client_remove [OF wf(1), of client w j] rem by simp
    then obtain k key' where x: "(k, key', j) \<in> set (pa_by_address p)" and
      pos: "0 < strong_count (pa_arcs p) j" using indexedD [OF all] by blast
    have "k \<noteq> identity"
      using dead [of key' j] pos x map_wf by (auto simp: hm_wf_def)
    then show ?thesis using index_after_delete [OF x, of identity] by force
  qed
  obtain r w2 where ins: "insert_address F address w1 = (r, w2)"
    by (cases "insert_address F address w1")
  show ?thesis
  proof (cases r)
    case (Inl e)
    then have "p' = p1\<lparr>pa_by_address := AList.delete identity (pa_by_address p)\<rparr>"
      using run rem p1 key ins by (auto simp: handle_new_def)
    then show ?thesis using kept by (auto simp: indexed_def)
  next
    case (Inr peer)
    obtain i h where new: "arc_new peer (pa_arcs p1) = (i, h)" by (cases "arc_new peer (pa_arcs p1)")
    then have h: "h = snd (arc_new peer (pa_arcs p1))" "i = next_arc (pa_arcs p1)"
      by (auto simp: arc_new_def)
    define p2 where "p2 = p1\<lparr>pa_by_address := AList.delete identity (pa_by_address p), pa_arcs := h\<rparr>"
    define p4 where "p4 = (sweep p2)\<lparr>pa_by_address :=
      AList.update identity (?key, i) (pa_by_address (sweep p2))\<rparr>"
    have p': "p' = fst (by_client_insert client i (registered_clone i p4) w2)"
      using run rem p1 key ins Inr new unfolding p4_def p2_def
      by (auto simp: handle_new_def Let_def)
    have wf4: "arcs_wf (pa_arcs p4)" using wf by (simp add: p4_def p2_def h)
    have "\<exists>x \<in> set (pa_by_address p4). snd (snd x) = j" if "0 < strong_count (pa_arcs p4) j" for j
    proof (cases "j = i")
      case True
      have "map_of (pa_by_address p4) identity = Some (?key, i)"
        by (simp add: p4_def update_conv')
      then show ?thesis using True by (force dest: map_of_SomeD)
    next
      case False
      then have "0 < strong_count (pa_arcs p1) j"
        using that by (simp add: p4_def p2_def h strong_count_new split: if_splits)
      then obtain x where x: "x \<in> set (AList.delete identity (pa_by_address p))" "snd (snd x) = j"
        using kept by blast
      then have "x \<in> set (pa_by_address (sweep p2))"
        using that by (intro index_after_sweep) (auto simp: p2_def p4_def)
      moreover have "fst x \<noteq> identity" using x by (auto simp: AList.delete_eq)
      ultimately show ?thesis using x index_after_update by (fastforce simp: p4_def)
    qed
    moreover have "arcs_wf (pa_arcs (registered_clone i p4))"
      using wf4 by (simp add: registered_clone_def)
    ultimately show ?thesis
      using live_by_client_insert [of "registered_clone i p4" client i w2] live_clone [OF wf4]
      by (auto simp: indexed_def p')
  qed
qed

lemma handle_indexed:
  assumes ok: "peers_ok {#} p w" and all: "indexed p"
    and run: "handle F client address p w = (res, p', w')"
  shows "indexed p'"
proof (cases "identity_len (pa_format p) address")
  case (Inl e)
  then have "p' = p" using run by (simp add: handle_def)
  then show ?thesis using all by simp
next
  case (Inr n)
  let ?id = "take n address"
  obtain held p1 where look: "held_entry ?id address p = (held, p1)"
    by (cases "held_entry ?id address p")
  note tables = held_entry_tables [OF look] and ok1 = peers_ok_held_entry [OF ok look]
  have wf: "arcs_wf (pa_arcs p)" "arcs_wf (pa_arcs p1)" using ok ok1 by auto
  have live1: "0 < strong_count (pa_arcs p1) j \<longleftrightarrow> 0 < strong_count (pa_arcs p) j" for j
    by (rule live_held_entry [OF wf(1) look])
  have all1: "indexed p1" using all by (simp add: indexed_def tables live1)
  show ?thesis
  proof (cases held)
    case None
    then have "strong_count (pa_arcs p1) weak = 0"
      if "map_of (pa_by_address p1) ?id = Some (known, weak)" for known weak
      using that look live1 [of weak] tables
      by (auto simp: held_entry_def arc_upgrade_def split: if_splits)
    with None show ?thesis
      using handle_new_indexed [of "{#}" p1 w ?id address n F client res p' w'] ok1 all1 run Inr look
        tables by (auto simp: handle_def)
  next
    case (Some be)
    then obtain b e where held: "held = Some (b, e)" by (cases be) auto
    obtain known where known: "map_of (pa_by_address p) ?id = Some (known, e)"
      using look held by (auto simp: held_entry_def arc_upgrade_def split: option.splits if_splits)
    show ?thesis
    proof (cases b)
      case True
      then have p': "p' = fst (by_client_insert client e (registered_clone e p1) w)"
        using run Inr look held by (auto simp: handle_def)
      have "arcs_wf (pa_arcs (registered_clone e p1))" using wf by (simp add: registered_clone_def)
      then show ?thesis
        using all1 live_by_client_insert [of "registered_clone e p1" client e w] live_clone [OF wf(2)]
        by (auto simp: indexed_def p')
    next
      case False
      obtain p2 w2 where ev: "evict e p1 w = (p2, w2)" by (cases "evict e p1 w")
      obtain p3 w3 where dr: "registered_drop e p2 w2 = (p3, w3)" by (cases "registered_drop e p2 w2")
      have ok2: "peers_ok (add_mset e {#}) p2 w2" using peers_ok_evict [OF _ ev] ok1 held by simp
      have ok3: "peers_ok {#} p3 w3" by (rule peers_ok_drop [OF ok2 dr])
      have t2: "pa_by_client p2 = hm_retain (\<lambda>i. i \<noteq> e) (pa_by_client p)"
          "pa_by_address p2 = pa_by_address p" "pa_format p2 = pa_format p"
        using evict_tables [of e p1 w] ev tables by simp_all
      have t3: "pa_by_client p3 = pa_by_client p2" "pa_by_address p3 = pa_by_address p2"
          "pa_format p3 = pa_format p2"
        using registered_drop_tables [of e p2 w2] dr by simp_all
      have "strong_count (pa_arcs p3) e = hm_count (hm_retain (\<lambda>i. i \<noteq> e) (pa_by_client p)) e"
        using peers_inv_count [OF peers_ok_inv [OF ok3], of e] t2 t3
        by (simp add: client_refs_def hm_count_def)
      then have "strong_count (pa_arcs p3) e = 0" by (simp add: hm_count_retain)
      moreover have "0 < strong_count (pa_arcs p) j" if "0 < strong_count (pa_arcs p3) j" for j
        using that live_drop [of p2 e w2 j] live_evict [OF wf(2), of e w j] live1 [of j] ok2 ev dr
        by auto
      ultimately show ?thesis
        using handle_new_indexed [of "{#}" p3 w3 ?id address n F client res p' w'] ok3 all run Inr look
          held False ev dr t2 t3 known
        by (auto simp: handle_def indexed_def)
    qed
  qed
qed

lemma indexed_live:
  "indexed p \<Longrightarrow> pa_by_address p' = pa_by_address p \<Longrightarrow>
     (\<And>j. 0 < strong_count (pa_arcs p') j \<Longrightarrow> 0 < strong_count (pa_arcs p) j) \<Longrightarrow> indexed p'"
  by (auto simp: indexed_def)

section \<open>The table over time\<close>

text \<open>
  The endpoint's owner runs one operation at a time: a \<open>handle\<close> whose result is dropped before the
  next operation (the posts of the worker hold it while they run), a \<open>release\<close> or a \<open>clear\<close>. Calls
  of other components may be logged in between.
\<close>

definition use_handle ::
  "fabric \<Rightarrow> u64 \<Rightarrow> u8 list \<Rightarrow> peers \<Rightarrow> world \<Rightarrow> peers \<times> world" where
  "use_handle F client address p w =
     (case handle F client address p w of
        (Inl _, p', w') \<Rightarrow> (p', w')
      | (Inr entry, p', w') \<Rightarrow> registered_drop entry p' w')"

inductive peers_step :: "fabric \<Rightarrow> peers \<times> world \<Rightarrow> peers \<times> world \<Rightarrow> bool" for F where
  handle_step: "peers_step F (p, w) (use_handle F client address p w)"
| release_step: "peers_step F (p, w) (release client p w)"
| clear_step: "peers_step F (p, w) (clear_peers p w)"
| other_step: "av_inserted [c] = {#} \<Longrightarrow> av_removed [c] = {#} \<Longrightarrow>
    peers_step F (p, w) (p, log_call c w)"

definition peers_init :: "peers \<times> world \<Rightarrow> bool" where
  "peers_init s \<longleftrightarrow> (\<exists>format. s = (peers_new format, empty_world))"

definition peers_state_inv :: "peers \<times> world \<Rightarrow> bool" where
  "peers_state_inv s \<longleftrightarrow> (case s of (p, w) \<Rightarrow> peers_ok {#} p w \<and> indexed p)"

lemma use_handle_inv:
  assumes ok: "peers_ok {#} p w" and all: "indexed p" and run: "use_handle F client address p w = (p', w')"
  shows "peers_ok {#} p' w' \<and> indexed p'"
proof -
  obtain res p1 w1 where h: "handle F client address p w = (res, p1, w1)"
    by (cases "handle F client address p w")
  note ok1 = handle_ok [OF ok h] and all1 = handle_indexed [OF ok all h]
  show ?thesis
  proof (cases res)
    case (Inl e)
    then show ?thesis using ok1 all1 h run by (simp add: use_handle_def)
  next
    case (Inr entry)
    then have dr: "registered_drop entry p1 w1 = (p', w')" using h run by (simp add: use_handle_def)
    have "indexed p'"
      by (rule indexed_live [OF all1])
        (use registered_drop_tables [of entry p1 w1] live_drop [of p1 entry w1] dr ok1 Inr in auto)
    then show ?thesis using peers_ok_drop [OF _ dr] ok1 Inr by simp
  qed
qed

lemma release_inv:
  assumes ok: "peers_ok {#} p w" and all: "indexed p" and run: "release client p w = (p', w')"
  shows "peers_ok {#} p' w' \<and> indexed p'"
proof -
  have rem: "by_client_remove client p w = (p', w')" using run by (simp add: release_def)
  have "indexed p'"
    by (rule indexed_live [OF all])
      (use by_client_remove_fields [of client p w] live_by_client_remove [of p client w] rem ok in auto)
  then show ?thesis using peers_ok_by_client_remove [OF ok rem] by simp
qed

lemma clear_peers_inv:
  assumes ok: "peers_ok {#} p w" and run: "clear_peers p w = (p', w')"
  shows "peers_ok {#} p' w' \<and> arc_live (pa_arcs p') = {#} \<and> pa_by_client p' = []"
proof -
  let ?is = "hm_values (pa_by_client p)"
  have "peers_ok (mset ?is + {#}) (p\<lparr>pa_by_client := []\<rparr>) w"
    using ok peers_inv_move [of "{#}" p "[]" "mset ?is"]
    by (simp add: peers_ok_def client_refs_def hm_values_def)
  moreover obtain p1 w1 where dr: "registered_drop_all ?is (p\<lparr>pa_by_client := []\<rparr>) w = (p1, w1)"
    by (cases "registered_drop_all ?is (p\<lparr>pa_by_client := []\<rparr>) w")
  ultimately have ok1: "peers_ok {#} p1 w1" by (metis peers_ok_drop_all)
  have t: "pa_by_client p1 = []"
    using registered_drop_all_tables(1) [of ?is "p\<lparr>pa_by_client := []\<rparr>" w] dr by simp
  have p': "p' = p1\<lparr>pa_by_address := []\<rparr>" "w' = w1" using run dr by (auto simp: clear_peers_def)
  have none: "strong_count (pa_arcs p1) i = 0" for i
    using peers_inv_count [OF peers_ok_inv [OF ok1], of i] t by (simp add: client_refs_def hm_values_def)
  have "arc_live (pa_arcs p1) = {#}"
  proof (cases "cells (pa_arcs p1)")
    case (Cons x rest)
    then have "map_of (cells (pa_arcs p1)) (fst x) = Some (snd x)" by (cases x) simp
    then show ?thesis
      using strong_count_pos_iff [OF peers_inv_arcs [OF peers_ok_inv [OF ok1]], of "fst x"]
        none [of "fst x"] by (cases "snd x") auto
  qed (simp add: arc_live_def)
  moreover have "index_ok p'"
    by (simp add: p' index_ok_def)
  ultimately show ?thesis
    using ok1 t by (auto simp: peers_ok_def peers_inv_def p')
qed

lemma peers_step_inv: "peers_step F s t \<Longrightarrow> peers_state_inv s \<Longrightarrow> peers_state_inv t"
proof (induction rule: peers_step.induct)
  case (handle_step p w client address)
  then show ?case
    using use_handle_inv [of p w F client address]
    by (auto simp: peers_state_inv_def split: prod.splits)
next
  case (release_step p w client)
  then show ?case
    using release_inv [of p w client] by (auto simp: peers_state_inv_def split: prod.splits)
next
  case (clear_step p w)
  obtain p' w' where run: "clear_peers p w = (p', w')" by (cases "clear_peers p w")
  have "indexed p'"
    using clear_peers_inv [of p w, OF _ run] clear_step peers_inv_count [of "{#}" p']
    by (auto simp: indexed_def peers_state_inv_def client_refs_def hm_values_def)
  then show ?case
    using clear_peers_inv [of p w, OF _ run] clear_step run by (auto simp: peers_state_inv_def)
next
  case (other_step c p w)
  then show ?case by (auto simp: peers_state_inv_def peers_ok_log)
qed

lemma peers_init_inv: "peers_init s \<Longrightarrow> peers_state_inv s"
  by (auto simp: peers_init_def peers_state_inv_def peers_new_def peers_ok_def peers_inv_def
      index_ok_def balanced_def client_refs_def hm_values_def av_accounted_def empty_world_def indexed_def)

interpretation pa: step_invariant peers_init "peers_step F" peers_state_inv for F
  by unfold_locales (auto intro: peers_init_inv peers_step_inv)

section \<open>The index of dead entries is bounded\<close>

definition index_bounded :: "peers \<Rightarrow> bool" where
  "index_bounded p \<longleftrightarrow> MINIMUM_SWEEP \<le> pa_sweep_at p \<and> hm_len (pa_by_address p) \<le> pa_sweep_at p"

lemma hm_len_delete: "hm_len (AList.delete k m) \<le> hm_len m"
  by (simp add: hm_len_def length_delete_le)

lemma hm_len_update: "hm_len (AList.update k v m) \<le> Suc (hm_len m)"
  by (induction m) (auto simp: hm_len_def)

lemma sweep_room:
  "MINIMUM_SWEEP \<le> pa_sweep_at p \<Longrightarrow>
     MINIMUM_SWEEP \<le> pa_sweep_at (sweep p) \<and> hm_len (pa_by_address (sweep p)) < pa_sweep_at (sweep p)"
  by (auto simp: sweep_def Let_def MINIMUM_SWEEP_def max_def)

lemma handle_new_bounded:
  assumes b: "index_bounded p" and run: "handle_new F client identity address p w = (res, p', w')"
  shows "index_bounded p'"
proof -
  obtain p1 w1 where rem: "by_client_remove client p w = (p1, w1)"
    by (cases "by_client_remove client p w")
  then have t1: "pa_by_address p1 = pa_by_address p" "pa_sweep_at p1 = pa_sweep_at p"
    using by_client_remove_fields(2) [of client p w] by_client_remove_tables(2) [of client p w]
    by simp_all
  define p2 where "p2 = p1\<lparr>pa_by_address := AList.delete identity (pa_by_address p1)\<rparr>"
  have b2: "index_bounded p2"
    using b hm_len_delete [of identity "pa_by_address p"]
    by (auto simp: index_bounded_def p2_def t1)
  have insert_bounded: "index_bounded q"
    if "by_client_insert client i (registered_clone i
      ((sweep (p2\<lparr>pa_arcs := h\<rparr>))\<lparr>pa_by_address :=
         AList.update k v (pa_by_address (sweep (p2\<lparr>pa_arcs := h\<rparr>)))\<rparr>)) w2 = (q, w3)"
    for i h k v w2 q w3
    using sweep_room [of "p2\<lparr>pa_arcs := h\<rparr>"] b2 arg_cong [OF that, of fst]
      hm_len_update [of k v "pa_by_address (sweep (p2\<lparr>pa_arcs := h\<rparr>))"]
    by (auto simp: index_bounded_def by_client_insert_def registered_clone_def Let_def
        registered_drop_fst split: option.splits)
  show ?thesis
    using run rem b2
    by (auto simp: handle_new_def p2_def [symmetric] Let_def split_def
        intro: insert_bounded split: sum.splits prod.splits)
qed

lemma handle_bounded:
  assumes b: "index_bounded p" and run: "handle F client address p w = (res, p', w')"
  shows "index_bounded p'"
proof (cases "identity_len (pa_format p) address")
  case (Inl e)
  then have "p' = p" using run by (simp add: handle_def)
  then show ?thesis using b by simp
next
  case (Inr n)
  obtain held p1 where look: "held_entry (take n address) address p = (held, p1)"
    by (cases "held_entry (take n address) address p")
  have b1: "index_bounded p1" using b held_entry_tables [OF look] by (simp add: index_bounded_def)
  have hit: "index_bounded q" if "by_client_insert client e (registered_clone e p1) w = (q, w2)"
    for e q w2
    using b1 arg_cong [OF that, of fst] by (auto simp: index_bounded_def by_client_insert_def registered_clone_def Let_def
        registered_drop_fst split: option.splits)
  have stale: "index_bounded (fst (registered_drop e (fst (evict e p1 w)) w2))" for e w2
    using b1 by (simp add: index_bounded_def)
  show ?thesis
    using run Inr look b1
    by (auto simp: handle_def Let_def split_def intro: hit handle_new_bounded [OF stale]
        handle_new_bounded [OF b1] split: option.splits prod.splits bool.splits)
qed

section \<open>Properties\<close>

text \<open>
  C31. Entries of the address vector neither leak nor leave early: whatever clients advertise,
  re-advertise and disconnect, the entries inserted are exactly the entries removed plus those
  alive, and an entry's strong count is the number of clients on it.
\<close>

theorem peer_entries_accounted:
  assumes "reachable peers_init (peers_step F) (p, w)"
  shows "av_inserted (w_log w) = av_removed (w_log w) + arc_live (pa_arcs p)
    \<and> strong_count (pa_arcs p) i = hm_count (pa_by_client p) i"
  using pa.reachable_inv [OF assms] peers_inv_count [of "{#}" p i]
  by (simp add: peers_state_inv_def peers_ok_def av_accounted_def client_refs_def hm_count_def)

text \<open>
  C32. An endpoint slot has at most one live entry: two live entries never have the same identity
  bytes (on efa the GID and queue-pair number, whatever the QKEY), so the provider is never asked
  to hold two epochs of one slot.
\<close>

theorem one_live_entry_per_slot:
  assumes "reachable peers_init (peers_step F) (p, w)"
    and "0 < strong_count (pa_arcs p) i" and "0 < strong_count (pa_arcs p) j"
  shows "\<exists>a b. (pr_identity a, a, i) \<in> set (pa_by_address p)
    \<and> (pr_identity b, b, j) \<in> set (pa_by_address p) \<and> (pr_identity a = pr_identity b \<longleftrightarrow> i = j)"
proof -
  have ok: "index_ok p" and all: "indexed p"
    using pa.reachable_inv [OF assms(1)] by (auto simp: peers_state_inv_def peers_ok_def peers_inv_def)
  obtain ki a kj b where e: "(ki, a, i) \<in> set (pa_by_address p)" "(kj, b, j) \<in> set (pa_by_address p)"
    using indexedD [OF all assms(2)] indexedD [OF all assms(3)] by blast
  have keys: "ki = pr_identity a" "kj = pr_identity b"
    using e ok by (auto simp: index_ok_def key_ok_def)
  have "ki = kj \<Longrightarrow> i = j"
    using e ok eq_key_imp_eq_value [of "pa_by_address p"] by (force simp: index_ok_def hm_wf_def)
  moreover have "i = j \<Longrightarrow> ki = kj"
    using e ok by (force simp: index_ok_def distinct_map inj_on_def)
  ultimately show ?thesis using e keys by blast
qed

text \<open>
  \<open>handle\<close> serves exactly the advertised address: the client ends on an entry indexed under its
  slot with the very bytes it advertised; every client on a superseded entry of that slot (same
  identity, other bytes) is evicted, and every other client keeps its entry.
\<close>

theorem handle_serves_the_advertised_address:
  assumes "peers_ok {#} p w" and "handle F client address p w = (Inr entry, p', w')"
    and "identity_len (pa_format p) address = Inr n"
  shows "map_of (pa_by_client p') c =
      (if c = client then Some entry
       else case map_of (pa_by_client p) c of
              None \<Rightarrow> None
            | Some i \<Rightarrow> if superseded (take n address) address p i then None else Some i)
    \<and> (\<exists>key. map_of (pa_by_address p') (take n address) = Some (key, entry) \<and> pr_bytes key = address)"
  by (rule handle_tables [OF assms])

text \<open>
  The last client out removes the entry, and only the last: releasing a client whose entry no
  other client shares makes exactly one \<open>fi_av_remove\<close>, of that entry; releasing any other client
  makes no call.
\<close>

theorem release_removes_with_the_last_client:
  assumes "peers_ok {#} p w" and "release client p w = (p', w')"
  shows "w_log w' =
    (case map_of (pa_by_client p) client of
       None \<Rightarrow> w_log w
     | Some i \<Rightarrow> if hm_count (pa_by_client p) i = 1
                 then AvRemove (the (arc_value (pa_arcs p) i)) # w_log w else w_log w)"
proof (cases "map_of (pa_by_client p) client")
  case None
  then show ?thesis using assms(2) by (auto simp: release_def by_client_remove_def)
next
  case (Some i)
  have count: "strong_count (pa_arcs p) i = hm_count (pa_by_client p) i"
    using peers_inv_count [OF peers_ok_inv [OF assms(1)], of i]
    by (simp add: client_refs_def hm_count_def)
  moreover have "0 < hm_count (pa_by_client p) i"
    using Some by (force simp: hm_count_pos dest: map_of_SomeD)
  ultimately obtain v m where m: "map_of (cells (pa_arcs p)) i = Some (v, m)" "0 < m"
    by (auto simp: strong_count_def split: option.splits)
  then show ?thesis
    using assms(2) Some count
    by (auto simp: release_def by_client_remove_def registered_drop_def arc_drop_def log_call_def
        strong_count_def arc_value_def)
qed

text \<open>
  The index of addresses does not grow without bound: it never holds more keys than the sweep
  threshold, and a sweep leaves only live entries and sets the threshold to twice their number
  (at least 64).
\<close>

theorem address_index_is_bounded:
  assumes "index_bounded p" and "handle F client address p w = (res, p', w')"
  shows "hm_len (pa_by_address p') \<le> pa_sweep_at p'
    \<and> (pa_sweep_at p \<le> hm_len (pa_by_address p) \<longrightarrow>
         (\<forall>x \<in> set (pa_by_address (sweep p)). 0 < strong_count (pa_arcs p) (snd (snd x)))
         \<and> pa_sweep_at (sweep p) = max 64 (2 * hm_len (pa_by_address (sweep p))))"
  using handle_bounded [OF assms]
  by (auto simp: index_bounded_def sweep_def Let_def hm_retain_def MINIMUM_SWEEP_def)

text \<open>
  The witnesses run two clients that advertise the same address, on a provider whose addresses
  are opaque.
\<close>

definition witness_peers :: "peers \<times> world" where
  "witness_peers =
     (let (p, w) = use_handle loopback 1 [10, 20] (peers_new Opaque) empty_world
      in use_handle loopback 2 [10, 20] p w)"

lemma witness_peers_reachable: "reachable peers_init (peers_step loopback) witness_peers"
proof -
  let ?s = "use_handle loopback 1 [10, 20] (peers_new Opaque) empty_world"
  have "reachable peers_init (peers_step loopback) (peers_new Opaque, empty_world)"
    by (rule reachable.reach_init) (auto simp: peers_init_def)
  then have "reachable peers_init (peers_step loopback) (fst ?s, snd ?s)"
    by (rule reachable.reach_step) (simp add: handle_step)
  then show ?thesis
    unfolding witness_peers_def split_def Let_def by (rule reachable.reach_step) (rule handle_step)
qed

lemma witness_peers_ok: "peers_ok {#} (fst witness_peers) (snd witness_peers)"
  using pa.reachable_inv [OF witness_peers_reachable] by (auto simp: peers_state_inv_def split_def)

lemmas peers_eval = witness_peers_def use_handle_def handle_def held_entry_def handle_new_def
  by_client_remove_def by_client_insert_def peer_address_new_def insert_address_def peers_new_def
  arc_new_def arc_clone_def arc_drop_def arc_upgrade_def strong_count_def no_arcs_def
  registered_clone_def registered_drop_def sweep_def MINIMUM_SWEEP_def hm_len_def hm_values_def
  hm_count_def pr_identity_def loopback_def log_call_def empty_world_def Let_def arc_value_def

lemma witness_peers_eval:
  "pa_by_client (fst witness_peers) = [(1, 0), (2, 0)]"
  "map_of (cells (pa_arcs (fst witness_peers))) 0 = Some (0, 2)"
  "pa_by_address (fst witness_peers) = [([10, 20], \<lparr>pr_bytes = [10, 20], pr_identity_len = 2\<rparr>, 0)]"
  "pa_format (fst witness_peers) = Opaque" "pa_sweep_at (fst witness_peers) = 64"
  "w_log (snd witness_peers) = [AvInsert [10, 20] 1 0]"
  by (simp_all add: peers_eval)

theorem peer_entries_accounted_witness:
  "av_inserted (w_log (snd witness_peers)) =
     av_removed (w_log (snd witness_peers)) + arc_live (pa_arcs (fst witness_peers))
   \<and> strong_count (pa_arcs (fst witness_peers)) 0 = hm_count (pa_by_client (fst witness_peers)) 0"
  using witness_peers_reachable by (intro peer_entries_accounted [of loopback]) simp

theorem one_live_entry_per_slot_witness:
  "\<exists>a b. (pr_identity a, a, 0) \<in> set (pa_by_address (fst witness_peers))
    \<and> (pr_identity b, b, 0) \<in> set (pa_by_address (fst witness_peers))
    \<and> (pr_identity a = pr_identity b \<longleftrightarrow> (0 :: arc_id) = 0)"
  using witness_peers_reachable
  by (intro one_live_entry_per_slot [of loopback _ "snd witness_peers"])
    (simp_all add: strong_count_def witness_peers_eval)

theorem handle_serves_the_advertised_address_witness:
  "\<exists>entry p' w'. handle loopback 3 [10, 20] (fst witness_peers) (snd witness_peers) = (Inr entry, p', w')
    \<and> map_of (pa_by_client p') 3 = Some entry
    \<and> (\<exists>key. map_of (pa_by_address p') [10, 20] = Some (key, entry) \<and> pr_bytes key = [10, 20])"
proof -
  obtain entry p' w' where
    run: "handle loopback 3 [10, 20] (fst witness_peers) (snd witness_peers) = (Inr entry, p', w')"
    by (simp add: handle_def held_entry_def arc_upgrade_def strong_count_def witness_peers_eval)
      (metis prod.collapse)
  then show ?thesis
    using handle_serves_the_advertised_address [OF witness_peers_ok run, of 2 3]
    by (simp add: witness_peers_eval)
qed

theorem release_removes_with_the_last_client_witness:
  "w_log (snd (release 1 (fst witness_peers) (snd witness_peers))) = w_log (snd witness_peers)"
  using release_removes_with_the_last_client [OF witness_peers_ok, of 1]
  by (cases "release 1 (fst witness_peers) (snd witness_peers)")
    (simp add: witness_peers_eval hm_count_def hm_values_def)

theorem address_index_is_bounded_witness:
  "case handle loopback 3 [30] (fst witness_peers) (snd witness_peers) of
     (_, p', _) \<Rightarrow> hm_len (pa_by_address p') \<le> pa_sweep_at p'"
proof -
  have "index_bounded (fst witness_peers)"
    by (simp add: index_bounded_def witness_peers_eval hm_len_def MINIMUM_SWEEP_def)
  then show ?thesis
    using address_index_is_bounded [of "fst witness_peers"] by (auto split: prod.splits)
qed

end
