(* ===== verification/Endpoint.thy ===== *)
theory Endpoint
  imports Peer_Addresses
begin

text \<open>
  \<open>endpoint.rs\<close> and \<open>connection.rs\<close>, the operations the worker calls on an open endpoint: reaping
  the completion queue, inserting and releasing peers, resolving local operands and posting. How
  an endpoint is opened and closed is in another theory. The lemmas show what each operation
  leaves of the registration cache, the address table and the operations on the wire; for \<open>reap\<close>,
  that each operation on the wire is handed out at most once and none is lost.
\<close>

section \<open>\<open>connection.rs\<close>\<close>

record connection =
  cn_peer :: fi_addr
  cn_remote_key :: u64
  cn_remote_address :: u64

definition post_out ::
  "fabric \<Rightarrow> connection \<Rightarrow> ptr \<Rightarrow> usize \<Rightarrow> ptr \<Rightarrow> op_context \<Rightarrow> world \<Rightarrow> int \<times> world" where
  "post_out F c pointer len descriptor context w =
     (let r = \<lparr>rma_peer = cn_peer c, rma_buffer = pointer, rma_length = len,
               rma_descriptor = descriptor, rma_remote_address = cn_remote_address c,
               rma_remote_key = cn_remote_key c, rma_context = context\<rparr>;
          code = fi_writemsg F (w_log w) r
      in (code, log_call (WriteMsg r code) w))"

definition post_in ::
  "fabric \<Rightarrow> connection \<Rightarrow> ptr \<Rightarrow> usize \<Rightarrow> ptr \<Rightarrow> op_context \<Rightarrow> world \<Rightarrow> int \<times> world" where
  "post_in F c pointer len descriptor context w =
     (let r = \<lparr>rma_peer = cn_peer c, rma_buffer = pointer, rma_length = len,
               rma_descriptor = descriptor, rma_remote_address = cn_remote_address c,
               rma_remote_key = cn_remote_key c, rma_context = context\<rparr>;
          code = fi_read F (w_log w) r
      in (code, log_call (ReadMsg r code) w))"

section \<open>Reaping\<close>

definition BATCH :: nat where "BATCH = 16"

definition non_null_context :: "op_context \<Rightarrow> (dma_error, op_context) result" where
  "non_null_context context =
     (if context = 0 then Inl (Fabric ''completion carried a null op_context'') else Inr context)"

type_synonym reaped = "op_context \<times> (dma_error, unit) result"

text \<open>
  How \<open>reap\<close> ends: \<open>Ok\<close>, an error, or a panic (the slice \<open>entries[..read]\<close> out of range when the
  queue claims more entries than the array holds).
\<close>

datatype reap_end = ReapOk | ReapErr dma_error | ReapPanic

fun push_entries :: "op_context list \<Rightarrow> reaped list \<Rightarrow> dma_error option \<times> reaped list" where
  "push_entries [] out = (None, out)"
| "push_entries (c # cs) out =
     (case non_null_context c of
        Inl e \<Rightarrow> (Some e, out)
      | Inr c' \<Rightarrow> push_entries cs (out @ [(c', Inr ())]))"

definition read_error :: "fabric \<Rightarrow> world \<Rightarrow> (dma_error, reaped) result \<times> world" where
  "read_error F w =
     (let (n, entry) = fi_cq_readerr F (w_log w);
          w' = log_call (CqReadErr n entry) w
      in (if n \<le> 0 then Inl (fabric_error F (as_i32 n) ''fi_cq_readerr'')
          else Inr (err_op_context entry, Inl (completion_error F entry)), w'))"

lemma push_entries_all:
  "0 \<notin> set cs \<Longrightarrow> push_entries cs out = (None, out @ map (\<lambda>c. (c, Inr ())) cs)"
  by (induction cs arbitrary: out) (auto simp: non_null_context_def)

lemma push_entries_length:
  "push_entries cs out = (None, out') \<Longrightarrow> length out' = length out + length cs"
  by (induction cs arbitrary: out) (auto split: sum.splits)

text \<open>
  The array of \<open>BATCH\<close> entries is initialised to null contexts, and the queue writes its entries
  from the front.
\<close>

definition read_entries :: "int \<Rightarrow> op_context list \<Rightarrow> op_context list" where
  "read_entries n contexts = take (nat n) (take BATCH contexts @ replicate BATCH 0)"

lemma length_read_entries: "0 < n \<Longrightarrow> n \<le> 16 \<Longrightarrow> length (read_entries n contexts) = nat n"
  by (simp add: read_entries_def BATCH_def)

function reap :: "fabric \<Rightarrow> nat \<Rightarrow> reaped list \<Rightarrow> world \<Rightarrow> reap_end \<times> reaped list \<times> world" where
  "reap F limit out w =
     (if length out < limit then
        (let want = min BATCH (limit - length out);
             (n, contexts) = fi_cq_read F (w_log w) want;
             w1 = log_call (CqRead want n contexts) w
         in if 0 < n then
              (if int BATCH < n then (ReapPanic, out, w1)
               else case push_entries (read_entries n contexts) out of
                      (Some e, out') \<Rightarrow> (ReapErr e, out', w1)
                    | (None, out') \<Rightarrow> reap F limit out' w1)
            else if n = - FI_EAGAIN F then (ReapOk, out, w1)
            else if n = - FI_EAVAIL F then
              (case read_error F w1 of
                 (Inl e, w2) \<Rightarrow> (ReapErr e, out, w2)
               | (Inr (context, result), w2) \<Rightarrow>
                   (case non_null_context context of
                      Inl e \<Rightarrow> (ReapErr e, out, w2)
                    | Inr context' \<Rightarrow> reap F limit (out @ [(context', result)]) w2))
            else (ReapErr (fabric_error F (as_i32 n) ''fi_cq_read''), out, w1))
      else (ReapOk, out, w))"
  by pat_completeness auto
termination
proof (relation "measure (\<lambda>(F, limit, out, w). limit - length out)", goal_cases)
  case (2 F limit out w want q n contexts w1 r)
  then have "0 < n" "n \<le> 16" by (auto simp: BATCH_def)
  then show ?case
    using push_entries_length [of "read_entries n contexts" out] 2 length_read_entries [of n contexts]
    by (auto simp: BATCH_def)
qed auto

declare reap.simps [simp del]

section \<open>The endpoint\<close>

record endpoint =
  ep_domain :: usize
  ep_requires_local_mr :: bool
  ep_uses_virtual_addressing :: bool
  ep_max_tx :: nat
  ep_peers :: peers

definition insert_peer ::
  "fabric \<Rightarrow> u64 \<Rightarrow> u8 list \<Rightarrow> endpoint \<Rightarrow> world \<Rightarrow> (dma_error, arc_id) result \<times> endpoint \<times> world" where
  "insert_peer F client address ep w =
     (let (res, p, w') = handle F client address (ep_peers ep) w in (res, ep\<lparr>ep_peers := p\<rparr>, w'))"

text \<open>The end of the scope that holds the handle \<open>insert_peer\<close> answered.\<close>

definition drop_peer :: "arc_id \<Rightarrow> endpoint \<Rightarrow> world \<Rightarrow> endpoint \<times> world" where
  "drop_peer i ep w =
     (let (p, w') = registered_drop i (ep_peers ep) w in (ep\<lparr>ep_peers := p\<rparr>, w'))"

definition release_peer :: "u64 \<Rightarrow> endpoint \<Rightarrow> world \<Rightarrow> endpoint \<times> world" where
  "release_peer client ep w =
     (let (p, w') = release client (ep_peers ep) w in (ep\<lparr>ep_peers := p\<rparr>, w'))"

definition pin_region ::
  "fabric \<Rightarrow> usize \<Rightarrow> usize \<Rightarrow> endpoint \<Rightarrow> world \<Rightarrow> (dma_error, unit) result \<times> world" where
  "pin_region F base len ep w =
     (if \<not> ep_requires_local_mr ep then (Inr (), w) else pin F (ep_domain ep) base len w)"

definition local_operand_of ::
  "fabric \<Rightarrow> ptr \<Rightarrow> usize \<Rightarrow> (log \<Rightarrow> cacheable_span option) \<Rightarrow> endpoint \<Rightarrow> world
    \<Rightarrow> (dma_error, local_operand) result \<times> world" where
  "local_operand_of F pointer len cacheable ep w =
     (if \<not> ep_requires_local_mr ep then (Inr \<lparr>lo_descriptor = 0, lo_lease = None\<rparr>, w)
      else operand_of F (ep_domain ep) pointer len cacheable w)"

definition connection_to :: "endpoint \<Rightarrow> arc_id \<Rightarrow> u64 \<Rightarrow> u64 \<Rightarrow> connection" where
  "connection_to ep peer remote_key remote_address =
     \<lparr>cn_peer = the (arc_value (pa_arcs (ep_peers ep)) peer), cn_remote_key = remote_key,
      cn_remote_address = remote_address\<rparr>"

section \<open>Which calls an operation logs\<close>

fun is_av :: "call \<Rightarrow> bool" where
  "is_av (AvInsert _ _ _) = True" | "is_av (AvRemove _) = True" | "is_av _ = False"

fun is_mr :: "call \<Rightarrow> bool" where
  "is_mr (MrReg _ _ _ _ _) = True" | "is_mr (MrClose _) = True" | "is_mr _ = False"

definition log_ext :: "(call \<Rightarrow> bool) \<Rightarrow> world \<Rightarrow> world \<Rightarrow> bool" where
  "log_ext P w w' \<longleftrightarrow> (\<exists>cs. list_all P cs \<and> w_log w' = cs @ w_log w)"

definition av_ext :: "world \<Rightarrow> world \<Rightarrow> bool" where
  "av_ext w w' \<longleftrightarrow> log_ext is_av w w' \<and> w_registry w' = w_registry w \<and> w_regs w' = w_regs w"

lemma log_ext_refl [simp, intro]: "log_ext P w w"
  by (simp add: log_ext_def)

lemma log_ext_trans: "log_ext P w1 w2 \<Longrightarrow> log_ext P w2 w3 \<Longrightarrow> log_ext P w1 w3"
  by (force simp: log_ext_def)

lemma log_ext_call: "P c \<Longrightarrow> log_ext P w (log_call c w)"
  by (auto simp: log_ext_def log_call_def intro: exI [of _ "[c]"])

lemma av_ext_refl [simp, intro]: "av_ext w w"
  by (simp add: av_ext_def)

lemma av_ext_trans: "av_ext w1 w2 \<Longrightarrow> av_ext w2 w3 \<Longrightarrow> av_ext w1 w3"
  by (auto simp: av_ext_def intro: log_ext_trans)

lemma regs_log_call [simp]: "w_regs (log_call c w) = w_regs w"
  by (simp add: log_call_def)

lemma av_ext_call: "is_av c \<Longrightarrow> av_ext w (log_call c w)"
  by (simp add: av_ext_def log_ext_call regs_log_call)

lemma av_ext_drop: "av_ext w (snd (registered_drop i p w))"
  by (simp add: registered_drop_def av_ext_call split: prod.splits option.splits)

lemma av_ext_drop_all: "av_ext w (snd (registered_drop_all is p w))"
proof (induction "is" arbitrary: p w)
  case (Cons i "is")
  show ?case
    using av_ext_trans [OF av_ext_drop [of w i p] Cons.IH] by (simp add: Let_def split_def)
qed simp

lemma av_ext_by_client_insert: "av_ext w (snd (by_client_insert client i p w))"
  by (simp add: by_client_insert_def Let_def av_ext_drop split: option.splits)

lemma av_ext_by_client_remove: "av_ext w (snd (by_client_remove client p w))"
  by (simp add: by_client_remove_def av_ext_drop split: option.splits)

lemma av_ext_insert_address: "av_ext w (snd (insert_address F address w))"
  by (simp add: insert_address_def Let_def split_def av_ext_call)

lemma av_ext_handle_new: "av_ext w (snd (snd (handle_new F client identity address p w)))"
proof -
  obtain p1 w1 where rem: "by_client_remove client p w = (p1, w1)"
    by (cases "by_client_remove client p w")
  then have e1: "av_ext w w1" using av_ext_by_client_remove [of w client p] by simp
  have "av_ext w w2" if "insert_address F b w1 = (r, w2)" for b r w2
    using av_ext_trans [OF e1 av_ext_insert_address [of w1 F b]] that by simp
  then show ?thesis
    using e1 rem av_ext_trans [OF _ av_ext_by_client_insert]
    by (auto simp: handle_new_def Let_def split_def split: sum.splits prod.splits)
      (metis fst_conv snd_conv prod.collapse)+
qed

lemma av_ext_handle:
  assumes "handle F client address p w = (res, p', w')"
  shows "av_ext w w'"
proof -
  have stale: "av_ext w (snd (registered_drop e (fst (evict e p1 w)) (snd (evict e p1 w))))" for e p1
    using av_ext_trans [OF av_ext_drop_all av_ext_drop] by (simp add: evict_def)
  have "av_ext w (snd (snd (handle F client address p w)))"
    using av_ext_trans [OF av_ext_refl av_ext_by_client_insert] av_ext_handle_new
      av_ext_trans [OF stale av_ext_handle_new]
    by (auto simp: handle_def Let_def split_def split: sum.splits option.splits bool.splits)
  then show ?thesis using assms by simp
qed

lemma log_ext_registration_drop: "log_ext is_mr w (registration_drop i w)"
  by (auto simp: registration_drop_def log_ext_def log_call_def
      split: prod.splits option.splits intro: exI [of _ "[]"] exI [of _ "[MrClose mr]" for mr])

lemma log_ext_regs [simp]: "log_ext P w (w'\<lparr>w_regs := h\<rparr>) = log_ext P w w'"
  "log_ext P w (w'\<lparr>w_registry := g\<rparr>) = log_ext P w w'"
  by (simp_all add: log_ext_def)

lemma log_ext_track: "log_ext is_mr w (track base end domain i w)"
proof -
  have "log_ext is_mr w (snd (track_locked base end domain i w))"
    by (simp add: track_locked_def Let_def registration_clone_def)
  then show ?thesis
    using log_ext_trans [OF _ log_ext_registration_drop]
    by (fastforce simp: track_def split: prod.splits option.splits)
qed

lemma log_ext_register: "log_ext is_mr w (snd (register_region F d p l w))"
  by (simp add: register_region_def Let_def split_def log_ext_call)

lemma log_ext_new: "log_ext P w (snd (registration_new mr w'))= log_ext P w w'"
  by (simp add: registration_new_def Let_def split_def)

lemma log_ext_widened:
  assumes "widened_register F d span p len e w = (res, w')"
  shows "log_ext is_mr w w'"
proof -
  obtain r1 w1 where one: "register_region F d (fst span) (snd span - fst span) w = (r1, w1)"
    by (cases "register_region F d (fst span) (snd span - fst span) w")
  obtain r2 w2 where two: "register_region F d p len w1 = (r2, w2)"
    by (cases "register_region F d p len w1")
  have "log_ext is_mr w w1" "log_ext is_mr w1 w2"
    using log_ext_register [of w F d "fst span" "snd span - fst span"]
      log_ext_register [of w1 F d p len] one two by simp_all
  then show ?thesis
    using assms one two
    by (auto simp: widened_register_def split: sum.splits if_splits intro: log_ext_trans)
qed

lemma log_ext_operand:
  assumes "operand_of F d p len c w = (res, w')"
  shows "log_ext is_mr w w'"
proof (cases "checked_add p len")
  case None
  then show ?thesis using assms by (auto simp: operand_of_def)
next
  case (Some e)
  obtain found w1 where cov: "covering p e d w = (found, w1)" by (cases "covering p e d w")
  have log1: "log_ext is_mr w w1"
    using cov by (auto simp: covering_def registration_clone_def split: option.splits)
  have wide: "log_ext is_mr w (snd (widened_register F d span p len e w1))" for span
    using log_ext_trans [OF log1 log_ext_widened] by (metis prod.collapse)
  have tracked: "log_ext is_mr w
      (track b l d i (snd (registration_new mr (snd (widened_register F d span p len e w1)))))"
    for span mr b l i
    using log_ext_trans [OF _ log_ext_track] wide by (simp add: log_ext_new)
  have "log_ext is_mr w (snd (operand_of F d p len c w))"
    using Some cov log1 wide tracked
    by (auto simp: operand_of_def Let_def split_def log_ext_new
        split: option.splits sum.splits if_splits)
  then show ?thesis using assms by simp
qed

lemma log_ext_pin: "log_ext is_mr w (snd (pin F d base len w))"
proof -
  obtain r w1 where reg: "register_region F d base len w = (r, w1)"
    by (cases "register_region F d base len w")
  have "log_ext is_mr w w1" using log_ext_register [of w F d base len] reg by simp
  then have "log_ext is_mr w (registration_drop i (track base e d i (snd (registration_new mr w1))))"
    for e i mr
    using log_ext_trans [OF log_ext_trans [OF _ log_ext_track] log_ext_registration_drop]
    by (simp add: log_ext_new)
  then show ?thesis
    using reg \<open>log_ext is_mr w w1\<close>
    by (auto simp: pin_def Let_def split_def split: option.splits sum.splits)
qed

section \<open>What the operations keep\<close>

lemma wire_append: "list_all P cs \<Longrightarrow> (\<And>c l. P c \<Longrightarrow> wire (c # l) = wire l) \<Longrightarrow> wire (cs @ l) = wire l"
  by (induction cs) auto

lemma wire_log_ext: "log_ext P w w' \<Longrightarrow> (\<And>c l. P c \<Longrightarrow> wire (c # l) = wire l) \<Longrightarrow>
   wire (w_log w') = wire (w_log w)"
  by (metis log_ext_def wire_append)

lemma wire_av [simp]: "is_av c \<Longrightarrow> wire (c # l) = wire l"
  by (cases c) auto

lemma wire_mr [simp]: "is_mr c \<Longrightarrow> wire (c # l) = wire l"
  by (cases c) auto

lemma av_ext_wire: "av_ext w w' \<Longrightarrow> wire (w_log w') = wire (w_log w)"
  by (auto simp: av_ext_def intro: wire_log_ext)

lemma mr_ext_wire: "log_ext is_mr w w' \<Longrightarrow> wire (w_log w') = wire (w_log w)"
  by (auto intro: wire_log_ext)

lemma mr_av_append:
  "list_all is_av cs \<Longrightarrow> mr_registered (cs @ l) = mr_registered l \<and> mr_closed (cs @ l) = mr_closed l"
proof (induction cs)
  case (Cons c cs)
  then show ?case by (cases c) auto
qed simp

lemma av_mr_append:
  "list_all is_mr cs \<Longrightarrow> av_inserted (cs @ l) = av_inserted l \<and> av_removed (cs @ l) = av_removed l"
proof (induction cs)
  case (Cons c cs)
  then show ?case by (cases c) auto
qed simp

lemma cache_ok_av_ext:
  assumes "av_ext w w'" "cache_ok L w"
  shows "cache_ok L w'"
proof -
  have inv: "cache_inv L w'" using assms by (simp add: av_ext_def cache_ok_def cache_inv_def)
  have "world_ext w w'" using assms by (auto simp: av_ext_def log_ext_def world_ext_def)
  then have "registry_backed w'"
    using assms by (intro registry_backed_ext [OF _ _ inv, of w]) (auto simp: av_ext_def cache_ok_def)
  then show ?thesis
    using assms inv by (auto simp: av_ext_def log_ext_def cache_ok_def mr_accounted_def mr_av_append)
qed

lemma peers_ok_mr_ext: "log_ext is_mr w w' \<Longrightarrow> peers_ok H p w \<Longrightarrow> peers_ok H p w'"
  by (auto simp: log_ext_def peers_ok_def av_accounted_def av_mr_append)

text \<open>
  The state of an endpoint between operations: the cache is sound with the leases \<open>L\<close> outside it,
  and the address table has no clones outside, every entry indexed.
\<close>

definition endpoint_ok :: "arc_id multiset \<Rightarrow> endpoint \<Rightarrow> world \<Rightarrow> bool" where
  "endpoint_ok L ep w \<longleftrightarrow> cache_ok L w \<and> peers_ok {#} (ep_peers ep) w \<and> indexed (ep_peers ep)"

text \<open>The same while an operation holds the handle of one peer.\<close>

definition endpoint_holding :: "arc_id multiset \<Rightarrow> arc_id \<Rightarrow> endpoint \<Rightarrow> world \<Rightarrow> bool" where
  "endpoint_holding L peer ep w \<longleftrightarrow>
     cache_ok L w \<and> peers_ok {#peer#} (ep_peers ep) w \<and> indexed (ep_peers ep)"

lemma endpoint_ok_cache [dest]: "endpoint_ok L ep w \<Longrightarrow> cache_ok L w"
  by (simp add: endpoint_ok_def)

lemma insert_peer_ok:
  assumes "endpoint_ok L ep w" "insert_peer F client address ep w = (res, ep', w')"
  shows "(case res of Inl e \<Rightarrow> endpoint_ok L ep' w' | Inr i \<Rightarrow> endpoint_holding L i ep' w')
    \<and> wire (w_log w') = wire (w_log w) \<and> ep' = ep\<lparr>ep_peers := ep_peers ep'\<rparr>"
proof -
  obtain p' where h: "handle F client address (ep_peers ep) w = (res, p', w')" "ep' = ep\<lparr>ep_peers := p'\<rparr>"
    using assms(2) by (auto simp: insert_peer_def Let_def split: prod.splits)
  have "peers_ok {#} (ep_peers ep) w" "indexed (ep_peers ep)" "cache_ok L w"
    using assms(1) by (auto simp: endpoint_ok_def)
  with handle_ok [OF _ h(1), of "{#}"] handle_indexed [OF _ _ h(1)] av_ext_handle [OF h(1)]
  show ?thesis
    by (auto simp: endpoint_ok_def endpoint_holding_def h(2) cache_ok_av_ext av_ext_wire
        split: sum.splits)
qed

lemma drop_peer_ok:
  assumes "endpoint_holding L i ep w" "drop_peer i ep w = (ep', w')"
  shows "endpoint_ok L ep' w' \<and> wire (w_log w') = wire (w_log w) \<and> ep' = ep\<lparr>ep_peers := ep_peers ep'\<rparr>
    \<and> pa_by_client (ep_peers ep') = pa_by_client (ep_peers ep)"
proof -
  obtain p' where d: "registered_drop i (ep_peers ep) w = (p', w')" "ep' = ep\<lparr>ep_peers := p'\<rparr>"
    using assms(2) by (auto simp: drop_peer_def Let_def split: prod.splits)
  have ok: "peers_ok {#i#} (ep_peers ep) w" "indexed (ep_peers ep)" "cache_ok L w"
    using assms(1) by (auto simp: endpoint_holding_def)
  have "indexed p'"
    by (rule indexed_live [OF ok(2)])
      (use registered_drop_tables [of i "ep_peers ep" w] live_drop [of "ep_peers ep" i w] d ok in auto)
  moreover have "av_ext w w'" using av_ext_drop [of w i "ep_peers ep"] d by simp
  ultimately show ?thesis
    using peers_ok_drop [OF ok(1) d(1)] ok registered_drop_tables(1) [of i "ep_peers ep" w] d
    by (auto simp: endpoint_ok_def cache_ok_av_ext av_ext_wire)
qed

lemma release_peer_ok:
  assumes "endpoint_ok L ep w" "release_peer client ep w = (ep', w')"
  shows "endpoint_ok L ep' w' \<and> wire (w_log w') = wire (w_log w) \<and> ep' = ep\<lparr>ep_peers := ep_peers ep'\<rparr>"
proof -
  obtain p' where r: "release client (ep_peers ep) w = (p', w')" "ep' = ep\<lparr>ep_peers := p'\<rparr>"
    using assms(2) by (auto simp: release_peer_def Let_def split: prod.splits)
  have "av_ext w w'" using av_ext_by_client_remove [of w client "ep_peers ep"] r
    by (simp add: release_def)
  then show ?thesis
    using release_inv [OF _ _ r(1)] assms(1)
    by (auto simp: endpoint_ok_def r(2) cache_ok_av_ext av_ext_wire)
qed

lemma pin_region_ok:
  assumes "endpoint_ok L ep w" "pin_region F base len ep w = (res, w')"
  shows "endpoint_ok L ep w' \<and> wire (w_log w') = wire (w_log w)"
proof (cases "ep_requires_local_mr ep")
  case False
  then show ?thesis using assms by (auto simp: pin_region_def)
next
  case True
  then have w': "w' = snd (pin F (ep_domain ep) base len w)" using assms(2) by (simp add: pin_region_def)
  show ?thesis
    unfolding w'
    using assms(1) cache_ok_pin [of L w F "ep_domain ep" base len] log_ext_pin [of w F "ep_domain ep" base len]
    by (auto simp: endpoint_ok_def peers_ok_mr_ext mr_ext_wire)
qed

lemma local_operand_ok:
  assumes ok: "endpoint_holding L i ep w" and run: "local_operand_of F pointer len c ep w = (res, w')"
  shows "(case res of Inl e \<Rightarrow> endpoint_holding L i ep w'
    | Inr lo \<Rightarrow> endpoint_holding (opt_mset (lo_lease lo) + L) i ep w')
    \<and> wire (w_log w') = wire (w_log w)"
proof (cases "ep_requires_local_mr ep")
  case False
  then show ?thesis using assms by (auto simp: local_operand_of_def)
next
  case True
  then have op: "operand_of F (ep_domain ep) pointer len c w = (res, w')"
    using run by (simp add: local_operand_of_def)
  note ext = log_ext_operand [OF op]
  show ?thesis
    using operand_of_ok [OF _ op, of L] ok ext
    by (auto simp: endpoint_holding_def mr_ext_wire peers_ok_mr_ext split: sum.splits)
qed

lemma endpoint_holding_drop_lease:
  "endpoint_holding (add_mset j L) i ep w \<Longrightarrow> endpoint_holding L i ep (registration_drop j w)"
  using cache_ok_drop [of j L w] peers_ok_mr_ext [OF log_ext_registration_drop [of w j]]
  by (auto simp: endpoint_holding_def)

lemma endpoint_ok_drop_lease:
  "endpoint_ok (add_mset j L) ep w \<Longrightarrow> endpoint_ok L ep (registration_drop j w)"
  using cache_ok_drop [of j L w] peers_ok_mr_ext [OF log_ext_registration_drop [of w j]]
  by (auto simp: endpoint_ok_def)

lemma wire_drop_lease [simp]: "wire (w_log (registration_drop j w)) = wire (w_log w)"
  by (rule mr_ext_wire [OF log_ext_registration_drop])

definition neutral_call :: "call \<Rightarrow> bool" where
  "neutral_call c \<longleftrightarrow> \<not> is_av c \<and> \<not> is_mr c"

lemma endpoint_ok_log: "neutral_call c \<Longrightarrow> endpoint_ok L ep w \<Longrightarrow> endpoint_ok L ep (log_call c w)"
  by (cases c) (auto simp: endpoint_ok_def neutral_call_def plain_call_def intro: cache_ok_log peers_ok_log)

lemma endpoint_holding_log:
  "neutral_call c \<Longrightarrow> endpoint_holding L i ep w \<Longrightarrow> endpoint_holding L i ep (log_call c w)"
  by (cases c) (auto simp: endpoint_holding_def neutral_call_def plain_call_def
      intro: cache_ok_log peers_ok_log)

section \<open>Reaping takes operations off the wire\<close>

text \<open>
  What the code relies on of the completion queue: an entry it reports belongs to an operation
  that was posted and not reported before, it reports no more entries than asked for, and it
  writes as many as it reports.
\<close>

definition cq_contract :: "fabric \<Rightarrow> bool" where
  "cq_contract F \<longleftrightarrow>
     (\<forall>l want. case fi_cq_read F l want of (n, contexts) \<Rightarrow>
        0 < n \<longrightarrow> n \<le> int want \<and> length contexts = nat n \<and> mset contexts \<subseteq># mset (wire l))
   \<and> (\<forall>l. case fi_cq_readerr F l of (n, entry) \<Rightarrow> 0 < n \<longrightarrow> err_op_context entry \<in> set (wire l))"

lemma cq_contract_read:
  "cq_contract F \<Longrightarrow> fi_cq_read F l want = (n, contexts) \<Longrightarrow> 0 < n \<Longrightarrow>
     n \<le> int want \<and> length contexts = nat n \<and> mset contexts \<subseteq># mset (wire l)"
  unfolding cq_contract_def by (metis (mono_tags, lifting) case_prod_conv)

lemma cq_contract_readerr:
  "cq_contract F \<Longrightarrow> fi_cq_readerr F l = (n, entry) \<Longrightarrow> 0 < n \<Longrightarrow> err_op_context entry \<in> set (wire l)"
  unfolding cq_contract_def by (metis (mono_tags, lifting) case_prod_conv)

lemma mset_fold_remove1: "mset cs \<subseteq># mset xs \<Longrightarrow> mset (fold remove1 cs xs) = mset xs - mset cs"
proof (induction cs arbitrary: xs)
  case (Cons c cs)
  then have "mset cs \<subseteq># mset (remove1 c xs)"
    by (simp add: insert_subset_eq_iff)
  with Cons.IH show ?case by simp
qed simp

lemma read_entries_exact: "0 < n \<Longrightarrow> n \<le> 16 \<Longrightarrow> length contexts = nat n \<Longrightarrow> read_entries n contexts = contexts"
  by (simp add: read_entries_def BATCH_def)

lemma reap_conserves:
  assumes "cq_contract F" and "0 \<notin> set (wire (w_log w))"
    and "reap F limit out w = (fin, out', w')"
  shows "mset (wire (w_log w')) + mset (map fst out') = mset (wire (w_log w)) + mset (map fst out)
    \<and> fin \<noteq> ReapPanic \<and> set (wire (w_log w')) \<subseteq> set (wire (w_log w))
    \<and> (endpoint_ok L ep w \<longrightarrow> endpoint_ok L ep w') \<and> length out' \<le> max limit (length out)"
  using assms
proof (induction F limit out w arbitrary: fin out' w' rule: reap.induct)
  case (1 F limit out w)
  let ?want = "min BATCH (limit - length out)"
  obtain n cs where q: "fi_cq_read F (w_log w) ?want = (n, cs)" by (cases "fi_cq_read F (w_log w) ?want")
  define w1 where "w1 = log_call (CqRead ?want n cs) w"
  have ok1: "endpoint_ok L ep w \<Longrightarrow> endpoint_ok L ep w1"
    unfolding w1_def by (rule endpoint_ok_log) (simp_all add: neutral_call_def)
  show ?case
  proof (cases "length out < limit")
    case False
    then show ?thesis using 1 by (simp add: reap.simps)
  next
    case more: True
    show ?thesis
    proof (cases "0 < n")
      case True
      have c: "n \<le> int ?want" "length cs = nat n" "mset cs \<subseteq># mset (wire (w_log w))"
        using cq_contract_read [OF "1.prems"(1) q True] by auto
      have small: "n \<le> 16" using c(1) by (simp add: BATCH_def)
      have entries: "read_entries n cs = cs" using True small c(2) by (rule read_entries_exact)
      have sub: "set cs \<subseteq> set (wire (w_log w))" using set_mset_mono [OF c(3)] by simp
      have push: "push_entries cs out = (None, out @ map (\<lambda>c. (c, Inr ())) cs)"
        using push_entries_all [of cs out] sub "1.prems"(2) by auto
      have wire1: "mset (wire (w_log w1)) = mset (wire (w_log w)) - mset cs"
        using mset_fold_remove1 [OF c(3)] True by (simp add: w1_def log_call_def)
      then have sub1: "set (wire (w_log w1)) \<subseteq> set (wire (w_log w))"
        by (metis diff_subset_eq_self set_mset_mono set_mset_mset)
      have all_wire: "mset (wire (w_log w1)) + mset cs = mset (wire (w_log w))"
        using wire1 c(3) by simp
      have not_big: "\<not> int BATCH < n" using small by (simp add: BATCH_def)
      have pushed: "(None, out @ map (\<lambda>c. (c, Inr ())) cs) = push_entries (read_entries n cs) out"
        using push entries by simp
      have non_null: "0 \<notin> set (wire (w_log w1))" using sub1 "1.prems"(2) by auto
      have rec: "reap F limit (out @ map (\<lambda>c. (c, Inr ())) cs) w1 = (fin, out', w')"
        using "1.prems"(3) more True q small push entries
        by (simp add: reap.simps [of F limit out w] w1_def BATCH_def Let_def)
      have IH: "mset (wire (w_log w')) + mset (map fst out')
          = mset (wire (w_log w1)) + mset (map fst (out @ map (\<lambda>c. (c, Inr () :: dma_error + unit)) cs))
          \<and> fin \<noteq> ReapPanic \<and> set (wire (w_log w')) \<subseteq> set (wire (w_log w1))
          \<and> (endpoint_ok L ep w1 \<longrightarrow> endpoint_ok L ep w')
          \<and> length out' \<le> max limit (length (out @ map (\<lambda>c. (c, Inr () :: dma_error + unit)) cs))"
        by (rule "1.IH"(1) [OF more refl refl q [symmetric] w1_def True not_big pushed refl
              "1.prems"(1) non_null rec])
      show ?thesis
        using IH all_wire [symmetric] sub1 ok1 c(1,2) more by (auto simp: comp_def)
    next
      case none: False
      have wire1: "wire (w_log w1) = wire (w_log w)" using none by (simp add: w1_def log_call_def)
      show ?thesis
      proof (cases "n \<noteq> - FI_EAGAIN F \<and> n = - FI_EAVAIL F")
        case False
        then have "w' = w1 \<and> out' = out \<and> fin \<noteq> ReapPanic"
          using "1.prems"(3) more none q
          by (auto simp: reap.simps [of F limit out w] w1_def Let_def split: if_splits)
        then show ?thesis using wire1 ok1 by simp
      next
        case True
        obtain m entry where e: "fi_cq_readerr F (w_log w1) = (m, entry)"
          by (cases "fi_cq_readerr F (w_log w1)")
        define w2 where "w2 = log_call (CqReadErr m entry) w1"
        have ok2: "endpoint_ok L ep w1 \<Longrightarrow> endpoint_ok L ep w2"
          unfolding w2_def by (rule endpoint_ok_log) (simp_all add: neutral_call_def)
        show ?thesis
        proof (cases "0 < m")
          case False
          then have err: "read_error F w1 = (Inl (fabric_error F (as_i32 m) ''fi_cq_readerr''), w2)"
            using e by (simp add: read_error_def w2_def)
          moreover have "wire (w_log w2) = wire (w_log w1)" using False by (simp add: w2_def log_call_def)
          moreover have "w' = w2 \<and> out' = out \<and> fin \<noteq> ReapPanic"
            using "1.prems"(3) more none True q err
            by (auto simp: reap.simps [of F limit out w] w1_def Let_def)
          ultimately show ?thesis using wire1 ok1 ok2 by simp
        next
          case got: True
          let ?c = "err_op_context entry" and ?r = "Inl (completion_error F entry)"
          have err: "read_error F w1 = (Inr (?c, ?r), w2)"
            using e got by (simp add: read_error_def w2_def)
          have on: "?c \<in> set (wire (w_log w1))" by (rule cq_contract_readerr [OF "1.prems"(1) e got])
          have nn: "non_null_context ?c = Inr ?c"
            using on wire1 "1.prems"(2) by (cases "?c = 0") (auto simp: non_null_context_def)
          have wire2: "wire (w_log w2) = remove1 ?c (wire (w_log w1))" using got by (simp add: w2_def log_call_def)
          then have sub2: "set (wire (w_log w2)) \<subseteq> set (wire (w_log w))"
            using wire1 set_remove1_subset by metis
          have non_null: "0 \<notin> set (wire (w_log w2))" using sub2 "1.prems"(2) by auto
          have rec: "reap F limit (out @ [(?c, ?r)]) w2 = (fin, out', w')"
            using "1.prems"(3) more none True q err nn
            by (auto simp: reap.simps [of F limit out w] w1_def Let_def)
          have IH: "mset (wire (w_log w')) + mset (map fst out')
              = mset (wire (w_log w2)) + mset (map fst (out @ [(?c, ?r)]))
              \<and> fin \<noteq> ReapPanic \<and> set (wire (w_log w')) \<subseteq> set (wire (w_log w2))
              \<and> (endpoint_ok L ep w2 \<longrightarrow> endpoint_ok L ep w')
              \<and> length out' \<le> max limit (length (out @ [(?c, ?r)]))"
            by (rule "1.IH"(2) [OF more refl refl q [symmetric] w1_def none conjunct1 [OF True]
                  conjunct2 [OF True] err [symmetric] refl refl nn "1.prems"(1) non_null rec])
          show ?thesis
            using IH wire2 wire1 sub2 on ok1 ok2 more by auto
        qed
      qed
    qed
  qed
qed

section \<open>Properties\<close>

text \<open>
  C12. Reaping neither loses nor repeats an operation: on a completion queue that keeps its
  contract, the operations on the wire before are exactly those still on the wire plus those
  handed out, at most as many are handed out as asked for, and \<open>reap\<close> never panics, whether or
  not it ends in an error. (It always ends: the recursion of the model is total.)
\<close>

theorem reap_conserves_operations:
  assumes "cq_contract F" and "0 \<notin> set (wire (w_log w))"
    and "reap F limit [] w = (fin, out, w')"
  shows "mset (wire (w_log w)) = mset (wire (w_log w')) + mset (map fst out)
    \<and> fin \<noteq> ReapPanic \<and> length out \<le> limit"
  using reap_conserves [OF assms] by simp

lemma loopback_contract: "cq_contract loopback"
proof -
  have "mset (take n (wire l)) \<subseteq># mset (wire l)" for n l
    by (metis append_take_drop_id mset_append mset_subset_eq_add_left)
  then show ?thesis by (auto simp: cq_contract_def loopback_def Let_def)
qed

definition witness_wire :: world where
  "witness_wire = snd (post_in loopback \<lparr>cn_peer = 0, cn_remote_key = 0, cn_remote_address = 0\<rparr>
     4096 8 0 7 empty_world)"

theorem reap_conserves_operations_witness:
  "\<exists>fin out w'. reap loopback 10 [] witness_wire = (fin, out, w')
    \<and> {#7#} = mset (wire (w_log w')) + mset (map fst out) \<and> fin \<noteq> ReapPanic \<and> length out \<le> 10"
proof -
  have on: "wire (w_log witness_wire) = [7]"
    by (simp add: witness_wire_def post_in_def loopback_def log_call_def empty_world_def Let_def)
  obtain fin out w' where run: "reap loopback 10 [] witness_wire = (fin, out, w')"
    by (cases "reap loopback 10 [] witness_wire")
  show ?thesis
    using reap_conserves_operations [OF loopback_contract _ run] run by (simp add: on)
qed

end
