(* ===== verification/Worker.thy ===== *)
theory Worker
  imports Endpoint
begin

text \<open>
  \<open>server_dma_worker.rs\<close> and the request types of \<open>server.rs\<close>: the event loop over one endpoint. The
  local variables of \<open>worker_main\<close> are the record \<open>worker\<close>; each block of the loop body is a
  definition, composed by \<open>pass\<close>. Boxes whose ownership went to a raw pointer are in \<open>wk_boxes\<close>,
  keyed by their address; \<open>reclaim\<close> takes one out. A reclaim of an address with no box, a count
  driven below zero and a panic of \<open>reap\<close> set \<open>wk_fault\<close>: the theory \<open>Worker_Invariant\<close> shows it is
  never set. Calls of \<open>complete_batch\<close>, jobs given to the pool and answered replies are appended to
  \<open>wk_batches\<close>, \<open>wk_jobs\<close> and \<open>wk_replies\<close>. Tracing spans have no counterpart.
\<close>

section \<open>Requests and completions: \<open>server.rs\<close>\<close>

datatype direction = ToPeer | FromPeer usize

record transfer_done =
  td_bytes :: usize
  td_checksum :: "u32 option"

record 'c completion =
  cm_caller_context :: 'c
  cm_outcome :: "(dma_error, transfer_done) result"

record 'c transfer_request =
  tr_client_id :: u64
  tr_peer_address :: "u8 list"
  tr_remote_key :: u64
  tr_remote_address :: u64
  tr_direction :: direction
  tr_want_checksum :: bool
  tr_caller_context :: 'c

text \<open>A reply slot is named by the order in which it was made.\<close>

type_synonym reply_id = nat

datatype 'c worker_message =
    TransferMsg "'c transfer_request"
  | AddPeer u64 "u8 list" reply_id
  | RemovePeer u64
  | Register usize usize reply_id

section \<open>State of the worker\<close>

record quiesce_read =
  qr_peer_address :: "u8 list"
  qr_remote_key :: u64
  qr_remote_address :: u64

record 'c in_flight =
  if_caller_context :: 'c
  if_client_id :: u64
  if_length :: usize
  if_want_checksum :: bool
  if_buffer_pointer :: ptr
  if_local_lease :: "arc_id option"
  if_quiesce :: "quiesce_read option"

text \<open>An owned \<open>Box<InFlight<T>>\<close>: its address, which never changes, and its contents.\<close>

type_synonym 'c boxed = "op_context \<times> 'c in_flight"

record 'c quiescing =
  q_inflight :: "'c boxed"
  q_read :: quiesce_read
  q_stalled_since :: "nat option"

record prepared =
  pd_context :: op_context
  pd_client_id :: u64
  pd_peer_address :: "u8 list"
  pd_remote_key :: u64
  pd_remote_address :: u64
  pd_pointer :: ptr
  pd_length :: usize
  pd_direction :: direction
  pd_stalled_since :: "nat option"

type_synonym 'c reaped_op = "'c boxed \<times> (dma_error, unit) result"

record 'c worker =
  wk_world :: world
  wk_endpoint :: endpoint
  wk_boxes :: "(op_context \<times> 'c in_flight) list"
  wk_outstanding :: nat
  wk_by_client :: "(u64 \<times> nat) list"
  wk_pending_removal :: "u64 list"
  wk_pending :: "prepared list"
  wk_quiescing :: "'c quiescing list"
  wk_in_flight :: nat
  wk_completions :: "'c completion list"
  wk_crc_pending :: "'c reaped_op list"
  wk_drain_spins :: nat
  wk_disconnected :: bool
  wk_batches :: "'c completion list list"
  wk_jobs :: "'c reaped_op list list"
  wk_replies :: "(reply_id \<times> (dma_error, unit) result) list"
  wk_fault :: bool

text \<open>
  What the worker is given: the fabric, the caller's implementation of \<open>Operands\<close>, the allocator
  of boxes (it answers an address for the list of addresses in use), the settings it reads and
  the address of its quiesce buffer. Times are in nanoseconds.
\<close>

record 'c config =
  cf_fabric :: fabric
  cf_operands :: "'c operands"
  cf_box_alloc :: "op_context list \<Rightarrow> op_context"
  cf_quiesce_writes :: bool
  cf_progress_deadline :: nat
  cf_cap :: nat
  cf_landing :: ptr

definition TARGET_COMPLETIONS :: nat where
  "TARGET_COMPLETIONS = 10"

definition in_flight_cap :: "nat \<Rightarrow> nat option \<Rightarrow> nat" where
  "in_flight_cap max_tx configured =
     (let requested = max (case configured of None \<Rightarrow> 64 | Some n \<Rightarrow> n) 1
      in if max_tx = 0 then requested else min requested max_tx)"

text \<open>The addresses of all boxes that exist.\<close>

definition live_boxes :: "'c worker \<Rightarrow> op_context list" where
  "live_boxes wk = map fst (wk_boxes wk) @ map (fst \<circ> q_inflight) (wk_quiescing wk)
     @ map (fst \<circ> fst) (wk_crc_pending wk) @ map (fst \<circ> fst) (concat (wk_jobs wk))"

section \<open>Durations in messages\<close>

text \<open>\<open>{:?}\<close> of a \<open>Duration\<close>: whole units and the fraction without trailing zeros.\<close>

fun pad_zeros :: "nat \<Rightarrow> string \<Rightarrow> string" where
  "pad_zeros width s = replicate (width - length s) (CHR ''0'') @ s"

definition strip_zeros :: "string \<Rightarrow> string" where
  "strip_zeros s = rev (dropWhile (\<lambda>c. c = CHR ''0'') (rev s))"

definition show_decimal :: "nat \<Rightarrow> nat \<Rightarrow> nat \<Rightarrow> string" where
  "show_decimal whole fraction width =
     (if fraction = 0 then show_nat whole
      else show_nat whole @ ''.'' @ strip_zeros (pad_zeros width (show_nat fraction)))"

definition show_duration :: "nat \<Rightarrow> string" where
  "show_duration ns =
     (if 1000000000 \<le> ns then show_decimal (ns div 1000000000) (ns mod 1000000000) 9 @ ''s''
      else if 1000000 \<le> ns then show_decimal (ns div 1000000) (ns mod 1000000) 6 @ ''ms''
      else if 1000 \<le> ns then
        show_decimal (ns div 1000) (ns mod 1000) 3 @ [char_of (194::nat), char_of (181::nat)] @ ''s''
      else show_nat ns @ ''ns'')"

section \<open>Completions\<close>

definition drop_lease :: "arc_id option \<Rightarrow> world \<Rightarrow> world" where
  "drop_lease lease w = (case lease of None \<Rightarrow> w | Some i \<Rightarrow> registration_drop i w)"

definition slice_bytes :: "fabric \<Rightarrow> log \<Rightarrow> ptr \<Rightarrow> usize \<Rightarrow> u8 list" where
  "slice_bytes F l pointer len = map (\<lambda>i. memory_at F l (pointer + word_of_nat i)) [0..<unat len]"

text \<open>\<open>InFlight::into_completion\<close>: the lease drops with what remains of the box.\<close>

definition into_completion ::
  "fabric \<Rightarrow> 'c in_flight \<Rightarrow> (dma_error, unit) result \<Rightarrow> world \<Rightarrow> 'c completion \<times> world" where
  "into_completion F op result w =
     (let outcome = (case result of
            Inl e \<Rightarrow> Inl e
          | Inr _ \<Rightarrow> Inr \<lparr>td_bytes = if_length op,
              td_checksum = (if if_want_checksum op
                then Some (checksum (crc_fast F)
                  (slice_bytes F (w_log w) (if_buffer_pointer op) (if_length op)))
                else None)\<rparr>)
      in (\<lparr>cm_caller_context = if_caller_context op, cm_outcome = outcome\<rparr>,
          drop_lease (if_local_lease op) w))"

fun complete_all :: "fabric \<Rightarrow> 'c reaped_op list \<Rightarrow> world \<Rightarrow> 'c completion list \<times> world" where
  "complete_all F [] w = ([], w)"
| "complete_all F ((b, result) # ops) w =
     (let (c, w') = into_completion F (snd b) result w;
          (cs, w'') = complete_all F ops w'
      in (c # cs, w''))"

section \<open>Accounting\<close>

definition release_outstanding :: "'c worker \<Rightarrow> 'c worker" where
  "release_outstanding wk = wk\<lparr>wk_outstanding := wk_outstanding wk - 1\<rparr>"

text \<open>The end of \<open>finish_op\<close>: the client's last operation drained.\<close>

definition drained :: "u64 \<Rightarrow> 'c worker \<Rightarrow> 'c worker" where
  "drained client wk =
     (let wk1 = wk\<lparr>wk_by_client := AList.delete client (wk_by_client wk)\<rparr>
      in if client \<in> set (wk_pending_removal wk)
         then (let (ep, w) = release_peer client (wk_endpoint wk) (wk_world wk)
               in wk1\<lparr>wk_pending_removal := removeAll client (wk_pending_removal wk),
                      wk_endpoint := ep, wk_world := w\<rparr>)
         else wk1)"

definition finish_op :: "u64 \<Rightarrow> 'c worker \<Rightarrow> 'c worker" where
  "finish_op client wk =
     (let wk1 = release_outstanding wk
      in case map_of (wk_by_client wk) client of
           None \<Rightarrow> drained client wk1
         | Some 0 \<Rightarrow> wk1\<lparr>wk_fault := True\<rparr>
         | Some (Suc n) \<Rightarrow>
             (if n = 0 then drained client wk1
              else wk1\<lparr>wk_by_client := AList.update client n (wk_by_client wk)\<rparr>))"

definition finish_unreaped :: "fabric \<Rightarrow> 'c in_flight \<Rightarrow> dma_error \<Rightarrow> 'c worker \<Rightarrow> 'c worker" where
  "finish_unreaped F op error wk =
     (let (c, w) = into_completion F op (Inl error) (wk_world wk)
      in finish_op (if_client_id op)
           (wk\<lparr>wk_world := w, wk_completions := wk_completions wk @ [c]\<rparr>))"

definition remove_or_defer :: "u64 \<Rightarrow> 'c worker \<Rightarrow> 'c worker" where
  "remove_or_defer client wk =
     (if (case map_of (wk_by_client wk) client of None \<Rightarrow> 0 | Some n \<Rightarrow> n) = 0
      then (let (ep, w) = release_peer client (wk_endpoint wk) (wk_world wk)
            in wk\<lparr>wk_endpoint := ep, wk_world := w\<rparr>)
      else wk\<lparr>wk_pending_removal := List.insert client (wk_pending_removal wk)\<rparr>)"

definition reclaim :: "op_context \<Rightarrow> 'c worker \<Rightarrow> 'c boxed option \<times> 'c worker" where
  "reclaim context wk =
     (case map_of (wk_boxes wk) context of
        None \<Rightarrow> (None, wk\<lparr>wk_fault := True\<rparr>)
      | Some op \<Rightarrow> (Some (context, op), wk\<lparr>wk_boxes := AList.delete context (wk_boxes wk)\<rparr>))"

section \<open>Intake\<close>

text \<open>The operand of a request, out of the caller's context (which \<open>allocate\<close> may change).\<close>

definition resolve_operand ::
  "'c operands \<Rightarrow> direction \<Rightarrow> 'c \<Rightarrow> (dma_error, ptr \<times> usize) result \<times> 'c" where
  "resolve_operand ops dir ctx =
     (case dir of
        ToPeer \<Rightarrow>
          (case op_source ops ctx of
             Some bytes \<Rightarrow> (Inr bytes, ctx)
           | None \<Rightarrow> (Inl (Fabric
               ''the caller context supplied no source bytes for a ToPeer transfer''), ctx))
      | FromPeer len \<Rightarrow>
          (case op_allocate ops ctx len of
             (Some (pointer, given), ctx') \<Rightarrow>
               (if given < len then
                  (Inl (Fabric (''the caller context allocated '' @ show_usize given
                     @ '' bytes for a '' @ show_usize len @ '' byte FromPeer transfer'')), ctx')
                else (Inr (pointer, len), ctx'))
           | (None, ctx') \<Rightarrow> (Inl (Fabric
               ''the caller context allocated no landing buffer for a FromPeer transfer''), ctx')))"

definition prepare ::
  "'c config \<Rightarrow> op_context \<Rightarrow> 'c transfer_request \<Rightarrow> ('c completion, prepared \<times> 'c in_flight) result"
where
  "prepare C address request =
     (case resolve_operand (cf_operands C) (tr_direction request) (tr_caller_context request) of
        (Inl error, ctx) \<Rightarrow> Inl \<lparr>cm_caller_context = ctx, cm_outcome = Inl error\<rparr>
      | (Inr (pointer, len), ctx) \<Rightarrow>
          (let op = \<lparr>if_caller_context = ctx, if_client_id = tr_client_id request, if_length = len,
                     if_want_checksum = tr_want_checksum request, if_buffer_pointer = pointer,
                     if_local_lease = None, if_quiesce = None\<rparr>;
               prep = \<lparr>pd_context = address, pd_client_id = tr_client_id request,
                     pd_peer_address = tr_peer_address request,
                     pd_remote_key = tr_remote_key request,
                     pd_remote_address = tr_remote_address request, pd_pointer = pointer,
                     pd_length = len, pd_direction = tr_direction request,
                     pd_stalled_since = None\<rparr>
           in if cf_quiesce_writes C \<and> tr_direction request = ToPeer \<and> 0 < len then
                (case checked_add (tr_remote_address request) (len - 1) of
                   None \<Rightarrow> Inl \<lparr>cm_caller_context = ctx,
                       cm_outcome = Inl (Fabric ''the peer's buffer range overflows'')\<rparr>
                 | Some last_byte \<Rightarrow>
                     Inr (prep, op\<lparr>if_quiesce := Some \<lparr>qr_peer_address = [],
                       qr_remote_key = tr_remote_key request, qr_remote_address = last_byte\<rparr>\<rparr>))
              else Inr (prep, op)))"

definition accept :: "'c config \<Rightarrow> 'c transfer_request \<Rightarrow> 'c worker \<Rightarrow> 'c worker" where
  "accept C request wk =
     (case prepare C (cf_box_alloc C (live_boxes wk)) request of
        Inr (prep, op) \<Rightarrow>
          (let n = (case map_of (wk_by_client wk) (pd_client_id prep) of None \<Rightarrow> 0 | Some n \<Rightarrow> n)
           in wk\<lparr>wk_by_client := AList.update (pd_client_id prep) (Suc n) (wk_by_client wk),
                 wk_pending := wk_pending wk @ [prep],
                 wk_boxes := (pd_context prep, op) # wk_boxes wk\<rparr>)
      | Inl c \<Rightarrow>
          (let wk1 = release_outstanding wk in wk1\<lparr>wk_completions := wk_completions wk @ [c]\<rparr>))"

text \<open>One message, from \<open>try_recv\<close> or from \<open>recv\<close>.\<close>

definition handle_message :: "'c config \<Rightarrow> 'c worker_message \<Rightarrow> 'c worker \<Rightarrow> 'c worker" where
  "handle_message C m wk =
     (case m of
        TransferMsg request \<Rightarrow> accept C request wk
      | AddPeer client address reply \<Rightarrow>
          (let (res, ep, w) = insert_peer (cf_fabric C) client address (wk_endpoint wk) (wk_world wk);
               (ep', w') = (case res of Inl _ \<Rightarrow> (ep, w) | Inr peer \<Rightarrow> drop_peer peer ep w);
               answer = (case res of Inl e \<Rightarrow> Inl e | Inr _ \<Rightarrow> Inr ())
           in wk\<lparr>wk_endpoint := ep', wk_world := w', wk_replies := wk_replies wk @ [(reply, answer)]\<rparr>)
      | RemovePeer client \<Rightarrow> remove_or_defer client wk
      | Register base len reply \<Rightarrow>
          (let (res, w) = pin_region (cf_fabric C) base len (wk_endpoint wk) (wk_world wk)
           in wk\<lparr>wk_world := w, wk_replies := wk_replies wk @ [(reply, res)]\<rparr>))"

definition intake :: "'c config \<Rightarrow> 'c worker_message list \<Rightarrow> bool \<Rightarrow> 'c worker \<Rightarrow> 'c worker" where
  "intake C msgs closed wk =
     (let wk1 = fold (handle_message C) msgs wk
      in if closed then wk1\<lparr>wk_disconnected := True\<rparr> else wk1)"

section \<open>Posting\<close>

text \<open>
  \<open>post\<close>. The raw pointer of the operation is dereferenced for its span and after the post; a
  context that owns no box is undefined behaviour, recorded as a fault.
\<close>

definition post ::
  "'c config \<Rightarrow> prepared \<Rightarrow> 'c worker \<Rightarrow> (dma_error, int) result \<times> prepared \<times> 'c worker" where
  "post C p wk =
     (let F = cf_fabric C
      in case insert_peer F (pd_client_id p) (pd_peer_address p) (wk_endpoint wk) (wk_world wk) of
           (Inl e, ep, w) \<Rightarrow> (Inl e, p, wk\<lparr>wk_endpoint := ep, wk_world := w\<rparr>)
         | (Inr peer, ep, w) \<Rightarrow>
             (case map_of (wk_boxes wk) (pd_context p) of
                None \<Rightarrow> (Inl (Fabric []), p, wk\<lparr>wk_fault := True\<rparr>)
              | Some op \<Rightarrow>
                  (case local_operand_of F (pd_pointer p) (pd_length p)
                          (\<lambda>l. op_cacheable_span (cf_operands C) l (if_caller_context op)) ep w of
                     (Inl e, w1) \<Rightarrow>
                       (let (ep', w2) = drop_peer peer ep w1
                        in (Inl e, p, wk\<lparr>wk_endpoint := ep', wk_world := w2\<rparr>))
                   | (Inr lo, w1) \<Rightarrow>
                       (let conn = connection_to ep peer (pd_remote_key p) (pd_remote_address p);
                            (code, w2) = (case pd_direction p of
                                ToPeer \<Rightarrow> post_out F conn (pd_pointer p) (pd_length p)
                                  (lo_descriptor lo) (pd_context p) w1
                              | FromPeer _ \<Rightarrow> post_in F conn (pd_pointer p) (pd_length p)
                                  (lo_descriptor lo) (pd_context p) w1)
                        in if 0 = code then
                             (let op' = op\<lparr>if_local_lease := lo_lease lo,
                                    if_quiesce := map_option
                                      (\<lambda>q. q\<lparr>qr_peer_address := pd_peer_address p\<rparr>) (if_quiesce op)\<rparr>;
                                  p' = (if if_quiesce op = None then p else p\<lparr>pd_peer_address := []\<rparr>);
                                  (ep', w3) = drop_peer peer ep (drop_lease (if_local_lease op) w2)
                              in (Inr code, p',
                                  wk\<lparr>wk_endpoint := ep', wk_world := w3,
                                     wk_boxes := AList.update (pd_context p) op' (wk_boxes wk)\<rparr>))
                           else
                             (let (ep', w3) = drop_peer peer ep (drop_lease (lo_lease lo) w2)
                              in (Inr code, p, wk\<lparr>wk_endpoint := ep', wk_world := w3\<rparr>))))))"

definition clock_now :: "fabric \<Rightarrow> world \<Rightarrow> nat \<times> world" where
  "clock_now F w = (let t = instant_now F (w_log w) in (t, log_call (Clock t) w))"

text \<open>
  \<open>stalled_since.get_or_insert_with(Instant::now)\<close> and then \<open>elapsed()\<close>, which reads the clock
  again and saturates.
\<close>

definition stall_clock :: "fabric \<Rightarrow> nat option \<Rightarrow> world \<Rightarrow> nat \<times> nat \<times> world" where
  "stall_clock F since w =
     (let (s, w1) = (case since of Some t \<Rightarrow> (t, w) | None \<Rightarrow> clock_now F w);
          (now, w2) = clock_now F w1
      in (s, now - s, w2))"

definition fail_post :: "'c config \<Rightarrow> prepared \<Rightarrow> dma_error \<Rightarrow> 'c worker \<Rightarrow> 'c worker" where
  "fail_post C p error wk =
     (case reclaim (pd_context p) wk of
        (None, wk1) \<Rightarrow> wk1
      | (Some b, wk1) \<Rightarrow> finish_unreaped (cf_fabric C) (snd b) error wk1)"

definition no_progress :: "string \<Rightarrow> nat \<Rightarrow> dma_error" where
  "no_progress what deadline =
     Transfer (what @ show_duration deadline @ '': peer unreachable or transmit queue stuck'')"

text \<open>One turn of the posting loop, for the operation just popped; whether it posted.\<close>

definition post_one :: "'c config \<Rightarrow> prepared \<Rightarrow> 'c worker \<Rightarrow> bool \<times> 'c worker" where
  "post_one C p wk =
     (let F = cf_fabric C
      in case post C p wk of
           (Inl error, p', wk1) \<Rightarrow> (False, fail_post C p' error wk1)
         | (Inr code, p', wk1) \<Rightarrow>
             (if code = 0 then (True, wk1\<lparr>wk_in_flight := Suc (wk_in_flight wk1)\<rparr>)
              else if code = - FI_EAGAIN F then
                (let (since, elapsed, w) = stall_clock F (pd_stalled_since p') (wk_world wk1);
                     p'' = p'\<lparr>pd_stalled_since := Some since\<rparr>;
                     wk2 = wk1\<lparr>wk_world := w\<rparr>
                 in if elapsed < cf_progress_deadline C
                    then (False, wk2\<lparr>wk_pending := wk_pending wk2 @ [p'']\<rparr>)
                    else (False, fail_post C p''
                      (no_progress ''no progress posting for '' (cf_progress_deadline C)) wk2))
              else (False, fail_post C p' (fabric_error F (as_i32 code) ''post'') wk1)))"

fun post_loop :: "'c config \<Rightarrow> nat \<Rightarrow> nat \<Rightarrow> 'c worker \<Rightarrow> nat \<times> 'c worker" where
  "post_loop C 0 posted wk = (posted, wk)"
| "post_loop C (Suc attempts) posted wk =
     (if wk_in_flight wk < cf_cap C then
        (case wk_pending wk of
           [] \<Rightarrow> (posted, wk)
         | p # rest \<Rightarrow>
             (let (ok, wk1) = post_one C p (wk\<lparr>wk_pending := rest\<rparr>)
              in post_loop C attempts (if ok then Suc posted else posted) wk1))
      else (posted, wk))"

section \<open>Reaping and quiescing\<close>

text \<open>One reaped operation.\<close>

definition dispatch :: "'c config \<Rightarrow> reaped \<Rightarrow> 'c worker \<Rightarrow> 'c worker" where
  "dispatch C entry wk =
     (case reclaim (fst entry) wk of
        (None, wk1) \<Rightarrow> wk1
      | (Some (address, op), wk1) \<Rightarrow>
          (case (snd entry, if_quiesce op) of
             (Inr _, Some read) \<Rightarrow>
               wk1\<lparr>wk_quiescing := wk_quiescing wk1 @
                 [\<lparr>q_inflight = (address, op\<lparr>if_quiesce := None\<rparr>), q_read = read,
                   q_stalled_since = None\<rparr>]\<rparr>
           | _ \<Rightarrow>
               (let wk2 = finish_op (if_client_id op) wk1
                in if if_want_checksum op
                   then wk2\<lparr>wk_crc_pending := wk_crc_pending wk2 @ [((address, op), snd entry)]\<rparr>
                   else (let (c, w) = into_completion (cf_fabric C) op (snd entry) (wk_world wk2)
                         in wk2\<lparr>wk_world := w, wk_completions := wk_completions wk2 @ [c]\<rparr>))))"

definition reap_entries :: "'c config \<Rightarrow> 'c worker \<Rightarrow> reaped list \<times> 'c worker" where
  "reap_entries C wk =
     (let (fin, reaped, w) = reap (cf_fabric C) TARGET_COMPLETIONS [] (wk_world wk)
      in (reaped, wk\<lparr>wk_world := w, wk_in_flight := wk_in_flight wk - length reaped,
                   wk_fault := (wk_fault wk \<or> fin = ReapPanic)\<rparr>))"

definition reap_pass :: "'c config \<Rightarrow> 'c worker \<Rightarrow> bool \<times> 'c worker" where
  "reap_pass C wk =
     (let (reaped, wk1) = reap_entries C wk in (reaped \<noteq> [], fold (dispatch C) reaped wk1))"

datatype 'c quiesce_post =
    QPosted
  | QAgain "'c quiescing"
  | QFailed "'c boxed" dma_error

definition post_quiesce :: "'c config \<Rightarrow> 'c quiescing \<Rightarrow> 'c worker \<Rightarrow> 'c quiesce_post \<times> 'c worker" where
  "post_quiesce C q wk =
     (let F = cf_fabric C; (address, op) = q_inflight q; read = q_read q
      in case insert_peer F (if_client_id op) (qr_peer_address read) (wk_endpoint wk) (wk_world wk) of
           (Inl e, ep, w) \<Rightarrow> (QFailed (address, op) e, wk\<lparr>wk_endpoint := ep, wk_world := w\<rparr>)
         | (Inr peer, ep, w) \<Rightarrow>
             (case local_operand_of F (cf_landing C) 1 (\<lambda>_. None) ep w of
                (Inl e, w1) \<Rightarrow>
                  (let (ep', w2) = drop_peer peer ep w1
                   in (QFailed (address, op) e, wk\<lparr>wk_endpoint := ep', wk_world := w2\<rparr>))
              | (Inr lo, w1) \<Rightarrow>
                  (let op' = op\<lparr>if_local_lease := lo_lease lo\<rparr>;
                       w2 = drop_lease (if_local_lease op) w1;
                       conn = connection_to ep peer (qr_remote_key read) (qr_remote_address read);
                       (code, w3) = post_in F conn (cf_landing C) 1 (lo_descriptor lo) address w2;
                       (ep', w4) = drop_peer peer ep w3;
                       wk1 = wk\<lparr>wk_endpoint := ep', wk_world := w4\<rparr>
                   in if 0 = code
                      then (QPosted, wk1\<lparr>wk_boxes := (address, op') # wk_boxes wk1\<rparr>)
                      else if code = - FI_EAGAIN F
                      then (QAgain \<lparr>q_inflight = (address, op'), q_read = read,
                              q_stalled_since = q_stalled_since q\<rparr>, wk1)
                      else (QFailed (address, op') (fabric_error F (as_i32 code) ''quiesce read''),
                            wk1))))"

definition quiesce_one :: "'c config \<Rightarrow> 'c quiescing \<Rightarrow> 'c worker \<Rightarrow> bool \<times> 'c worker" where
  "quiesce_one C q wk =
     (let F = cf_fabric C
      in case post_quiesce C q wk of
           (QPosted, wk1) \<Rightarrow> (True, wk1\<lparr>wk_in_flight := Suc (wk_in_flight wk1)\<rparr>)
         | (QAgain q', wk1) \<Rightarrow>
             (let (since, elapsed, w) = stall_clock F (q_stalled_since q') (wk_world wk1);
                  q'' = q'\<lparr>q_stalled_since := Some since\<rparr>;
                  wk2 = wk1\<lparr>wk_world := w\<rparr>
              in if elapsed < cf_progress_deadline C
                 then (False, wk2\<lparr>wk_quiescing := wk_quiescing wk2 @ [q'']\<rparr>)
                 else (False, finish_unreaped F (snd (q_inflight q''))
                   (no_progress ''no progress posting the quiesce read for ''
                     (cf_progress_deadline C)) wk2))
         | (QFailed b error, wk1) \<Rightarrow> (False, finish_unreaped F (snd b) error wk1))"

fun quiesce_loop :: "'c config \<Rightarrow> nat \<Rightarrow> nat \<Rightarrow> 'c worker \<Rightarrow> nat \<times> 'c worker" where
  "quiesce_loop C 0 posted wk = (posted, wk)"
| "quiesce_loop C (Suc attempts) posted wk =
     (case wk_quiescing wk of
        [] \<Rightarrow> (posted, wk)
      | q # rest \<Rightarrow>
          (let (ok, wk1) = quiesce_one C q (wk\<lparr>wk_quiescing := rest\<rparr>)
           in quiesce_loop C attempts (if ok then Suc posted else posted) wk1))"

section \<open>The loop\<close>

definition should_flush_crc :: "nat \<Rightarrow> nat \<Rightarrow> bool \<Rightarrow> bool \<Rightarrow> bool" where
  "should_flush_crc batched posted reaped_any about_to_park \<longleftrightarrow>
     0 < batched \<and> (TARGET_COMPLETIONS \<le> batched \<or> (0 = posted \<and> \<not> reaped_any) \<or> about_to_park)"

definition submit_crc_batch :: "'c worker \<Rightarrow> 'c worker" where
  "submit_crc_batch wk =
     wk\<lparr>wk_jobs := wk_jobs wk @ [wk_crc_pending wk], wk_crc_pending := []\<rparr>"

definition idle :: "'c worker \<Rightarrow> bool" where
  "idle wk \<longleftrightarrow> wk_pending wk = [] \<and> wk_quiescing wk = [] \<and> wk_in_flight wk = 0"

text \<open>
  How a pass ends: the loop goes around (at once, after a spin or a yield), blocks in \<open>recv\<close>, or
  leaves.
\<close>

datatype flow = Loop | Park | Exit

definition after_delivery :: "bool \<Rightarrow> 'c worker \<Rightarrow> flow \<times> 'c worker" where
  "after_delivery was_idle wk =
     (if wk_disconnected wk \<and> was_idle then (Exit, wk)
      else if was_idle then (Park, wk) else (Loop, wk))"

definition deliver :: "nat \<Rightarrow> bool \<Rightarrow> 'c worker \<Rightarrow> flow \<times> 'c worker" where
  "deliver posted reaped_any wk =
     (let wk1 = (if should_flush_crc (length (wk_crc_pending wk)) posted reaped_any (idle wk)
                 then submit_crc_batch wk else wk)
      in if wk_completions wk1 \<noteq> [] then
           (if length (wk_completions wk1) < TARGET_COMPLETIONS \<and> wk_drain_spins wk1 < 10
            then (Loop, wk1\<lparr>wk_drain_spins := Suc (wk_drain_spins wk1)\<rparr>)
            else after_delivery (idle wk) (wk1\<lparr>wk_drain_spins := 0,
                   wk_batches := wk_batches wk1 @ [wk_completions wk1], wk_completions := []\<rparr>))
         else after_delivery (idle wk) wk1)"

definition pass :: "'c config \<Rightarrow> 'c worker_message list \<Rightarrow> bool \<Rightarrow> 'c worker \<Rightarrow> flow \<times> 'c worker" where
  "pass C msgs closed wk =
     (let wk1 = intake C msgs closed wk;
          (posted, wk2) = post_loop C (length (wk_pending wk1)) 0 wk1;
          (reaped_any, wk3) = reap_pass C wk2;
          (posted', wk4) = quiesce_loop C (length (wk_quiescing wk3)) posted wk3
      in deliver posted' reaped_any wk4)"

text \<open>Shutdown, and the drop of the endpoint at the end of \<open>worker_main\<close>.\<close>

fun fail_pending :: "fabric \<Rightarrow> prepared list \<Rightarrow> 'c worker \<Rightarrow> 'c completion list \<times> 'c worker" where
  "fail_pending F [] wk = ([], wk)"
| "fail_pending F (p # ps) wk =
     (case reclaim (pd_context p) wk of
        (None, wk1) \<Rightarrow> fail_pending F ps wk1
      | (Some b, wk1) \<Rightarrow>
          (let (c, w) = into_completion F (snd b) (Inl (Fabric ''fabric worker is gone'')) (wk_world wk1);
               (cs, wk2) = fail_pending F ps (wk1\<lparr>wk_world := w\<rparr>)
           in (c # cs, wk2)))"

definition close_endpoint :: "'c worker \<Rightarrow> 'c worker" where
  "close_endpoint wk =
     (let w1 = clear_regions (ep_domain (wk_endpoint wk)) (wk_world wk);
          (p, w2) = clear_peers (ep_peers (wk_endpoint wk)) w1
      in wk\<lparr>wk_endpoint := (wk_endpoint wk)\<lparr>ep_peers := p\<rparr>, wk_world := w2\<rparr>)"

definition shutdown :: "'c config \<Rightarrow> 'c worker \<Rightarrow> 'c worker" where
  "shutdown C wk =
     (let (failed, wk1) = fail_pending (cf_fabric C) (wk_pending wk) (wk\<lparr>wk_pending := []\<rparr>);
          (finished, w) = complete_all (cf_fabric C) (wk_crc_pending wk1) (wk_world wk1);
          leftover = failed @ finished;
          wk2 = wk1\<lparr>wk_world := w, wk_crc_pending := []\<rparr>;
          wk3 = (if leftover \<noteq> [] then wk2\<lparr>wk_batches := wk_batches wk2 @ [leftover]\<rparr> else wk2)
      in close_endpoint wk3)"

text \<open>A pool thread runs one of the jobs handed to it: hash, complete, deliver.\<close>

definition run_crc_job :: "'c config \<Rightarrow> nat \<Rightarrow> 'c worker \<Rightarrow> 'c worker" where
  "run_crc_job C k wk =
     (let (cs, w) = complete_all (cf_fabric C) (wk_jobs wk ! k) (wk_world wk)
      in wk\<lparr>wk_world := w, wk_jobs := take k (wk_jobs wk) @ drop (Suc k) (wk_jobs wk),
            wk_batches := wk_batches wk @ [cs]\<rparr>)"

definition worker_new :: "endpoint \<Rightarrow> world \<Rightarrow> 'c worker" where
  "worker_new ep w = \<lparr>wk_world = w, wk_endpoint = ep, wk_boxes = [], wk_outstanding = 0,
     wk_by_client = [], wk_pending_removal = [], wk_pending = [], wk_quiescing = [],
     wk_in_flight = 0, wk_completions = [], wk_crc_pending = [], wk_drain_spins = 0,
     wk_disconnected = False, wk_batches = [], wk_jobs = [], wk_replies = [], wk_fault = False\<rparr>"

end
