(* ===== verification/Worker_Invariant.thy ===== *)
theory Worker_Invariant
  imports Worker
begin

text \<open>
  The invariant of the worker and that every step of its loop keeps it: each box is owned in
  exactly one place, the operations on the wire are exactly the boxes given to libfabric, the
  counts per client and per device are exact, every lease is held by one box, and the contexts
  of the requests are conserved. The locale \<open>worker_env\<close> states what the worker relies on: that
  the allocator answers fresh addresses, that the completion queue keeps its contract, and that
  \<open>allocate\<close> does not exchange the caller's context for another one.
\<close>

section \<open>Who owns what\<close>

text \<open>
  All boxes: those behind raw pointers, those waiting to post a quiesce read, those waiting for
  their checksum here or in a job of the pool, and the boxes \<open>B\<close> held by local variables.
\<close>

definition all_boxes :: "'c worker \<Rightarrow> 'c boxed multiset \<Rightarrow> 'c boxed multiset" where
  "all_boxes wk B = mset (wk_boxes wk) + mset (map q_inflight (wk_quiescing wk))
     + mset (map fst (wk_crc_pending wk)) + mset (map fst (concat (wk_jobs wk))) + B"

text \<open>The clients charged for an operation, with the charges \<open>D\<close> of operations being finished.\<close>

definition charged :: "'c worker \<Rightarrow> u64 multiset \<Rightarrow> u64 multiset" where
  "charged wk D = image_mset (if_client_id \<circ> snd)
     (mset (wk_boxes wk) + mset (map q_inflight (wk_quiescing wk))) + D"

definition box_leases :: "'c boxed multiset \<Rightarrow> arc_id multiset" where
  "box_leases M = \<Sum>\<^sub># (image_mset (\<lambda>b. opt_mset (if_local_lease (snd b))) M)"

definition tags :: "('c \<Rightarrow> 't) \<Rightarrow> 'c worker \<Rightarrow> 'c boxed multiset \<Rightarrow> 't multiset" where
  "tags tag wk B = image_mset (\<lambda>b. tag (if_caller_context (snd b))) (all_boxes wk B)
     + image_mset (\<lambda>c. tag (cm_caller_context c))
         (mset (wk_completions wk) + mset (concat (wk_batches wk)))"

definition addrs_ok :: "'c boxed multiset \<Rightarrow> bool" where
  "addrs_ok M \<longleftrightarrow> (\<forall>a. count (image_mset fst M) a \<le> 1) \<and> 0 \<notin># image_mset fst M"

definition count_of :: "(u64 \<times> nat) list \<Rightarrow> u64 \<Rightarrow> nat" where
  "count_of m c = (case map_of m c of None \<Rightarrow> 0 | Some n \<Rightarrow> n)"

text \<open>
  \<open>X\<close> are the contexts of raw boxes held by local variables, \<open>k\<close> the posts not yet counted in
  \<open>in_flight\<close>, \<open>n\<close> the transfers submitted and still in the channel, \<open>T\<close> the contexts taken in.
\<close>

definition winv ::
  "('c \<Rightarrow> 't) \<Rightarrow> op_context multiset \<Rightarrow> 'c boxed multiset \<Rightarrow> u64 multiset \<Rightarrow> nat \<Rightarrow> nat
    \<Rightarrow> 't multiset \<Rightarrow> 'c worker \<Rightarrow> bool" where
  "winv tag X B D k n T wk \<longleftrightarrow>
     addrs_ok (all_boxes wk B)
   \<and> mset (map fst (wk_boxes wk)) = X + mset (map pd_context (wk_pending wk)) + mset (wire (w_log (wk_world wk)))
   \<and> wk_in_flight wk + k = length (wire (w_log (wk_world wk)))
   \<and> hm_wf (wk_by_client wk)
   \<and> (\<forall>c. count_of (wk_by_client wk) c = count (charged wk D) c \<and> map_of (wk_by_client wk) c \<noteq> Some 0)
   \<and> wk_outstanding wk = n + size (charged wk D)
   \<and> set (wk_pending_removal wk) \<subseteq> set_mset (charged wk D)
   \<and> endpoint_ok (box_leases (all_boxes wk B)) (wk_endpoint wk) (wk_world wk)
   \<and> T = tags tag wk B
   \<and> \<not> wk_fault wk"

text \<open>None of the other fields matters to ownership.\<close>

lemma all_boxes_fields [simp]:
  "\<And>x. all_boxes (wk\<lparr>wk_world := x\<rparr>) B = all_boxes wk B"
  "\<And>x. all_boxes (wk\<lparr>wk_endpoint := x\<rparr>) B = all_boxes wk B"
  "\<And>x. all_boxes (wk\<lparr>wk_outstanding := x\<rparr>) B = all_boxes wk B"
  "\<And>x. all_boxes (wk\<lparr>wk_by_client := x\<rparr>) B = all_boxes wk B"
  "\<And>x. all_boxes (wk\<lparr>wk_pending_removal := x\<rparr>) B = all_boxes wk B"
  "\<And>x. all_boxes (wk\<lparr>wk_pending := x\<rparr>) B = all_boxes wk B"
  "\<And>x. all_boxes (wk\<lparr>wk_in_flight := x\<rparr>) B = all_boxes wk B"
  "\<And>x. all_boxes (wk\<lparr>wk_drain_spins := x\<rparr>) B = all_boxes wk B"
  "\<And>x. all_boxes (wk\<lparr>wk_disconnected := x\<rparr>) B = all_boxes wk B"
  "\<And>x. all_boxes (wk\<lparr>wk_replies := x\<rparr>) B = all_boxes wk B"
  "\<And>x. all_boxes (wk\<lparr>wk_fault := x\<rparr>) B = all_boxes wk B"
  "\<And>x. all_boxes (wk\<lparr>wk_completions := x\<rparr>) B = all_boxes wk B"
  "\<And>x. all_boxes (wk\<lparr>wk_batches := x\<rparr>) B = all_boxes wk B"
  by (simp_all add: all_boxes_def)

lemma charged_fields [simp]:
  "\<And>x. charged (wk\<lparr>wk_world := x\<rparr>) D = charged wk D"
  "\<And>x. charged (wk\<lparr>wk_endpoint := x\<rparr>) D = charged wk D"
  "\<And>x. charged (wk\<lparr>wk_outstanding := x\<rparr>) D = charged wk D"
  "\<And>x. charged (wk\<lparr>wk_by_client := x\<rparr>) D = charged wk D"
  "\<And>x. charged (wk\<lparr>wk_pending_removal := x\<rparr>) D = charged wk D"
  "\<And>x. charged (wk\<lparr>wk_pending := x\<rparr>) D = charged wk D"
  "\<And>x. charged (wk\<lparr>wk_in_flight := x\<rparr>) D = charged wk D"
  "\<And>x. charged (wk\<lparr>wk_drain_spins := x\<rparr>) D = charged wk D"
  "\<And>x. charged (wk\<lparr>wk_disconnected := x\<rparr>) D = charged wk D"
  "\<And>x. charged (wk\<lparr>wk_replies := x\<rparr>) D = charged wk D"
  "\<And>x. charged (wk\<lparr>wk_fault := x\<rparr>) D = charged wk D"
  "\<And>x. charged (wk\<lparr>wk_completions := x\<rparr>) D = charged wk D"
  "\<And>x. charged (wk\<lparr>wk_batches := x\<rparr>) D = charged wk D"
  "\<And>x. charged (wk\<lparr>wk_crc_pending := x\<rparr>) D = charged wk D"
  "\<And>x. charged (wk\<lparr>wk_jobs := x\<rparr>) D = charged wk D"
  by (simp_all add: charged_def)

lemma tags_fields [simp]:
  "\<And>x. tags tag (wk\<lparr>wk_world := x\<rparr>) B = tags tag wk B"
  "\<And>x. tags tag (wk\<lparr>wk_endpoint := x\<rparr>) B = tags tag wk B"
  "\<And>x. tags tag (wk\<lparr>wk_outstanding := x\<rparr>) B = tags tag wk B"
  "\<And>x. tags tag (wk\<lparr>wk_by_client := x\<rparr>) B = tags tag wk B"
  "\<And>x. tags tag (wk\<lparr>wk_pending_removal := x\<rparr>) B = tags tag wk B"
  "\<And>x. tags tag (wk\<lparr>wk_pending := x\<rparr>) B = tags tag wk B"
  "\<And>x. tags tag (wk\<lparr>wk_in_flight := x\<rparr>) B = tags tag wk B"
  "\<And>x. tags tag (wk\<lparr>wk_drain_spins := x\<rparr>) B = tags tag wk B"
  "\<And>x. tags tag (wk\<lparr>wk_disconnected := x\<rparr>) B = tags tag wk B"
  "\<And>x. tags tag (wk\<lparr>wk_replies := x\<rparr>) B = tags tag wk B"
  "\<And>x. tags tag (wk\<lparr>wk_fault := x\<rparr>) B = tags tag wk B"
  by (simp_all add: tags_def)

lemma addrs_ok_mono: "addrs_ok (M + N) \<Longrightarrow> addrs_ok M"
  by (auto simp: addrs_ok_def) (metis add_leD1)

lemma addrs_ok_images: "image_mset fst M = image_mset fst N \<Longrightarrow> addrs_ok M = addrs_ok N"
  by (simp add: addrs_ok_def)

lemma addrs_ok_distinct:
  assumes "addrs_ok (mset m + N)"
  shows "hm_wf m"
proof -
  have "count (mset (map fst m)) a \<le> 1" for a
    using assms [THEN addrs_ok_mono] by (simp add: addrs_ok_def)
  then have "count (mset (map fst m)) a = (if a \<in> set (map fst m) then 1 else 0)" for a
    by (metis count_eq_zero_iff le_antisym le_numeral_extra(4) not_gr_zero not_less_eq_eq
        One_nat_def less_Suc0 linorder_not_less set_mset_mset)
  then show ?thesis unfolding hm_wf_def by (subst distinct_count_atmost_1) auto
qed

lemma winv_boxes_wf: "winv tag X B D k n T wk \<Longrightarrow> hm_wf (wk_boxes wk)"
  using addrs_ok_distinct [of "wk_boxes wk"] by (auto simp: winv_def all_boxes_def add.assoc)

lemma box_leases_simps [simp]:
  "box_leases {#} = {#}"
  "box_leases (add_mset b M) = opt_mset (if_local_lease (snd b)) + box_leases M"
  "box_leases (M + N) = box_leases M + box_leases N"
  by (simp_all add: box_leases_def)

lemma raw_box:
  assumes "winv tag (add_mset a X) B D k n T wk"
  shows "\<exists>op. map_of (wk_boxes wk) a = Some op"
proof -
  have "a \<in># mset (map fst (wk_boxes wk))" using assms by (simp add: winv_def)
  then show ?thesis by (auto intro: weak_map_of_SomeI)
qed

section \<open>Taking a box back\<close>

lemma reclaim_ok:
  assumes inv: "winv tag (add_mset a X) B D k n T wk"
  shows "\<exists>op wk1. reclaim a wk = (Some (a, op), wk1) \<and> map_of (wk_boxes wk) a = Some op
    \<and> winv tag X (add_mset (a, op) B) (add_mset (if_client_id op) D) k n T wk1
    \<and> wk_pending wk1 = wk_pending wk"
proof -
  obtain op where op: "map_of (wk_boxes wk) a = Some op" using raw_box [OF inv] by blast
  let ?wk = "wk\<lparr>wk_boxes := AList.delete a (wk_boxes wk)\<rparr>"
  have del: "mset (wk_boxes wk) = add_mset (a, op) (mset (AList.delete a (wk_boxes wk)))"
    using mset_delete [OF winv_boxes_wf [OF inv] op] by simp
  have all: "all_boxes ?wk (add_mset (a, op) B) = all_boxes wk B"
    by (simp add: all_boxes_def del)
  have ch: "charged ?wk (add_mset (if_client_id op) D) = charged wk D"
    by (simp add: charged_def del)
  have "mset (map fst (wk_boxes wk)) = add_mset a (mset (map fst (AList.delete a (wk_boxes wk))))"
    using arg_cong [OF del, of "image_mset fst"] by simp
  then have "winv tag X (add_mset (a, op) B) (add_mset (if_client_id op) D) k n T ?wk"
    using inv by (simp add: winv_def all ch tags_def)
  then show ?thesis using op by (auto simp: reclaim_def)
qed

section \<open>Finishing\<close>

lemma drop_lease_ok:
  assumes "endpoint_ok (opt_mset lease + L) ep w"
  shows "endpoint_ok L ep (drop_lease lease w)" "wire (w_log (drop_lease lease w)) = wire (w_log w)"
  using assms by (auto simp: drop_lease_def endpoint_ok_drop_lease split: option.splits)

lemma into_completion_world: "snd (into_completion F op r w) = drop_lease (if_local_lease op) w"
  by (simp add: into_completion_def)

lemma into_completion_context [simp]:
  "cm_caller_context (fst (into_completion F op r w)) = if_caller_context op"
  by (simp add: into_completion_def)

lemma complete_ok:
  assumes inv: "winv tag X (add_mset (a, op) B) D k n T wk"
    and run: "into_completion F op r (wk_world wk) = (c, w)"
  shows "winv tag X B D k n T (wk\<lparr>wk_world := w, wk_completions := wk_completions wk @ [c]\<rparr>)"
proof -
  have w: "w = drop_lease (if_local_lease op) (wk_world wk)"
    and c: "cm_caller_context c = if_caller_context op"
    using run into_completion_world [of F op r "wk_world wk"]
      into_completion_context [of F op r "wk_world wk"] by simp_all
  let ?wk = "wk\<lparr>wk_world := w, wk_completions := wk_completions wk @ [c]\<rparr>"
  have all: "all_boxes wk (add_mset (a, op) B) = add_mset (a, op) (all_boxes ?wk B)"
    by (simp add: all_boxes_def)
  have "endpoint_ok (opt_mset (if_local_lease op) + box_leases (all_boxes ?wk B))
      (wk_endpoint wk) (wk_world wk)"
    using inv unfolding winv_def all by simp
  note lease = drop_lease_ok [OF this]
  have "addrs_ok (all_boxes ?wk B)"
    using inv addrs_ok_mono [of "all_boxes ?wk B" "{#(a, op)#}"] unfolding winv_def all by simp
  moreover have "charged ?wk D = charged wk D" by (simp add: charged_def)
  moreover have "tags tag ?wk B = tags tag wk (add_mset (a, op) B)"
    unfolding tags_def all by (simp add: c)
  ultimately show ?thesis
    using inv lease unfolding winv_def by (simp add: w)
qed

lemma count_of_delete: "hm_wf m \<Longrightarrow> count_of (AList.delete c m) d = (if d = c then 0 else count_of m d)"
  by (simp add: count_of_def delete_conv')

lemma count_of_update: "count_of (AList.update c v m) d = (if d = c then v else count_of m d)"
  by (simp add: count_of_def update_conv')

lemma drained_ok:
  assumes inv: "winv tag X B (add_mset c D) k n T wk" and last: "c \<notin># charged wk D"
  shows "winv tag X B D k n T (drained c (release_outstanding wk))"
proof -
  let ?wk1 = "wk\<lparr>wk_outstanding := wk_outstanding wk - 1,
    wk_by_client := AList.delete c (wk_by_client wk)\<rparr>"
  have ch: "charged wk (add_mset c D) = add_mset c (charged wk D)" by (simp add: charged_def)
  have counts: "\<forall>d. count_of (AList.delete c (wk_by_client wk)) d = count (charged wk D) d
      \<and> map_of (AList.delete c (wk_by_client wk)) d \<noteq> Some 0"
    using inv last unfolding winv_def ch
    by (auto simp: count_of_delete delete_conv' not_in_iff)
  show ?thesis
  proof (cases "c \<in> set (wk_pending_removal wk)")
    case False
    then have "set (wk_pending_removal wk) \<subseteq> set_mset (charged wk D)"
      using inv unfolding winv_def ch by auto
    then show ?thesis
      using inv counts False unfolding winv_def ch
      by (simp add: drained_def release_outstanding_def)
  next
    case True
    obtain ep w where rel: "release_peer c (wk_endpoint wk) (wk_world wk) = (ep, w)"
      by (cases "release_peer c (wk_endpoint wk) (wk_world wk)")
    have "endpoint_ok (box_leases (all_boxes wk B)) (wk_endpoint wk) (wk_world wk)"
      using inv by (simp add: winv_def)
    note rel_ok = release_peer_ok [OF this rel]
    have "set (removeAll c (wk_pending_removal wk)) \<subseteq> set_mset (charged wk D)"
      using inv unfolding winv_def ch by auto
    then show ?thesis
      using inv counts True rel rel_ok unfolding winv_def ch
      by (simp add: drained_def release_outstanding_def)
  qed
qed

lemma finish_op_ok:
  assumes inv: "winv tag X B (add_mset c D) k n T wk"
  shows "winv tag X B D k n T (finish_op c wk)"
proof -
  have ch: "charged wk (add_mset c D) = add_mset c (charged wk D)" by (simp add: charged_def)
  have cnt: "count_of (wk_by_client wk) c = Suc (count (charged wk D) c)"
    using inv unfolding winv_def ch by simp
  then obtain m where m: "map_of (wk_by_client wk) c = Some (Suc m)" "m = count (charged wk D) c"
    by (auto simp: count_of_def split: option.splits)
  show ?thesis
  proof (cases "m = 0")
    case True
    then show ?thesis using drained_ok [OF inv] m by (simp add: finish_op_def not_in_iff)
  next
    case False
    let ?wk = "wk\<lparr>wk_outstanding := wk_outstanding wk - 1,
      wk_by_client := AList.update c m (wk_by_client wk)\<rparr>"
    have same: "all_boxes ?wk B = all_boxes wk B" "charged ?wk D = charged wk D"
        "tags tag ?wk B = tags tag wk B"
      by (simp_all add: all_boxes_def charged_def tags_def)
    have "\<forall>d. count_of (AList.update c m (wk_by_client wk)) d = count (charged wk D) d
        \<and> map_of (AList.update c m (wk_by_client wk)) d \<noteq> Some 0"
      using inv False m unfolding winv_def ch by (auto simp: count_of_update update_conv')
    moreover have "set (wk_pending_removal wk) \<subseteq> set_mset (charged wk D)"
      using inv False m unfolding winv_def ch by (auto simp: count_eq_zero_iff)
    ultimately have "winv tag X B D k n T ?wk"
      using inv unfolding winv_def same ch by simp
    then show ?thesis using m False by (simp add: finish_op_def release_outstanding_def Let_def count_eq_zero_iff)
  qed
qed

lemma finish_unreaped_ok:
  assumes "winv tag X (add_mset (a, op) B) (add_mset (if_client_id op) D) k n T wk"
  shows "winv tag X B D k n T (finish_unreaped F op e wk)"
  using finish_op_ok [OF complete_ok [OF assms]]
  by (auto simp: finish_unreaped_def Let_def split: prod.splits)

section \<open>Messages\<close>

lemma prepare_box:
  assumes "prepare C a request = Inr (prep, op)"
  shows "pd_context prep = a \<and> if_client_id op = pd_client_id prep
    \<and> pd_client_id prep = tr_client_id request \<and> if_local_lease op = None
    \<and> if_caller_context op =
        snd (resolve_operand (cf_operands C) (tr_direction request) (tr_caller_context request))"
  using assms by (auto simp: prepare_def Let_def split: prod.splits sum.splits if_splits option.splits)

lemma prepare_failed:
  "prepare C a request = Inl c \<Longrightarrow> cm_caller_context c =
     snd (resolve_operand (cf_operands C) (tr_direction request) (tr_caller_context request))"
  by (auto simp: prepare_def Let_def split: prod.splits sum.splits if_splits option.splits)

lemma live_boxes_mset: "mset (live_boxes wk) = image_mset fst (all_boxes wk {#})"
  by (simp add: live_boxes_def all_boxes_def image_mset.compositionality comp_def ac_simps
      flip: mset_map)

lemma endpoint_log_ok:
  "winv tag X B D k n T wk \<Longrightarrow> neutral_call c \<Longrightarrow> wire (c # w_log (wk_world wk)) = wire (w_log (wk_world wk)) \<Longrightarrow>
     winv tag X B D k n T (wk\<lparr>wk_world := log_call c (wk_world wk)\<rparr>)"
  by (simp add: winv_def endpoint_ok_log) (simp add: log_call_def)

text \<open>Replacing the endpoint and the world by ones with the same leases and the same wire.\<close>

lemma winv_world:
  assumes "winv tag X B D k n T wk"
    and "endpoint_ok (box_leases (all_boxes wk B)) ep w" "wire (w_log w) = wire (w_log (wk_world wk))"
  shows "winv tag X B D k n T (wk\<lparr>wk_endpoint := ep, wk_world := w\<rparr>)"
  using assms by (simp add: winv_def)

lemma winv_replies [simp]: "winv tag X B D k n T (wk\<lparr>wk_replies := r\<rparr>) = winv tag X B D k n T wk"
  "winv tag X B D k n T (wk\<lparr>wk_disconnected := d\<rparr>) = winv tag X B D k n T wk"
  "winv tag X B D k n T (wk\<lparr>wk_drain_spins := i\<rparr>) = winv tag X B D k n T wk"
  by (simp_all add: winv_def)

lemma winv_endpoint: "winv tag X B D k n T wk \<Longrightarrow>
   endpoint_ok (box_leases (all_boxes wk B)) (wk_endpoint wk) (wk_world wk)"
  by (simp add: winv_def)

lemma remove_or_defer_ok:
  assumes inv: "winv tag X B D k n T wk"
  shows "winv tag X B D k n T (remove_or_defer c wk)"
proof (cases "count_of (wk_by_client wk) c = 0")
  case True
  obtain ep w where rel: "release_peer c (wk_endpoint wk) (wk_world wk) = (ep, w)"
    by (cases "release_peer c (wk_endpoint wk) (wk_world wk)")
  then show ?thesis
    using winv_world [OF inv, of ep w] release_peer_ok [OF winv_endpoint [OF inv] rel] True
    by (auto simp: remove_or_defer_def count_of_def)
next
  case False
  then have "c \<in># charged wk D" using inv by (simp add: winv_def flip: count_greater_zero_iff)
  moreover have "remove_or_defer c wk = wk\<lparr>wk_pending_removal := List.insert c (wk_pending_removal wk)\<rparr>"
    using False by (simp add: remove_or_defer_def count_of_def)
  ultimately show ?thesis
    using inv by (simp add: winv_def)
qed

lemma add_peer_ok:
  assumes inv: "winv tag X B D k n T wk"
    and run: "insert_peer F c address (wk_endpoint wk) (wk_world wk) = (res, ep, w)"
    and drop: "(case res of Inl _ \<Rightarrow> (ep, w) | Inr peer \<Rightarrow> drop_peer peer ep w) = (ep', w')"
  shows "winv tag X B D k n T (wk\<lparr>wk_endpoint := ep', wk_world := w'\<rparr>)"
proof (rule winv_world [OF inv])
  note ins = insert_peer_ok [OF winv_endpoint [OF inv] run]
  show "endpoint_ok (box_leases (all_boxes wk B)) ep' w'"
    using ins drop drop_peer_ok [of "box_leases (all_boxes wk B)" _ ep w ep' w']
    by (cases res) auto
  show "wire (w_log w') = wire (w_log (wk_world wk))"
    using ins drop drop_peer_ok [of "box_leases (all_boxes wk B)" _ ep w ep' w']
    by (cases res) auto
qed

text \<open>The transfers among the messages, and their contexts.\<close>

fun transfers :: "'c worker_message list \<Rightarrow> 'c transfer_request list" where
  "transfers [] = []"
| "transfers (TransferMsg r # ms) = r # transfers ms"
| "transfers (_ # ms) = transfers ms"

section \<open>What the worker relies on\<close>

locale worker_env =
  fixes C :: "'c config" and tag :: "'c \<Rightarrow> 't"
  assumes fresh: "cf_box_alloc C live \<notin> set live \<and> cf_box_alloc C live \<noteq> 0"
    and contract: "cq_contract (cf_fabric C)"
    and tag_allocate: "tag (snd (op_allocate (cf_operands C) ctx len)) = tag ctx"
begin

lemma tag_resolve: "tag (snd (resolve_operand (cf_operands C) dir ctx)) = tag ctx"
  using tag_allocate [of ctx]
  by (auto simp: resolve_operand_def split: direction.splits option.splits prod.splits) (metis snd_conv)+

lemma accept_ok:
  assumes inv: "winv tag X {#} {#} k (Suc n) T wk"
  shows "winv tag X {#} {#} k n (add_mset (tag (tr_caller_context request)) T) (accept C request wk)"
proof (cases "prepare C (cf_box_alloc C (live_boxes wk)) request")
  case (Inl c)
  then show ?thesis
    using inv prepare_failed [OF Inl] tag_resolve
    by (simp add: accept_def release_outstanding_def winv_def tags_def)
next
  case (Inr po)
  obtain prep op where po: "po = (prep, op)" by (cases po)
  let ?a = "cf_box_alloc C (live_boxes wk)" and ?c = "tr_client_id request"
  note box = prepare_box [OF Inr [unfolded po]]
  have "?a \<notin># image_mset fst (all_boxes wk {#})" "?a \<noteq> 0"
    using fresh [of "live_boxes wk"] live_boxes_mset [of wk] by (metis set_mset_mset)+
  then have addrs: "addrs_ok (add_mset (?a, op) (all_boxes wk {#}))"
    using inv by (auto simp: winv_def addrs_ok_def not_in_iff)
  let ?wk = "wk\<lparr>wk_by_client := AList.update ?c (Suc (count_of (wk_by_client wk) ?c)) (wk_by_client wk),
    wk_pending := wk_pending wk @ [prep], wk_boxes := (?a, op) # wk_boxes wk\<rparr>"
  have all: "all_boxes ?wk {#} = add_mset (?a, op) (all_boxes wk {#})"
    by (simp add: all_boxes_def)
  have ch: "charged ?wk {#} = add_mset ?c (charged wk {#})"
    using box by (simp add: charged_def)
  have tg: "tags tag ?wk {#} = add_mset (tag (tr_caller_context request)) (tags tag wk {#})"
    using box tag_resolve by (simp add: tags_def all)
  have "winv tag X {#} {#} k n (add_mset (tag (tr_caller_context request)) T) ?wk"
    using inv addrs box unfolding winv_def all ch tg
    by (auto simp: count_of_update update_conv')
  moreover have "accept C request wk = ?wk"
    using Inr po box by (simp add: accept_def count_of_def)
  ultimately show ?thesis by simp
qed

lemma handle_message_ok:
  assumes "winv tag X {#} {#} k (length (transfers [m]) + n) T wk"
  shows "winv tag X {#} {#} k n (mset (map (tag \<circ> tr_caller_context) (transfers [m])) + T)
    (handle_message C m wk)"
proof (cases m)
  case (TransferMsg r)
  then show ?thesis using assms accept_ok by (simp add: handle_message_def)
next
  case (AddPeer c address reply)
  then show ?thesis
    using assms add_peer_ok [of tag X "{#}" "{#}" k n T wk "cf_fabric C" c address]
    by (auto simp: handle_message_def Let_def split: prod.splits)
next
  case (RemovePeer c)
  then show ?thesis using assms remove_or_defer_ok by (simp add: handle_message_def)
next
  case (Register base len reply)
  obtain r w where pin: "pin_region (cf_fabric C) base len (wk_endpoint wk) (wk_world wk) = (r, w)"
    by (cases "pin_region (cf_fabric C) base len (wk_endpoint wk) (wk_world wk)")
  have inv: "winv tag X {#} {#} k n T wk" using assms Register by simp
  have "winv tag X {#} {#} k n T (wk\<lparr>wk_endpoint := wk_endpoint wk, wk_world := w\<rparr>)"
    by (rule winv_world [OF inv]) (use pin_region_ok [OF winv_endpoint [OF inv] pin] in auto)
  then show ?thesis using Register pin by (simp add: handle_message_def)
qed

end

section \<open>Posting\<close>

lemma drop_lease_holding:
  "endpoint_holding (opt_mset lease + L) i ep w \<Longrightarrow> endpoint_holding L i ep (drop_lease lease w)"
  by (auto simp: drop_lease_def endpoint_holding_drop_lease split: option.splits)

lemma wire_drop [simp]: "wire (w_log (drop_lease lease w)) = wire (w_log w)"
  by (simp add: drop_lease_def split: option.splits)

lemma post_out_ok:
  assumes "post_out F c pointer len d a w = (code, w')"
  shows "wire (w_log w') = (if code = 0 then wire (w_log w) @ [a] else wire (w_log w))"
    "endpoint_holding L i ep w \<Longrightarrow> endpoint_holding L i ep w'"
  using assms by (auto simp: post_out_def Let_def log_call_def)
    (auto simp: neutral_call_def intro: endpoint_holding_log [unfolded log_call_def])

lemma post_in_ok:
  assumes "post_in F c pointer len d a w = (code, w')"
  shows "wire (w_log w') = (if code = 0 then wire (w_log w) @ [a] else wire (w_log w))"
    "endpoint_holding L i ep w \<Longrightarrow> endpoint_holding L i ep w'"
  using assms by (auto simp: post_in_def Let_def log_call_def)
    (auto simp: neutral_call_def intro: endpoint_holding_log [unfolded log_call_def])

lemma winv_posted:
  assumes inv: "winv tag (add_mset a X) B D 0 n T wk"
    and op: "map_of (wk_boxes wk) a = Some op"
    and same: "if_caller_context op' = if_caller_context op" "if_client_id op' = if_client_id op"
    and ep: "\<And>L. box_leases (all_boxes wk B) = opt_mset (if_local_lease op) + L \<Longrightarrow>
      endpoint_ok (opt_mset (if_local_lease op') + L) ep w"
    and wire: "wire (w_log w) = wire (w_log (wk_world wk)) @ [a]"
  shows "winv tag X B D 1 n T
    (wk\<lparr>wk_endpoint := ep, wk_world := w, wk_boxes := AList.update a op' (wk_boxes wk)\<rparr>)"
proof -
  let ?m = "AList.update a op' (wk_boxes wk)"
  let ?wk = "wk\<lparr>wk_endpoint := ep, wk_world := w, wk_boxes := ?m\<rparr>"
  let ?rest = "mset (AList.delete a (wk_boxes wk))"
  have old: "mset (wk_boxes wk) = add_mset (a, op) ?rest"
    using mset_delete [OF winv_boxes_wf [OF inv] op] by simp
  have new: "mset ?m = add_mset (a, op') ?rest"
    using image_mset_update [OF winv_boxes_wf [OF inv] op, of op'] old by simp
  let ?others = "?rest + mset (map q_inflight (wk_quiescing wk))
    + mset (map fst (wk_crc_pending wk)) + mset (map fst (concat (wk_jobs wk))) + B"
  have all: "all_boxes wk B = add_mset (a, op) ?others" "all_boxes ?wk B = add_mset (a, op') ?others"
    using old new by (simp_all add: all_boxes_def)
  have keys: "mset (map fst ?m) = mset (map fst (wk_boxes wk))"
    using old new by simp
  have ch: "charged ?wk D = charged wk D" using old new same by (simp add: charged_def)
  have tg: "tags tag ?wk B = tags tag wk B" unfolding tags_def all using same by simp
  have "addrs_ok (all_boxes ?wk B)"
    using inv addrs_ok_images [of "all_boxes ?wk B" "all_boxes wk B"] by (simp add: winv_def all)
  moreover have "endpoint_ok (box_leases (all_boxes ?wk B)) ep w"
    using ep [of "box_leases ?others"] by (simp add: all)
  ultimately show ?thesis
    using inv wire keys unfolding winv_def ch tg by simp
qed

lemma post_ok:
  assumes inv: "winv tag (add_mset (pd_context p) X) B D 0 n T wk"
    and run: "post C p wk = (res, p', wk')"
  shows "pd_context p' = pd_context p \<and> wk_pending wk' = wk_pending wk
    \<and> (if res = Inr 0 then winv tag X B D 1 n T wk'
       else winv tag (add_mset (pd_context p) X) B D 0 n T wk')"
proof -
  let ?F = "cf_fabric C" and ?a = "pd_context p" and ?L = "box_leases (all_boxes wk B)"
  obtain r ep w where ins:
    "insert_peer ?F (pd_client_id p) (pd_peer_address p) (wk_endpoint wk) (wk_world wk) = (r, ep, w)"
    by (cases "insert_peer ?F (pd_client_id p) (pd_peer_address p) (wk_endpoint wk) (wk_world wk)")
  note ins_ok = insert_peer_ok [OF winv_endpoint [OF inv] ins]
  obtain op where op: "map_of (wk_boxes wk) ?a = Some op" using raw_box [OF inv] by blast
  let ?span = "\<lambda>l. op_cacheable_span (cf_operands C) l (if_caller_context op)"
  show ?thesis
  proof (cases r)
    case (Inl e)
    then have "winv tag (add_mset ?a X) B D 0 n T (wk\<lparr>wk_endpoint := ep, wk_world := w\<rparr>)"
      using ins_ok by (intro winv_world [OF inv]) auto
    then show ?thesis using run ins Inl by (auto simp: post_def)
  next
    case (Inr peer)
    obtain lr w1 where lo: "local_operand_of ?F (pd_pointer p) (pd_length p) ?span ep w = (lr, w1)"
      by (cases "local_operand_of ?F (pd_pointer p) (pd_length p) ?span ep w")
    have hold: "endpoint_holding ?L peer ep w" using ins_ok Inr by simp
    note lo_ok = local_operand_ok [OF hold lo]
    show ?thesis
    proof (cases lr)
      case (Inl e)
      obtain ep' w2 where dr: "drop_peer peer ep w1 = (ep', w2)" by (cases "drop_peer peer ep w1")
      have "endpoint_holding ?L peer ep w1" using lo_ok Inl by simp
      from drop_peer_ok [OF this dr]
      have "winv tag (add_mset ?a X) B D 0 n T (wk\<lparr>wk_endpoint := ep', wk_world := w2\<rparr>)"
        using ins_ok lo_ok by (intro winv_world [OF inv]) auto
      then show ?thesis using run ins Inr op lo Inl dr by (auto simp: post_def)
    next
      case lo_Inr: (Inr lop)
      let ?conn = "connection_to ep peer (pd_remote_key p) (pd_remote_address p)"
      obtain code w2 where wr: "(case pd_direction p of
          ToPeer \<Rightarrow> post_out ?F ?conn (pd_pointer p) (pd_length p) (lo_descriptor lop) ?a w1
        | FromPeer _ \<Rightarrow> post_in ?F ?conn (pd_pointer p) (pd_length p) (lo_descriptor lop) ?a w1)
          = (code, w2)" by (metis prod.collapse)
      have wire2: "wire (w_log w2) = (if code = 0 then wire (w_log w1) @ [?a] else wire (w_log w1))"
        using wr post_out_ok(1) post_in_ok(1) by (cases "pd_direction p") auto
      have hold2: "endpoint_holding (opt_mset (lo_lease lop) + ?L) peer ep w2"
        using wr lo_ok lo_Inr post_out_ok(2) post_in_ok(2) by (cases "pd_direction p") fastforce+
      have wire1: "wire (w_log w1) = wire (w_log (wk_world wk))" using lo_ok ins_ok by simp
      show ?thesis
      proof (cases "code = 0")
        case False
        obtain ep' w3 where dr: "drop_peer peer ep (drop_lease (lo_lease lop) w2) = (ep', w3)"
          by (cases "drop_peer peer ep (drop_lease (lo_lease lop) w2)")
        note dr_ok = drop_peer_ok [OF drop_lease_holding [OF hold2] dr]
        have "winv tag (add_mset ?a X) B D 0 n T (wk\<lparr>wk_endpoint := ep', wk_world := w3\<rparr>)"
          using dr_ok wire2 wire1 False by (intro winv_world [OF inv]) auto
        moreover have "res = Inr code" "p' = p" "wk' = wk\<lparr>wk_endpoint := ep', wk_world := w3\<rparr>"
          using run ins Inr op lo lo_Inr wr dr False by (simp_all add: post_def)
        ultimately show ?thesis using False by simp
      next
        case True
        let ?op' = "op\<lparr>if_local_lease := lo_lease lop, if_quiesce := map_option
          (\<lambda>q. q\<lparr>qr_peer_address := pd_peer_address p\<rparr>) (if_quiesce op)\<rparr>"
        obtain ep' w3 where dr: "drop_peer peer ep (drop_lease (if_local_lease op) w2) = (ep', w3)"
          by (cases "drop_peer peer ep (drop_lease (if_local_lease op) w2)")
        have dr_ok: "endpoint_ok (opt_mset (lo_lease lop) + L) ep' w3"
            "wire (w_log w3) = wire (w_log w2)"
          if "?L = opt_mset (if_local_lease op) + L" for L
        proof -
          have "endpoint_holding (opt_mset (if_local_lease op) + (opt_mset (lo_lease lop) + L)) peer ep w2"
            using hold2 that by (simp add: ac_simps)
          from drop_peer_ok [OF drop_lease_holding [OF this] dr]
          show "endpoint_ok (opt_mset (lo_lease lop) + L) ep' w3" "wire (w_log w3) = wire (w_log w2)"
            by simp_all
        qed
        have "?L = opt_mset (if_local_lease op) + box_leases (all_boxes wk B - {#(?a, op)#})"
        proof -
          have "(?a, op) \<in># all_boxes wk B" using map_of_SomeD [OF op] by (simp add: all_boxes_def)
          then have "all_boxes wk B = add_mset (?a, op) (all_boxes wk B - {#(?a, op)#})" by simp
          then show ?thesis by (metis box_leases_simps(2) snd_conv)
        qed
        then have wire3: "wire (w_log w3) = wire (w_log (wk_world wk)) @ [?a]"
          using dr_ok(2) wire2 wire1 True by simp
        have "winv tag X B D 1 n T (wk\<lparr>wk_endpoint := ep', wk_world := w3,
            wk_boxes := AList.update ?a ?op' (wk_boxes wk)\<rparr>)"
          by (rule winv_posted [OF inv op]) (use dr_ok(1) wire3 in auto)
        moreover have "res = Inr 0" "pd_context p' = ?a"
            "wk' = wk\<lparr>wk_endpoint := ep', wk_world := w3,
               wk_boxes := AList.update ?a ?op' (wk_boxes wk)\<rparr>"
          using run ins Inr op lo lo_Inr wr dr True by (auto simp: post_def)
        ultimately show ?thesis by simp
      qed
    qed
  qed
qed

lemma fail_post_ok:
  assumes "winv tag (add_mset (pd_context p) X) B D k n T wk"
  shows "winv tag X B D k n T (fail_post C p e wk)"
  using reclaim_ok [OF assms] finish_unreaped_ok by (fastforce simp: fail_post_def)

lemma clock_now_ok:
  assumes "winv tag X B D k n T wk" "clock_now F (wk_world wk) = (t, w)"
  shows "winv tag X B D k n T (wk\<lparr>wk_world := w\<rparr>)"
  using endpoint_log_ok [OF assms(1), of "Clock t"] assms(2)
  by (auto simp: clock_now_def Let_def neutral_call_def)

lemma stall_clock_ok:
  assumes inv: "winv tag X B D k n T wk" and run: "stall_clock F since (wk_world wk) = (s, d, w)"
  shows "winv tag X B D k n T (wk\<lparr>wk_world := w\<rparr>)"
proof (cases since)
  case None
  obtain t w1 where one: "clock_now F (wk_world wk) = (t, w1)" by (cases "clock_now F (wk_world wk)")
  obtain t' w2 where two: "clock_now F w1 = (t', w2)" by (cases "clock_now F w1")
  have "winv tag X B D k n T (wk\<lparr>wk_world := w1, wk_world := w2\<rparr>)"
    by (rule clock_now_ok [OF clock_now_ok [OF inv one]]) (use two in simp)
  then show ?thesis using run None one two by (simp add: stall_clock_def)
next
  case (Some t)
  then show ?thesis
    using run clock_now_ok [OF inv] by (auto simp: stall_clock_def Let_def split: prod.splits)
qed

lemma winv_push_pending:
  "winv tag (add_mset (pd_context p) X) B D k n T wk \<Longrightarrow>
     winv tag X B D k n T (wk\<lparr>wk_pending := wk_pending wk @ [p]\<rparr>)"
  by (simp add: winv_def)

lemma winv_pop_pending:
  "winv tag X B D k n T wk \<Longrightarrow> wk_pending wk = p # rest \<Longrightarrow>
     winv tag (add_mset (pd_context p) X) B D k n T (wk\<lparr>wk_pending := rest\<rparr>)"
  by (simp add: winv_def)

lemma winv_count_post:
  "winv tag X B D (Suc k) n T wk \<Longrightarrow> winv tag X B D k n T (wk\<lparr>wk_in_flight := Suc (wk_in_flight wk)\<rparr>)"
  by (simp add: winv_def)

lemma post_one_ok:
  assumes inv: "winv tag (add_mset (pd_context p) X) B D 0 n T wk"
  shows "winv tag X B D 0 n T (snd (post_one C p wk))"
proof -
  obtain res p' wk1 where run: "post C p wk = (res, p', wk1)" by (cases "post C p wk")
  note ok = post_ok [OF inv run]
  have again: "winv tag X B D 0 n T (fail_post C p' e wk1)" if "res \<noteq> Inr 0" for e
    using ok that by (intro fail_post_ok) simp
  show ?thesis
  proof (cases res)
    case (Inl e)
    then show ?thesis using run again by (simp add: post_one_def)
  next
    case (Inr code)
    obtain s d w where clk: "stall_clock (cf_fabric C) (pd_stalled_since p') (wk_world wk1) = (s, d, w)"
      by (cases "stall_clock (cf_fabric C) (pd_stalled_since p') (wk_world wk1)")
    let ?p = "p'\<lparr>pd_stalled_since := Some s\<rparr>" and ?wk = "wk1\<lparr>wk_world := w\<rparr>"
    have stalled: "winv tag (add_mset (pd_context ?p) X) B D 0 n T ?wk" if "code \<noteq> 0"
      using stall_clock_ok [of tag "add_mset (pd_context p) X" B D 0 n T wk1, OF _ clk] ok Inr that
      by simp
    show ?thesis
      using run Inr clk again ok winv_count_post [of tag X B D 0 n T wk1]
        winv_push_pending [OF stalled] fail_post_ok [OF stalled]
      by (cases "code = 0") (auto simp: post_one_def Let_def)
  qed
qed

section \<open>Reaping\<close>

lemma winv_quiescing_push:
  assumes "winv tag X (add_mset (a, op) B) (add_mset (if_client_id op) D) k n T wk"
    and "if_caller_context op' = if_caller_context op" "if_client_id op' = if_client_id op"
    and "if_local_lease op' = if_local_lease op" "q_inflight q = (a, op')"
  shows "winv tag X B D k n T (wk\<lparr>wk_quiescing := wk_quiescing wk @ [q]\<rparr>)"
proof -
  let ?wk = "wk\<lparr>wk_quiescing := wk_quiescing wk @ [q]\<rparr>"
  have all: "all_boxes ?wk B = add_mset (a, op') (all_boxes wk B)"
      "all_boxes wk (add_mset (a, op) B) = add_mset (a, op) (all_boxes wk B)"
    using assms(5) by (simp_all add: all_boxes_def)
  have ch: "charged ?wk D = charged wk (add_mset (if_client_id op) D)"
    using assms(3,5) by (simp add: charged_def)
  have tg: "tags tag ?wk B = tags tag wk (add_mset (a, op) B)"
    unfolding tags_def all using assms(2) by simp
  have "addrs_ok (all_boxes ?wk B)"
    using assms(1) addrs_ok_images [of "add_mset (a, op') (all_boxes wk B)" "add_mset (a, op) (all_boxes wk B)"]
    by (simp add: winv_def all)
  then show ?thesis
    using assms(1,4) unfolding winv_def ch tg all by simp
qed

lemma winv_crc_push:
  assumes "winv tag X (add_mset b B) D k n T wk"
  shows "winv tag X B D k n T (wk\<lparr>wk_crc_pending := wk_crc_pending wk @ [(b, r)]\<rparr>)"
proof -
  let ?wk = "wk\<lparr>wk_crc_pending := wk_crc_pending wk @ [(b, r)]\<rparr>"
  have all: "all_boxes ?wk B = all_boxes wk (add_mset b B)" by (simp add: all_boxes_def)
  have "tags tag ?wk B = tags tag wk (add_mset b B)" unfolding tags_def all by simp
  then show ?thesis using assms unfolding winv_def all by simp
qed

lemma dispatch_ok:
  assumes inv: "winv tag (add_mset (fst e) X) {#} {#} k n T wk"
  shows "winv tag X {#} {#} k n T (dispatch C e wk)"
proof -
  obtain op wk1 where rc: "reclaim (fst e) wk = (Some (fst e, op), wk1)"
    and inv1: "winv tag X {#(fst e, op)#} {#if_client_id op#} k n T wk1"
    using reclaim_ok [OF inv] by auto
  note fin = finish_op_ok [OF inv1]
  show ?thesis
  proof (cases "\<exists>read. snd e = Inr () \<and> if_quiesce op = Some read")
    case True
    then show ?thesis
      using rc winv_quiescing_push [OF inv1, of "op\<lparr>if_quiesce := None\<rparr>"]
      by (auto simp: dispatch_def)
  next
    case False
    then have eq: "dispatch C e wk = (let wk2 = finish_op (if_client_id op) wk1
        in if if_want_checksum op
           then wk2\<lparr>wk_crc_pending := wk_crc_pending wk2 @ [((fst e, op), snd e)]\<rparr>
           else (let (c, w) = into_completion (cf_fabric C) op (snd e) (wk_world wk2)
                 in wk2\<lparr>wk_world := w, wk_completions := wk_completions wk2 @ [c]\<rparr>))"
      using rc by (auto simp: dispatch_def split: sum.splits option.splits)
    show ?thesis
      unfolding eq Let_def
      using winv_crc_push [OF fin] complete_ok [OF fin] by (auto split: prod.splits)
  qed
qed

lemma winv_non_null:
  assumes "winv tag X B D k n T wk"
  shows "0 \<notin> set (wire (w_log (wk_world wk)))"
proof -
  have "0 \<notin># image_mset fst (all_boxes wk B)" using assms by (simp add: winv_def addrs_ok_def)
  then have none: "0 \<notin># mset (map fst (wk_boxes wk))" by (auto simp: all_boxes_def)
  have eq: "mset (map fst (wk_boxes wk)) =
      X + mset (map pd_context (wk_pending wk)) + mset (wire (w_log (wk_world wk)))"
    using assms by (simp add: winv_def)
  show ?thesis using none unfolding eq by simp
qed

lemma reap_entries_ok:
  assumes contract: "cq_contract (cf_fabric C)" and inv: "winv tag {#} {#} {#} 0 n T wk"
    and run: "reap_entries C wk = (out, wk')"
  shows "winv tag (mset (map fst out)) {#} {#} 0 n T wk'"
proof -
  obtain fin w where reap: "reap (cf_fabric C) TARGET_COMPLETIONS [] (wk_world wk) = (fin, out, w)"
    using run by (auto simp: reap_entries_def split: prod.splits)
  note cons = reap_conserves [OF contract winv_non_null [OF inv] reap,
      of "box_leases (all_boxes wk {#})" "wk_endpoint wk"]
  have moved: "mset (wire (w_log (wk_world wk))) = image_mset fst (mset out) + mset (wire (w_log w))"
    using cons by (simp add: ac_simps)
  have len: "length (wire (w_log (wk_world wk))) = length (wire (w_log w)) + length out"
    using arg_cong [OF conjunct1 [OF cons], of size] by simp
  let ?wk = "wk\<lparr>wk_world := w, wk_in_flight := wk_in_flight wk - length out,
    wk_fault := (wk_fault wk \<or> fin = ReapPanic)\<rparr>"
  have "winv tag (mset (map fst out)) {#} {#} 0 n T ?wk"
    using inv conjunct2 [OF cons] len moved by (simp add: winv_def)
  then show ?thesis using run reap by (simp add: reap_entries_def)
qed

section \<open>Quiesce reads\<close>

lemma winv_pop_quiescing:
  assumes "winv tag X B D k n T wk" "wk_quiescing wk = q # rest"
  shows "winv tag X (add_mset (q_inflight q) B) (add_mset (if_client_id (snd (q_inflight q))) D) k n T
    (wk\<lparr>wk_quiescing := rest\<rparr>)"
proof -
  let ?wk = "wk\<lparr>wk_quiescing := rest\<rparr>"
  have all: "all_boxes ?wk (add_mset (q_inflight q) B) = all_boxes wk B"
    using assms(2) by (simp add: all_boxes_def)
  have ch: "charged ?wk (add_mset (if_client_id (snd (q_inflight q))) D) = charged wk D"
    using assms(2) by (simp add: charged_def)
  have "tags tag ?wk (add_mset (q_inflight q) B) = tags tag wk B" unfolding tags_def all by simp
  then show ?thesis using assms(1) unfolding winv_def all ch by simp
qed

text \<open>A box held locally may change its lease along with the world.\<close>

lemma winv_held:
  assumes inv: "winv tag X (add_mset (a, op) B) D k n T wk"
    and same: "if_caller_context op' = if_caller_context op"
    and ep: "\<And>L. box_leases (all_boxes wk (add_mset (a, op) B)) = opt_mset (if_local_lease op) + L \<Longrightarrow>
      endpoint_ok (opt_mset (if_local_lease op') + L) ep w"
    and wire: "wire (w_log w) = wire (w_log (wk_world wk))"
  shows "winv tag X (add_mset (a, op') B) D k n T (wk\<lparr>wk_endpoint := ep, wk_world := w\<rparr>)"
proof -
  have all: "all_boxes wk (add_mset (a, x) B) = add_mset (a, x) (all_boxes wk B)" for x
    by (simp add: all_boxes_def)
  have "addrs_ok (add_mset (a, op') (all_boxes wk B))"
    using inv addrs_ok_images [of "add_mset (a, op') (all_boxes wk B)" "add_mset (a, op) (all_boxes wk B)"]
    by (simp add: winv_def all)
  moreover have "endpoint_ok (box_leases (add_mset (a, op') (all_boxes wk B))) ep w"
    using ep [of "box_leases (all_boxes wk B)"] by (simp add: all)
  moreover have "tags tag wk (add_mset (a, op') B) = tags tag wk (add_mset (a, op) B)"
    unfolding tags_def all using same by simp
  ultimately show ?thesis using inv wire unfolding winv_def all by (simp add: all)
qed

lemma post_quiesce_ok:
  assumes inv: "winv tag X (add_mset (q_inflight q) B)
      (add_mset (if_client_id (snd (q_inflight q))) D) 0 n T wk"
    and run: "post_quiesce C q wk = (res, wk')"
  shows "case res of
      QPosted \<Rightarrow> winv tag X B D 1 n T wk'
    | QAgain q' \<Rightarrow> winv tag X (add_mset (q_inflight q') B)
        (add_mset (if_client_id (snd (q_inflight q'))) D) 0 n T wk'
    | QFailed b e \<Rightarrow> winv tag X (add_mset b B) (add_mset (if_client_id (snd b)) D) 0 n T wk'"
proof -
  let ?F = "cf_fabric C"
  obtain a op where q: "q_inflight q = (a, op)" by (cases "q_inflight q")
  let ?L = "box_leases (all_boxes wk (add_mset (a, op) B))" and ?r = "q_read q"
  have inv': "winv tag X (add_mset (a, op) B) (add_mset (if_client_id op) D) 0 n T wk"
    using inv q by simp
  obtain r ep w where ins:
    "insert_peer ?F (if_client_id op) (qr_peer_address ?r) (wk_endpoint wk) (wk_world wk) = (r, ep, w)"
    by (cases "insert_peer ?F (if_client_id op) (qr_peer_address ?r) (wk_endpoint wk) (wk_world wk)")
  note ins_ok = insert_peer_ok [OF winv_endpoint [OF inv'] ins]
  show ?thesis
  proof (cases r)
    case (Inl e)
    then have "winv tag X (add_mset (a, op) B) (add_mset (if_client_id op) D) 0 n T
        (wk\<lparr>wk_endpoint := ep, wk_world := w\<rparr>)"
      using ins_ok by (intro winv_world [OF inv']) auto
    moreover have "res = QFailed (a, op) e" "wk' = wk\<lparr>wk_endpoint := ep, wk_world := w\<rparr>"
      using run ins Inl q by (simp_all add: post_quiesce_def)
    ultimately show ?thesis by simp
  next
    case (Inr peer)
    obtain lr w1 where lo: "local_operand_of ?F (cf_landing C) 1 (\<lambda>_. None) ep w = (lr, w1)"
      by (cases "local_operand_of ?F (cf_landing C) 1 (\<lambda>_. None) ep w")
    have hold: "endpoint_holding ?L peer ep w" using ins_ok Inr by simp
    note lo_ok = local_operand_ok [OF hold lo]
    show ?thesis
    proof (cases lr)
      case (Inl e)
      obtain ep' w2 where dr: "drop_peer peer ep w1 = (ep', w2)" by (cases "drop_peer peer ep w1")
      have "endpoint_holding ?L peer ep w1" using lo_ok Inl by simp
      from drop_peer_ok [OF this dr]
      have "winv tag X (add_mset (a, op) B) (add_mset (if_client_id op) D) 0 n T
          (wk\<lparr>wk_endpoint := ep', wk_world := w2\<rparr>)"
        using ins_ok lo_ok by (intro winv_world [OF inv']) auto
      moreover have "res = QFailed (a, op) e" "wk' = wk\<lparr>wk_endpoint := ep', wk_world := w2\<rparr>"
        using run ins Inr Inl q lo dr by (simp_all add: post_quiesce_def)
      ultimately show ?thesis by simp
    next
      case lo_Inr: (Inr lop)
      let ?op' = "op\<lparr>if_local_lease := lo_lease lop\<rparr>"
      let ?w2 = "drop_lease (if_local_lease op) w1"
      let ?conn = "connection_to ep peer (qr_remote_key ?r) (qr_remote_address ?r)"
      obtain code w3 where wr: "post_in ?F ?conn (cf_landing C) 1 (lo_descriptor lop) a ?w2 = (code, w3)"
        by (cases "post_in ?F ?conn (cf_landing C) 1 (lo_descriptor lop) a ?w2")
      obtain ep' w4 where dr: "drop_peer peer ep w3 = (ep', w4)" by (cases "drop_peer peer ep w3")
      have Leq: "?L = opt_mset (if_local_lease op) + box_leases (all_boxes wk B)"
        by (simp add: all_boxes_def)
      have "endpoint_holding (opt_mset (if_local_lease op) + (opt_mset (lo_lease lop)
          + box_leases (all_boxes wk B))) peer ep w1"
        using lo_ok lo_Inr Leq by (simp add: ac_simps)
      from post_in_ok(2) [OF wr drop_lease_holding [OF this]]
      have hold3: "endpoint_holding (opt_mset (lo_lease lop) + box_leases (all_boxes wk B)) peer ep w3" .
      note dr_ok = drop_peer_ok [OF hold3 dr]
      have wire4: "wire (w_log w4) =
          (if code = 0 then wire (w_log (wk_world wk)) @ [a] else wire (w_log (wk_world wk)))"
        using dr_ok post_in_ok(1) [OF wr] lo_ok ins_ok by simp
      have swap: "winv tag X (add_mset (a, ?op') B) (add_mset (if_client_id op) D) 0 n T
          (wk\<lparr>wk_endpoint := ep', wk_world := w4\<rparr>)" if "code \<noteq> 0"
        using dr_ok wire4 Leq that by (intro winv_held [OF inv']) auto
      show ?thesis
      proof (cases "code = 0")
        case True
        have all: "all_boxes wk (add_mset (a, ?op') B) = add_mset (a, ?op') (all_boxes wk B)"
            "all_boxes wk (add_mset (a, op) B) = add_mset (a, op) (all_boxes wk B)"
          by (simp_all add: all_boxes_def)
        let ?wk = "wk\<lparr>wk_endpoint := ep', wk_world := w4, wk_boxes := (a, ?op') # wk_boxes wk\<rparr>"
        have new: "all_boxes ?wk B = add_mset (a, ?op') (all_boxes wk B)"
            "charged ?wk D = charged wk (add_mset (if_client_id op) D)"
          by (simp_all add: all_boxes_def charged_def)
        have tg: "tags tag ?wk B = tags tag wk (add_mset (a, op) B)"
          unfolding tags_def new all by simp
        have "addrs_ok (add_mset (a, ?op') (all_boxes wk B))"
          using inv' addrs_ok_images [of "add_mset (a, ?op') (all_boxes wk B)"
              "add_mset (a, op) (all_boxes wk B)"]
          by (simp add: winv_def all)
        then have "winv tag X B D 1 n T ?wk"
          using inv' wire4 dr_ok True unfolding winv_def new tg all by simp
        moreover have "res = QPosted" "wk' = ?wk"
          using run ins Inr q lo lo_Inr wr dr True by (simp_all add: post_quiesce_def)
        ultimately show ?thesis by simp
      next
        case False
        show ?thesis
          using run ins Inr q lo lo_Inr wr dr False swap [OF False]
          by (auto simp: post_quiesce_def Let_def split: if_splits)
      qed
    qed
  qed
qed

lemma quiesce_one_ok:
  assumes inv: "winv tag X (add_mset (q_inflight q) B)
      (add_mset (if_client_id (snd (q_inflight q))) D) 0 n T wk"
  shows "winv tag X B D 0 n T (snd (quiesce_one C q wk))"
proof -
  obtain res wk1 where run: "post_quiesce C q wk = (res, wk1)" by (cases "post_quiesce C q wk")
  note ok = post_quiesce_ok [OF inv run]
  show ?thesis
  proof (cases res)
    case QPosted
    then show ?thesis
      using run ok winv_count_post [of tag X B D 0 n T wk1] by (simp add: quiesce_one_def)
  next
    case (QFailed b e)
    then show ?thesis
      using run ok finish_unreaped_ok [of tag X "fst b" "snd b" B D 0 n T wk1]
      by (simp add: quiesce_one_def)
  next
    case (QAgain q')
    obtain a op where q': "q_inflight q' = (a, op)" by (cases "q_inflight q'")
    obtain s d w where clk: "stall_clock (cf_fabric C) (q_stalled_since q') (wk_world wk1) = (s, d, w)"
      by (cases "stall_clock (cf_fabric C) (q_stalled_since q') (wk_world wk1)")
    let ?wk = "wk1\<lparr>wk_world := w\<rparr>" and ?q = "q'\<lparr>q_stalled_since := Some s\<rparr>"
    have stalled: "winv tag X (add_mset (a, op) B) (add_mset (if_client_id op) D) 0 n T ?wk"
      using stall_clock_ok [of tag X "add_mset (a, op) B" "add_mset (if_client_id op) D" 0 n T wk1, OF _ clk]
        ok QAgain q' by simp
    have pushed: "winv tag X B D 0 n T (?wk\<lparr>wk_quiescing := wk_quiescing ?wk @ [?q]\<rparr>)"
      by (rule winv_quiescing_push [OF stalled, of op]) (simp_all add: q')
    show ?thesis
      using run QAgain clk q' pushed finish_unreaped_ok [OF stalled]
      by (simp add: quiesce_one_def Let_def)
  qed
qed

section \<open>The end of a pass\<close>

lemma submit_crc_batch_ok:
  assumes "winv tag X B D k n T wk"
  shows "winv tag X B D k n T (submit_crc_batch wk)"
proof -
  have all: "all_boxes (submit_crc_batch wk) B = all_boxes wk B"
    by (simp add: all_boxes_def submit_crc_batch_def)
  have "charged (submit_crc_batch wk) D = charged wk D" "tags tag (submit_crc_batch wk) B = tags tag wk B"
    unfolding tags_def all by (simp_all add: submit_crc_batch_def charged_def)
  then show ?thesis using assms unfolding winv_def all by (simp add: submit_crc_batch_def)
qed

lemma winv_batch:
  "winv tag X B D k n T wk \<Longrightarrow> winv tag X B D k n T
     (wk\<lparr>wk_drain_spins := s, wk_batches := wk_batches wk @ [wk_completions wk], wk_completions := []\<rparr>)"
  by (simp add: winv_def tags_def)

lemma deliver_ok:
  assumes "winv tag {#} {#} {#} 0 n T wk"
  shows "winv tag {#} {#} {#} 0 n T (snd (deliver posted reaped_any wk))"
proof -
  let ?wk1 = "if should_flush_crc (length (wk_crc_pending wk)) posted reaped_any (idle wk)
    then submit_crc_batch wk else wk"
  have inv1: "winv tag {#} {#} {#} 0 n T ?wk1" using assms submit_crc_batch_ok by auto
  have same: "snd (after_delivery i v) = v" for i and v :: "'a worker" by (simp add: after_delivery_def)
  show ?thesis
    unfolding deliver_def Let_def using inv1 winv_batch [OF inv1] by (simp add: same)
qed

lemma all_empty: "all_boxes wk {#} = {#} \<longleftrightarrow> wk_boxes wk = [] \<and> wk_quiescing wk = []
   \<and> wk_crc_pending wk = [] \<and> concat (wk_jobs wk) = []"
  by (simp add: all_boxes_def)

text \<open>An idle worker holds no box outside the checksum jobs.\<close>

lemma idle_boxes:
  assumes inv: "winv tag {#} {#} {#} 0 n T wk" and "idle wk"
  shows "wk_boxes wk = [] \<and> charged wk {#} = {#} \<and> wk_by_client wk = [] \<and> wk_pending_removal wk = []
    \<and> wk_outstanding wk = n \<and> wire (w_log (wk_world wk)) = []"
proof -
  have "wire (w_log (wk_world wk)) = []" "mset (map fst (wk_boxes wk)) = {#}"
    using assms by (auto simp: winv_def idle_def)
  then have boxes: "wk_boxes wk = []" by simp
  then have ch: "charged wk {#} = {#}" using assms(2) by (simp add: charged_def idle_def)
  then have none: "count_of (wk_by_client wk) c = 0 \<and> map_of (wk_by_client wk) c \<noteq> Some 0" for c
    using inv by (simp add: winv_def)
  have "wk_by_client wk = []"
  proof (cases "wk_by_client wk")
    case (Cons x xs)
    then show ?thesis using none [of "fst x"] by (cases x) (auto simp: count_of_def)
  qed simp
  then show ?thesis
    using inv boxes ch \<open>wire _ = []\<close> by (simp add: winv_def)
qed

lemma deliver_stops:
  assumes "winv tag {#} {#} {#} 0 n T wk" "deliver posted reaped_any wk = (flow, wk')" "flow \<noteq> Loop"
  shows "wk_completions wk' = [] \<and> wk_crc_pending wk' = [] \<and> wk_pending wk' = [] \<and> idle wk'
    \<and> (flow = Exit \<longleftrightarrow> wk_disconnected wk')"
proof -
  let ?wk1 = "if should_flush_crc (length (wk_crc_pending wk)) posted reaped_any (idle wk)
    then submit_crc_batch wk else wk"
  have idle: "idle wk" using assms(2,3)
    by (auto simp: deliver_def after_delivery_def Let_def split: if_splits)
  then have "wk_crc_pending ?wk1 = []"
    by (auto simp: should_flush_crc_def submit_crc_batch_def)
  moreover have "wk_pending ?wk1 = []" "wk_quiescing ?wk1 = []" "wk_in_flight ?wk1 = 0"
    using idle by (auto simp: idle_def submit_crc_batch_def)
  ultimately show ?thesis
    using assms(2,3)
    by (auto simp: deliver_def after_delivery_def Let_def idle_def split: if_splits)
qed

section \<open>Jobs of the pool and shutdown\<close>

lemma complete_all_ok:
  "endpoint_ok (box_leases (mset (map fst ops)) + L) ep w \<Longrightarrow> complete_all F ops w = (cs, w') \<Longrightarrow>
     endpoint_ok L ep w' \<and> wire (w_log w') = wire (w_log w)
     \<and> map cm_caller_context cs = map (if_caller_context \<circ> snd \<circ> fst) ops"
proof (induction ops arbitrary: w cs w')
  case (Cons x ops)
  obtain b r where x: "x = (b, r)" by (cases x)
  obtain c w1 where one: "into_completion F (snd b) r w = (c, w1)" by (cases "into_completion F (snd b) r w")
  obtain cs' w2 where rest: "complete_all F ops w1 = (cs', w2)" by (cases "complete_all F ops w1")
  have w1: "w1 = drop_lease (if_local_lease (snd b)) w" "cm_caller_context c = if_caller_context (snd b)"
    using one into_completion_world [of F "snd b" r w] into_completion_context [of F "snd b" r w] by simp_all
  have "endpoint_ok (opt_mset (if_local_lease (snd b)) + (box_leases (mset (map fst ops)) + L)) ep w"
    using Cons.prems(1) x by (simp add: ac_simps)
  note lease = drop_lease_ok [OF this]
  show ?case
    using Cons.IH [OF lease(1) [folded w1(1)] rest] Cons.prems(2) x one rest w1 by auto
qed simp

lemma run_crc_job_ok:
  assumes inv: "winv tag X B D k n T wk" and i: "i < length (wk_jobs wk)"
  shows "winv tag X B D k n T (run_crc_job C i wk)"
proof -
  let ?jobs = "take i (wk_jobs wk) @ drop (Suc i) (wk_jobs wk)" and ?job = "wk_jobs wk ! i"
  obtain cs w where run: "complete_all (cf_fabric C) ?job (wk_world wk) = (cs, w)"
    by (cases "complete_all (cf_fabric C) ?job (wk_world wk)")
  let ?wk = "wk\<lparr>wk_world := w, wk_jobs := ?jobs, wk_batches := wk_batches wk @ [cs]\<rparr>"
  have jobs: "mset (concat (wk_jobs wk)) = mset ?job + mset (concat ?jobs)"
  proof -
    have "mset (concat (wk_jobs wk)) =
        mset (concat (take i (wk_jobs wk) @ ?job # drop (Suc i) (wk_jobs wk)))"
      using id_take_nth_drop [OF i] by (rule arg_cong)
    also have "\<dots> = mset ?job + mset (concat ?jobs)" by (simp add: ac_simps)
    finally show ?thesis .
  qed
  have all: "all_boxes wk B = mset (map fst ?job) + all_boxes ?wk B"
    using jobs by (simp add: all_boxes_def ac_simps)
  have "endpoint_ok (box_leases (mset (map fst ?job)) + box_leases (all_boxes ?wk B))
      (wk_endpoint wk) (wk_world wk)"
    using winv_endpoint [OF inv] unfolding all by simp
  note finished = complete_all_ok [OF this run]
  have "image_mset (\<lambda>c. tag (cm_caller_context c)) (mset cs)
      = image_mset (\<lambda>b. tag (if_caller_context (snd b))) (mset (map fst ?job))"
  proof -
    have "map cm_caller_context cs = map (if_caller_context \<circ> snd \<circ> fst) ?job" using finished by simp
    from arg_cong [OF this, of "\<lambda>l. mset (map tag l)"] show ?thesis
      by (simp add: comp_def image_mset.compositionality)
  qed
  then have "tags tag ?wk B = tags tag wk B"
    unfolding tags_def all by (simp add: ac_simps)
  moreover have "addrs_ok (all_boxes ?wk B)"
    using inv addrs_ok_mono [of "all_boxes ?wk B" "mset (map fst ?job)"]
    unfolding winv_def all by (simp add: add.commute)
  moreover have "charged ?wk D = charged wk D" by simp
  ultimately have "winv tag X B D k n T ?wk"
    using inv finished unfolding winv_def by simp
  then show ?thesis using run by (simp add: run_crc_job_def)
qed

lemma log_ext_drop_all: "log_ext is_mr w (registration_drop_all is w)"
proof (induction "is" arbitrary: w)
  case (Cons i "is")
  show ?case
    using log_ext_trans [OF log_ext_registration_drop [of w i] Cons.IH [of "registration_drop i w"]]
    by (simp add: registration_drop_all_def)
qed (simp add: registration_drop_all_def)

lemma log_ext_invalidate: "log_ext is_mr w (invalidate start end w)"
  using log_ext_drop_all [of "snd (invalidate_locked start end w)" "fst (invalidate_locked start end w)"]
  by (simp add: invalidate_def invalidate_locked_def Let_def split_def log_ext_def)

lemma log_ext_clear: "log_ext is_mr w (clear_domain domain w)"
  using log_ext_drop_all [of "snd (clear_domain_locked domain w)" "fst (clear_domain_locked domain w)"]
  by (simp add: clear_domain_def clear_domain_locked_def Let_def split_def log_ext_def)

lemma invalidate_ok:
  assumes inv: "winv tag X B D k n T wk"
  shows "winv tag X B D k n T (wk\<lparr>wk_world := invalidate start end (wk_world wk)\<rparr>)"
proof -
  have "endpoint_ok (box_leases (all_boxes wk B)) (wk_endpoint wk) (invalidate start end (wk_world wk))"
    using winv_endpoint [OF inv] cache_ok_invalidate peers_ok_mr_ext [OF log_ext_invalidate]
    by (auto simp: endpoint_ok_def)
  then show ?thesis
    using winv_world [OF inv, of "wk_endpoint wk"] mr_ext_wire [OF log_ext_invalidate] by simp
qed

lemma close_endpoint_ok:
  assumes inv: "winv tag X B D k n T wk"
  shows "winv tag X B D k n T (close_endpoint wk)
    \<and> arc_live (pa_arcs (ep_peers (wk_endpoint (close_endpoint wk)))) = {#}"
proof -
  let ?L = "box_leases (all_boxes wk B)" and ?w1 = "clear_domain (ep_domain (wk_endpoint wk)) (wk_world wk)"
  obtain p w2 where cl: "clear_peers (ep_peers (wk_endpoint wk)) ?w1 = (p, w2)"
    by (cases "clear_peers (ep_peers (wk_endpoint wk)) ?w1")
  note ep = winv_endpoint [OF inv]
  have ok1: "cache_ok ?L ?w1" "peers_ok {#} (ep_peers (wk_endpoint wk)) ?w1"
    using ep cache_ok_clear_domain peers_ok_mr_ext [OF log_ext_clear] by (auto simp: endpoint_ok_def)
  note cp = clear_peers_inv [OF ok1(2) cl]
  have "av_ext ?w1 w2"
    using av_ext_drop_all [of ?w1] cl by (auto simp: clear_peers_def Let_def split_def)
  then have "cache_ok ?L w2" "wire (w_log w2) = wire (w_log (wk_world wk))"
    using ok1 by (auto simp: cache_ok_av_ext av_ext_wire mr_ext_wire [OF log_ext_clear])
  moreover have "indexed p"
    using cp peers_inv_count [of "{#}" p] by (auto simp: indexed_def client_refs_def hm_values_def)
  ultimately have "winv tag X B D k n T
      (wk\<lparr>wk_endpoint := (wk_endpoint wk)\<lparr>ep_peers := p\<rparr>, wk_world := w2\<rparr>)"
    using cp by (intro winv_world [OF inv]) (auto simp: endpoint_ok_def)
  then show ?thesis
    using cl cp by (simp add: close_endpoint_def clear_regions_def)
qed

lemma shutdown_idle:
  assumes none: "wk_pending wk = []" "wk_crc_pending wk = []"
  shows "shutdown C wk = close_endpoint wk"
proof -
  have same: "wk\<lparr>wk_pending := [], wk_crc_pending := []\<rparr> = wk" using none by (cases wk) simp
  have "shutdown C wk = close_endpoint (wk\<lparr>wk_pending := [], wk_crc_pending := []\<rparr>)"
    using none by (simp add: shutdown_def)
  then show ?thesis unfolding same .
qed

lemma worker_new_ok:
  "endpoint_ok {#} ep w \<Longrightarrow> wire (w_log w) = [] \<Longrightarrow> winv tag {#} {#} {#} 0 0 {#} (worker_new ep w)"
  by (simp add: winv_def worker_new_def all_boxes_def charged_def tags_def addrs_ok_def count_of_def)

end
