(* ===== verification/Service.thy ===== *)
theory Service
  imports Worker_Invariant
begin

text \<open>
  \<open>FabricService\<close> of \<open>server.rs\<close>: the caller's side of the channel, and the system it makes with
  the worker. Callers submit transfers, add and remove peers, register memory, reclaim memory
  and drop the service; the worker goes round its loop, blocks and leaves; threads of the pool run
  the checksum jobs. The step relation \<open>service_step\<close> interleaves them. A turn of the worker is one
  iteration of one of its inner loops: one message received, one operation posted, one reaped entry
  dispatched, one quiesce read posted; \<open>sv_mode\<close> says where in the loop it is, with the local
  variables of that place. \<open>turns_make_a_pass\<close> is the agreement with \<open>pass\<close>, the whole body of the loop
  as a function. \<open>sv_submitted\<close> is a ghost list of the contexts that \<open>submit\<close> has taken.
\<close>

section \<open>The service\<close>

text \<open>
  The local variables of a place: the attempts left and what was posted; the entries of \<open>reaped\<close>
  still to be dispatched; whether there were any.
\<close>

datatype mode =
    Intake
  | Posting nat nat
  | Reaping nat
  | Dispatching "reaped list" nat bool
  | Quiescing nat nat bool
  | Delivering nat bool
  | Parked | Leaving | Gone

fun halted :: "mode \<Rightarrow> bool" where
  "halted Parked = True"
| "halted Leaving = True"
| "halted Gone = True"
| "halted _ = False"

fun undispatched :: "mode \<Rightarrow> op_context list" where
  "undispatched (Dispatching es _ _) = map fst es"
| "undispatched _ = []"

record 'c service =
  sv_worker :: "'c worker"
  sv_channel :: "'c worker_message list"
  sv_sender :: bool
  sv_mode :: mode
  sv_next_reply :: reply_id
  sv_submitted :: "'c list"

definition service_new :: "endpoint \<Rightarrow> world \<Rightarrow> 'c service" where
  "service_new ep w = \<lparr>sv_worker = worker_new ep w, sv_channel = [], sv_sender = True,
     sv_mode = Intake, sv_next_reply = 0, sv_submitted = []\<rparr>"

definition outstanding :: "'c service \<Rightarrow> nat" where
  "outstanding s = wk_outstanding (sv_worker s)"

definition add_outstanding :: "'c service \<Rightarrow> 'c service" where
  "add_outstanding s = s\<lparr>sv_worker := (sv_worker s)\<lparr>wk_outstanding := Suc (outstanding s)\<rparr>\<rparr>"

definition sub_outstanding :: "'c service \<Rightarrow> 'c service" where
  "sub_outstanding s = s\<lparr>sv_worker := release_outstanding (sv_worker s)\<rparr>"

text \<open>\<open>Sender::send\<close> gives the message back when the receiver is gone.\<close>

definition send_message ::
  "'c worker_message \<Rightarrow> 'c service \<Rightarrow> ('c worker_message, unit) result \<times> 'c service" where
  "send_message m s =
     (if sv_mode s = Gone then (Inl m, s) else (Inr (), s\<lparr>sv_channel := sv_channel s @ [m]\<rparr>))"

definition submit ::
  "'c transfer_request \<Rightarrow> 'c service \<Rightarrow> ('c transfer_request, unit) result \<times> 'c service" where
  "submit request s =
     (if \<not> sv_sender s then (Inl request, s)
      else case send_message (TransferMsg request) (add_outstanding s) of
        (Inr _, s1) \<Rightarrow> (Inr (), s1\<lparr>sv_submitted := sv_submitted s1 @ [tr_caller_context request]\<rparr>)
      | (Inl _, s1) \<Rightarrow> (Inl request, sub_outstanding s1))"

definition worker_gone :: dma_error where
  "worker_gone = Fabric ''fabric worker is gone''"

text \<open>
  \<open>register\<close> and \<open>add_peer\<close> send a message that carries the answering half of a reply slot, and
  then block on the slot. The first half is what they do up to the wait.
\<close>

definition request_reply ::
  "(reply_id \<Rightarrow> 'c worker_message) \<Rightarrow> 'c service \<Rightarrow> (dma_error, reply_id) result \<times> 'c service" where
  "request_reply m s =
     (if \<not> sv_sender s then (Inl worker_gone, s)
      else let slot = sv_next_reply s
           in case send_message (m slot) s of
                (Inl _, s1) \<Rightarrow> (Inl worker_gone, s1)
              | (Inr _, s1) \<Rightarrow> (Inr slot, s1\<lparr>sv_next_reply := Suc slot\<rparr>))"

definition register :: "usize \<Rightarrow> usize \<Rightarrow> 'c service \<Rightarrow> (dma_error, usize \<times> reply_id) result \<times> 'c service"
where
  "register base len s =
     (if 0 = len then (Inl (Fabric ''cannot register 0 bytes''), s)
      else case checked_add base len of
        None \<Rightarrow> (Inl (Fabric ''registered region range overflows''), s)
      | Some end_of \<Rightarrow>
          (case request_reply (Register base len) s of
             (Inl e, s1) \<Rightarrow> (Inl e, s1)
           | (Inr slot, s1) \<Rightarrow> (Inr (end_of, slot), s1)))"

definition add_peer :: "u64 \<Rightarrow> u8 list \<Rightarrow> 'c service \<Rightarrow> (dma_error, reply_id) result \<times> 'c service" where
  "add_peer client address = request_reply (AddPeer client address)"

definition remove_peer :: "u64 \<Rightarrow> 'c service \<Rightarrow> 'c service" where
  "remove_peer client s =
     (if sv_sender s then snd (send_message (RemovePeer client) s) else s)"

text \<open>
  The wait on a slot: \<open>None\<close> while it blocks. An answer that is dropped, with the channel that
  carried it, wakes the waiter without a value.
\<close>

definition await_reply :: "string \<Rightarrow> reply_id \<Rightarrow> 'c service \<Rightarrow> (dma_error, unit) result option" where
  "await_reply exited slot s =
     (case map_of (wk_replies (sv_worker s)) slot of
        Some answer \<Rightarrow> Some answer
      | None \<Rightarrow> if sv_mode s = Gone then Some (Inl (Fabric exited)) else None)"

definition register_wait ::
  "'s \<Rightarrow> usize \<Rightarrow> usize \<Rightarrow> reply_id \<Rightarrow> 'c service \<Rightarrow> 's region arcs
    \<Rightarrow> ((dma_error, arc_id) result \<times> 's region arcs) option" where
  "register_wait storage base end_of slot s h =
     (case await_reply ''fabric worker exited before registering'' slot s of
        None \<Rightarrow> None
      | Some (Inl e) \<Rightarrow> Some (Inl e, h)
      | Some (Inr _) \<Rightarrow> (let (i, h') = memory_region_new storage base end_of h in Some (Inr i, h')))"

definition add_peer_wait :: "reply_id \<Rightarrow> 'c service \<Rightarrow> (dma_error, unit) result option" where
  "add_peer_wait = await_reply ''fabric worker exited before adding the peer''"

text \<open>\<open>Drop\<close> closes the channel (and then joins the worker's thread).\<close>

definition service_drop :: "'c service \<Rightarrow> 'c service" where
  "service_drop s = s\<lparr>sv_sender := False\<rparr>"

section \<open>The worker's thread\<close>

definition take_in :: "'c config \<Rightarrow> 'c service \<Rightarrow> 'c service" where
  "take_in C s =
     (case sv_channel s of
        m # rest \<Rightarrow> s\<lparr>sv_worker := handle_message C m (sv_worker s), sv_channel := rest\<rparr>
      | [] \<Rightarrow>
          (let wk = (if sv_sender s then sv_worker s else (sv_worker s)\<lparr>wk_disconnected := True\<rparr>)
           in s\<lparr>sv_worker := wk, sv_mode := Posting (length (wk_pending wk)) 0\<rparr>))"

fun post_turn :: "'c config \<Rightarrow> nat \<Rightarrow> nat \<Rightarrow> 'c service \<Rightarrow> 'c service" where
  "post_turn C 0 posted s = s\<lparr>sv_mode := Reaping posted\<rparr>"
| "post_turn C (Suc attempts) posted s =
     (let wk = sv_worker s
      in if wk_in_flight wk < cf_cap C then
           (case wk_pending wk of
              [] \<Rightarrow> s\<lparr>sv_mode := Reaping posted\<rparr>
            | p # rest \<Rightarrow>
                (let (ok, wk1) = post_one C p (wk\<lparr>wk_pending := rest\<rparr>)
                 in s\<lparr>sv_worker := wk1, sv_mode := Posting attempts (if ok then Suc posted else posted)\<rparr>))
         else s\<lparr>sv_mode := Reaping posted\<rparr>)"

definition reap_turn :: "'c config \<Rightarrow> nat \<Rightarrow> 'c service \<Rightarrow> 'c service" where
  "reap_turn C posted s =
     (let (entries, wk) = reap_entries C (sv_worker s)
      in s\<lparr>sv_worker := wk, sv_mode := Dispatching entries posted (entries \<noteq> [])\<rparr>)"

fun dispatch_turn :: "'c config \<Rightarrow> reaped list \<Rightarrow> nat \<Rightarrow> bool \<Rightarrow> 'c service \<Rightarrow> 'c service" where
  "dispatch_turn C [] posted any s = s\<lparr>sv_mode := Quiescing (length (wk_quiescing (sv_worker s))) posted any\<rparr>"
| "dispatch_turn C (e # es) posted any s =
     s\<lparr>sv_worker := dispatch C e (sv_worker s), sv_mode := Dispatching es posted any\<rparr>"

fun quiesce_turn :: "'c config \<Rightarrow> nat \<Rightarrow> nat \<Rightarrow> bool \<Rightarrow> 'c service \<Rightarrow> 'c service" where
  "quiesce_turn C 0 posted any s = s\<lparr>sv_mode := Delivering posted any\<rparr>"
| "quiesce_turn C (Suc attempts) posted any s =
     (let wk = sv_worker s
      in case wk_quiescing wk of
           [] \<Rightarrow> s\<lparr>sv_mode := Delivering posted any\<rparr>
         | q # rest \<Rightarrow>
             (let (ok, wk1) = quiesce_one C q (wk\<lparr>wk_quiescing := rest\<rparr>)
              in s\<lparr>sv_worker := wk1, sv_mode := Quiescing attempts (if ok then Suc posted else posted) any\<rparr>))"

fun after_pass :: "flow \<Rightarrow> mode" where
  "after_pass Loop = Intake"
| "after_pass Park = Parked"
| "after_pass Exit = Leaving"

definition deliver_turn :: "nat \<Rightarrow> bool \<Rightarrow> 'c service \<Rightarrow> 'c service" where
  "deliver_turn posted any s =
     (let (flow, wk) = deliver posted any (sv_worker s)
      in s\<lparr>sv_worker := wk, sv_mode := after_pass flow\<rparr>)"

text \<open>Blocked in \<open>recv\<close>: a message wakes it, a closed channel ends the loop.\<close>

definition run_recv :: "'c config \<Rightarrow> 'c service \<Rightarrow> 'c service" where
  "run_recv C s =
     (case sv_channel s of
        m # rest \<Rightarrow>
          s\<lparr>sv_worker := handle_message C m (sv_worker s), sv_channel := rest, sv_mode := Intake\<rparr>
      | [] \<Rightarrow> if sv_sender s then s else s\<lparr>sv_mode := Leaving\<rparr>)"

definition run_shutdown :: "'c config \<Rightarrow> 'c service \<Rightarrow> 'c service" where
  "run_shutdown C s = s\<lparr>sv_worker := shutdown C (sv_worker s), sv_mode := Gone\<rparr>"

definition worker_turn :: "'c config \<Rightarrow> 'c service \<Rightarrow> 'c service" where
  "worker_turn C s =
     (case sv_mode s of
        Intake \<Rightarrow> take_in C s
      | Posting attempts posted \<Rightarrow> post_turn C attempts posted s
      | Reaping posted \<Rightarrow> reap_turn C posted s
      | Dispatching entries posted any \<Rightarrow> dispatch_turn C entries posted any s
      | Quiescing attempts posted any \<Rightarrow> quiesce_turn C attempts posted any s
      | Delivering posted any \<Rightarrow> deliver_turn posted any s
      | Parked \<Rightarrow> run_recv C s
      | Leaving \<Rightarrow> run_shutdown C s
      | Gone \<Rightarrow> s)"

definition run_job :: "'c config \<Rightarrow> nat \<Rightarrow> 'c service \<Rightarrow> 'c service" where
  "run_job C k s = s\<lparr>sv_worker := run_crc_job C k (sv_worker s)\<rparr>"

definition run_invalidate :: "usize \<Rightarrow> usize \<Rightarrow> 'c service \<Rightarrow> 'c service" where
  "run_invalidate a b s =
     s\<lparr>sv_worker := (sv_worker s)\<lparr>wk_world := invalidate a b (wk_world (sv_worker s))\<rparr>\<rparr>"

inductive service_step :: "'c config \<Rightarrow> 'c service \<Rightarrow> 'c service \<Rightarrow> bool" for C :: "'c config" where
  step_submit: "submit request s = (r, s') \<Longrightarrow> service_step C s s'"
| step_register: "register base len s = (r, s') \<Longrightarrow> service_step C s s'"
| step_add_peer: "add_peer client address s = (r, s') \<Longrightarrow> service_step C s s'"
| step_remove_peer: "service_step C s (remove_peer client s)"
| step_drop: "service_step C s (service_drop s)"
| step_invalidate: "service_step C s (run_invalidate a b s)"
| step_job: "k < length (wk_jobs (sv_worker s)) \<Longrightarrow> service_step C s (run_job C k s)"
| step_turn: "service_step C s (worker_turn C s)"

inductive_cases service_stepE: "service_step C s s'"

text \<open>\<open>start\<close>, once the endpoint is open with nothing on it yet.\<close>

definition service_init :: "'c service \<Rightarrow> bool" where
  "service_init s \<longleftrightarrow> (\<exists>ep w. endpoint_ok {#} ep w \<and> wire (w_log w) = [] \<and> s = service_new ep w)"

section \<open>What a pass does not touch\<close>

text \<open>
  Only the intake answers replies and notices the closed channel, and only the end of a pass hands
  completions over and work to the pool.
\<close>

definition frame :: "'c worker \<Rightarrow> (reply_id \<times> (dma_error, unit) result) list \<times> bool
    \<times> 'c completion list list \<times> 'c reaped_op list list" where
  "frame wk = (wk_replies wk, wk_disconnected wk, wk_batches wk, wk_jobs wk)"

named_theorems frame_simps

lemma frame_fields [frame_simps]:
  "\<And>x. frame (wk\<lparr>wk_world := x\<rparr>) = frame wk"
  "\<And>x. frame (wk\<lparr>wk_endpoint := x\<rparr>) = frame wk"
  "\<And>x. frame (wk\<lparr>wk_boxes := x\<rparr>) = frame wk"
  "\<And>x. frame (wk\<lparr>wk_outstanding := x\<rparr>) = frame wk"
  "\<And>x. frame (wk\<lparr>wk_by_client := x\<rparr>) = frame wk"
  "\<And>x. frame (wk\<lparr>wk_pending_removal := x\<rparr>) = frame wk"
  "\<And>x. frame (wk\<lparr>wk_pending := x\<rparr>) = frame wk"
  "\<And>x. frame (wk\<lparr>wk_quiescing := x\<rparr>) = frame wk"
  "\<And>x. frame (wk\<lparr>wk_in_flight := x\<rparr>) = frame wk"
  "\<And>x. frame (wk\<lparr>wk_completions := x\<rparr>) = frame wk"
  "\<And>x. frame (wk\<lparr>wk_crc_pending := x\<rparr>) = frame wk"
  "\<And>x. frame (wk\<lparr>wk_drain_spins := x\<rparr>) = frame wk"
  "\<And>x. frame (wk\<lparr>wk_fault := x\<rparr>) = frame wk"
  by (simp_all add: frame_def)

lemma frame_finish_op [frame_simps]: "frame (finish_op c wk) = frame wk"
  by (simp add: finish_op_def drained_def release_outstanding_def Let_def frame_simps
      split: option.split nat.split prod.split)

lemma frame_finish_unreaped [frame_simps]: "frame (finish_unreaped F op e wk) = frame wk"
  by (simp add: finish_unreaped_def split_def Let_def frame_simps)

lemma frame_reclaim [frame_simps]: "frame (snd (reclaim a wk)) = frame wk"
  by (simp add: reclaim_def frame_simps split: option.split)

lemma frame_fail_post [frame_simps]: "frame (fail_post C p e wk) = frame wk"
  by (simp add: fail_post_def reclaim_def frame_simps split: option.split)

lemma frame_post [frame_simps]: "frame (snd (snd (post C p wk))) = frame wk"
  by (simp add: post_def Let_def frame_simps split: sum.split prod.split option.split)

lemma frame_post_one [frame_simps]: "frame (snd (post_one C p wk)) = frame wk"
proof -
  obtain r p' wk1 where run: "post C p wk = (r, p', wk1)" by (cases "post C p wk")
  have "frame wk1 = frame wk" using frame_post [of C p wk] run by simp
  then show ?thesis
    by (simp add: post_one_def run Let_def frame_simps split: sum.split prod.split)
qed

lemma frame_post_loop [frame_simps]: "frame (snd (post_loop C n k wk)) = frame wk"
  by (induction n arbitrary: k wk) (simp_all add: split_def Let_def frame_simps split: list.split)

lemma frame_dispatch [frame_simps]: "frame (dispatch C e wk) = frame wk"
proof -
  obtain r wk1 where run: "reclaim (fst e) wk = (r, wk1)" by (cases "reclaim (fst e) wk")
  have "frame wk1 = frame wk" using frame_reclaim [of "fst e" wk] run by simp
  then show ?thesis
    by (simp add: dispatch_def run Let_def split_def frame_simps split: sum.split option.split)
qed

lemma frame_dispatch_all [frame_simps]: "frame (fold (dispatch C) es wk) = frame wk"
  by (induction es arbitrary: wk) (simp_all add: frame_simps)

lemma frame_post_quiesce [frame_simps]: "frame (snd (post_quiesce C q wk)) = frame wk"
  by (simp add: post_quiesce_def Let_def frame_simps split: sum.split prod.split)

lemma frame_quiesce_one [frame_simps]: "frame (snd (quiesce_one C q wk)) = frame wk"
proof -
  obtain r wk1 where run: "post_quiesce C q wk = (r, wk1)" by (cases "post_quiesce C q wk")
  have "frame wk1 = frame wk" using frame_post_quiesce [of C q wk] run by simp
  then show ?thesis
    by (simp add: quiesce_one_def run Let_def frame_simps split: quiesce_post.split prod.split)
qed

lemma frame_quiesce_loop [frame_simps]: "frame (snd (quiesce_loop C n k wk)) = frame wk"
  by (induction n arbitrary: k wk) (simp_all add: split_def Let_def frame_simps split: list.split)

lemma deliver_frame:
  assumes "deliver posted reaped_any wk = (flow, wk')"
  shows "wk_replies wk' = wk_replies wk \<and> wk_disconnected wk' = wk_disconnected wk
    \<and> (wk_batches wk' = wk_batches wk \<or> wk_batches wk' = wk_batches wk @ [wk_completions wk])"
  using assms
  by (auto simp: deliver_def after_delivery_def submit_crc_batch_def Let_def split: if_splits)

lemma frame_reap_entries [frame_simps]: "frame (snd (reap_entries C wk)) = frame wk"
  by (simp add: reap_entries_def Let_def split_def frame_simps)

lemma run_crc_job_frame:
  "wk_replies (run_crc_job C k wk) = wk_replies wk
   \<and> wk_disconnected (run_crc_job C k wk) = wk_disconnected wk
   \<and> (\<exists>b. wk_batches (run_crc_job C k wk) = wk_batches wk @ [b])"
  by (simp add: run_crc_job_def split_def Let_def)

lemma frame_close_endpoint [frame_simps]: "frame (close_endpoint wk) = frame wk"
  by (simp add: close_endpoint_def split_def Let_def frame_simps)

text \<open>The slots answered by the intake are those of its messages, in order.\<close>

fun reply_slots :: "'c worker_message list \<Rightarrow> reply_id list" where
  "reply_slots [] = []"
| "reply_slots (AddPeer _ _ slot # ms) = slot # reply_slots ms"
| "reply_slots (Register _ _ slot # ms) = slot # reply_slots ms"
| "reply_slots (_ # ms) = reply_slots ms"

lemma reply_slots_append [simp]: "reply_slots (ms @ ns) = reply_slots ms @ reply_slots ns"
  by (induction ms rule: reply_slots.induct) auto

lemma transfers_append [simp]: "transfers (ms @ ns) = transfers ms @ transfers ns"
  by (induction ms rule: transfers.induct) auto

lemma handle_message_replies:
  "map fst (wk_replies (handle_message C m wk)) = map fst (wk_replies wk) @ reply_slots [m]
   \<and> wk_disconnected (handle_message C m wk) = wk_disconnected wk
   \<and> wk_batches (handle_message C m wk) = wk_batches wk"
  by (cases m) (auto simp: handle_message_def accept_def remove_or_defer_def release_outstanding_def
      Let_def split: sum.split prod.split)

section \<open>The invariant of the system\<close>

text \<open>
  \<open>taken tag wk\<close> are the tags of the contexts the worker has taken in: each is in a box or in a
  completion. The worker is quiet when it is idle and has nothing left to deliver.
\<close>

definition quiet :: "'c worker \<Rightarrow> bool" where
  "quiet wk \<longleftrightarrow> idle wk \<and> wk_completions wk = [] \<and> wk_crc_pending wk = []"

definition waiting :: "('c \<Rightarrow> 't) \<Rightarrow> 'c service \<Rightarrow> 't multiset" where
  "waiting tag s = mset (map (tag \<circ> tr_caller_context) (transfers (sv_channel s)))"

definition sinv :: "('c \<Rightarrow> 't) \<Rightarrow> 'c service \<Rightarrow> bool" where
  "sinv tag s \<longleftrightarrow>
     winv tag (mset (undispatched (sv_mode s))) {#} {#} 0 (length (transfers (sv_channel s)))
       (tags tag (sv_worker s) {#}) (sv_worker s)
   \<and> mset (map tag (sv_submitted s)) = waiting tag s + tags tag (sv_worker s) {#}
   \<and> map fst (wk_replies (sv_worker s)) @ reply_slots (sv_channel s) = [0..<sv_next_reply s]
   \<and> (wk_disconnected (sv_worker s) \<or> sv_mode s \<in> {Leaving, Gone} \<longrightarrow> \<not> sv_sender s \<and> sv_channel s = [])
   \<and> (halted (sv_mode s) \<longrightarrow> quiet (sv_worker s))
   \<and> (sv_mode s = Gone \<longrightarrow> arc_live (pa_arcs (ep_peers (wk_endpoint (sv_worker s)))) = {#})"

lemma sinv_parts:
  assumes "sinv tag s"
  shows "winv tag (mset (undispatched (sv_mode s))) {#} {#} 0 (length (transfers (sv_channel s)))
      (tags tag (sv_worker s) {#}) (sv_worker s)"
    and "mset (map tag (sv_submitted s)) = waiting tag s + tags tag (sv_worker s) {#}"
    and "map fst (wk_replies (sv_worker s)) @ reply_slots (sv_channel s) = [0..<sv_next_reply s]"
    and "wk_disconnected (sv_worker s) \<or> sv_mode s \<in> {Leaving, Gone} \<Longrightarrow> \<not> sv_sender s \<and> sv_channel s = []"
    and "halted (sv_mode s) \<Longrightarrow> quiet (sv_worker s)"
    and "sv_mode s = Gone \<Longrightarrow> arc_live (pa_arcs (ep_peers (wk_endpoint (sv_worker s)))) = {#}"
  using assms unfolding sinv_def by blast+

lemma winv_tags: "winv tag X B D k n T wk \<Longrightarrow> T = tags tag wk B"
  by (simp add: winv_def)

lemma winv_outstanding:
  "winv tag X B D k n T wk \<Longrightarrow> winv tag X B D k (Suc n) T (wk\<lparr>wk_outstanding := Suc (wk_outstanding wk)\<rparr>)"
  by (simp add: winv_def)

lemma sinv_init: "service_init s \<Longrightarrow> sinv tag s"
proof -
  assume "service_init s"
  then obtain ep w where s: "endpoint_ok {#} ep w" "wire (w_log w) = []" "s = service_new ep w"
    by (auto simp: service_init_def)
  have "tags tag (worker_new ep w) {#} = {#}" by (simp add: tags_def all_boxes_def worker_new_def)
  then show ?thesis
    using worker_new_ok [OF s(1,2), of tag]
    by (simp add: sinv_def s(3) service_new_def waiting_def) (simp add: worker_new_def)
qed

text \<open>The caller's side.\<close>

lemma quiet_outstanding [simp]: "quiet (wk\<lparr>wk_outstanding := n\<rparr>) = quiet wk"
  by (simp add: quiet_def idle_def)

lemma sinv_submit:
  assumes inv: "sinv tag s" and run: "submit request s = (r, s')"
  shows "sinv tag s'"
proof (cases "sv_sender s")
  case False
  then show ?thesis using inv run by (simp add: submit_def)
next
  case True
  note P = sinv_parts [OF inv]
  have open_: "sv_mode s \<noteq> Gone" "sv_mode s \<noteq> Leaving" "\<not> wk_disconnected (sv_worker s)"
    using P(4) True by auto
  let ?wk = "(sv_worker s)\<lparr>wk_outstanding := Suc (wk_outstanding (sv_worker s))\<rparr>"
  have s': "s' = s\<lparr>sv_worker := ?wk, sv_channel := sv_channel s @ [TransferMsg request],
      sv_submitted := sv_submitted s @ [tr_caller_context request]\<rparr>"
    using run True open_
    by (simp add: submit_def send_message_def add_outstanding_def outstanding_def)
  show ?thesis
    using P winv_outstanding [OF P(1)] open_ True by (simp add: sinv_def s' waiting_def)
qed

lemma sinv_send:
  assumes inv: "sinv tag s" and "sv_sender s" "transfers [m] = []"
    and slots: "reply_slots [m] = [sv_next_reply s..<next_reply]"  "sv_next_reply s \<le> next_reply"
  shows "sinv tag (s\<lparr>sv_channel := sv_channel s @ [m], sv_next_reply := next_reply\<rparr>)"
proof -
  note P = sinv_parts [OF inv]
  have "map fst (wk_replies (sv_worker s)) @ reply_slots (sv_channel s) @ reply_slots [m] = [0..<next_reply]"
    using P(3) slots upt_add_eq_append [of 0 "sv_next_reply s" "next_reply - sv_next_reply s"]
    by (simp add: append_assoc [symmetric] del: append_assoc)
  then show ?thesis
    using assms P by (auto simp: sinv_def waiting_def)
qed

lemma sinv_request_reply:
  assumes inv: "sinv tag s" and m: "\<And>slot. transfers [m slot] = [] \<and> reply_slots [m slot] = [slot]"
    and run: "request_reply m s = (r, s')"
  shows "sinv tag s'"
proof (cases "sv_sender s")
  case True
  then have "sv_mode s \<noteq> Gone" using sinv_parts(4) [OF inv] by auto
  then have "s' = s\<lparr>sv_channel := sv_channel s @ [m (sv_next_reply s)], sv_next_reply := Suc (sv_next_reply s)\<rparr>"
    using run True by (simp add: request_reply_def send_message_def Let_def)
  then show ?thesis using sinv_send [OF inv True] m by simp
qed (use inv run in \<open>simp add: request_reply_def\<close>)

lemma sinv_register: "sinv tag s \<Longrightarrow> register base len s = (r, s') \<Longrightarrow> sinv tag s'"
  using sinv_request_reply [of tag s "Register base len"]
  by (auto simp: register_def split: if_splits option.splits sum.splits prod.splits)

lemma sinv_add_peer: "sinv tag s \<Longrightarrow> add_peer client address s = (r, s') \<Longrightarrow> sinv tag s'"
  using sinv_request_reply [of tag s "AddPeer client address"] by (simp add: add_peer_def)

lemma sinv_remove_peer: "sinv tag s \<Longrightarrow> sinv tag (remove_peer client s)"
  using sinv_send [of tag s "RemovePeer client" "sv_next_reply s"]
  by (auto simp: remove_peer_def send_message_def)

lemma sinv_drop: "sinv tag s \<Longrightarrow> sinv tag (service_drop s)"
  by (auto simp: sinv_def service_drop_def waiting_def)

text \<open>The other threads.\<close>

lemma quiet_world [simp]: "quiet (wk\<lparr>wk_world := w\<rparr>) = quiet wk"
  by (simp add: quiet_def idle_def)

lemma quiet_run_crc_job [simp]: "quiet (run_crc_job C k wk) = quiet wk"
  by (simp add: quiet_def idle_def run_crc_job_def split_def Let_def)

lemma quiet_close_endpoint [simp]: "quiet (close_endpoint wk) = quiet wk"
  by (simp add: quiet_def idle_def close_endpoint_def split_def Let_def)

lemma sinv_invalidate: "sinv tag s \<Longrightarrow> sinv tag (run_invalidate a b s)"
  using invalidate_ok [of tag "mset (undispatched (sv_mode s))" "{#}" "{#}" 0 "length (transfers (sv_channel s))"
    "tags tag (sv_worker s) {#}" "sv_worker s" a b]
  by (simp add: sinv_def run_invalidate_def waiting_def)

lemma run_crc_job_endpoint [simp]: "wk_endpoint (run_crc_job C k wk) = wk_endpoint wk"
  by (simp add: run_crc_job_def split_def Let_def)

lemma sinv_job:
  assumes inv: "sinv tag s" and k: "k < length (wk_jobs (sv_worker s))"
  shows "sinv tag (run_job C k s)"
proof -
  note P = sinv_parts [OF inv]
  note job = run_crc_job_ok [OF P(1) k, of C]
  show ?thesis
    using run_crc_job_frame [of C k "sv_worker s"] P job winv_tags [OF job, symmetric]
    by (simp add: sinv_def run_job_def waiting_def)
qed

lemma sinv_shutdown:
  assumes inv: "sinv tag s" and mode: "sv_mode s = Leaving"
  shows "sinv tag (run_shutdown C s)"
proof -
  note P = sinv_parts [OF inv]
  have quiet: "quiet (sv_worker s)" using P(5) mode by simp
  then have same: "shutdown C (sv_worker s) = close_endpoint (sv_worker s)"
    by (intro shutdown_idle) (simp_all add: quiet_def idle_def)
  note cl = close_endpoint_ok [OF P(1)]
  have "frame (close_endpoint (sv_worker s)) = frame (sv_worker s)" by (rule frame_close_endpoint)
  then show ?thesis
    using P cl winv_tags [OF conjunct1 [OF cl], symmetric] quiet mode
    by (simp add: sinv_def run_shutdown_def same waiting_def frame_def)
qed

context worker_env
begin

text \<open>A message taken off the channel, at the intake or out of the sleep.\<close>

lemma sinv_message:
  assumes inv: "sinv tag s" and Cons: "sv_channel s = m # rest"
    and mode: "undispatched (sv_mode s) = []"
  shows "sinv tag (s\<lparr>sv_worker := handle_message C m (sv_worker s), sv_channel := rest, sv_mode := Intake\<rparr>)"
proof -
  note P = sinv_parts [OF inv]
  let ?T = "tags tag (sv_worker s) {#}" and ?wk = "handle_message C m (sv_worker s)"
  have split: "transfers (m # rest) = transfers [m] @ transfers rest"
    "reply_slots (m # rest) = reply_slots [m] @ reply_slots rest" by (cases m; simp)+
  have connected: "\<not> wk_disconnected (sv_worker s)" using P(4) Cons by auto
  have "winv tag {#} {#} {#} 0 (length (transfers [m]) + length (transfers rest)) ?T (sv_worker s)"
    using P(1) mode unfolding Cons split by simp
  note ok = handle_message_ok [OF this]
  have tags: "tags tag ?wk {#} = mset (map (tag \<circ> tr_caller_context) (transfers [m])) + ?T"
    using winv_tags [OF ok] by simp
  show ?thesis
    using ok tags P(2,3) connected handle_message_replies [of C m "sv_worker s"]
    unfolding sinv_def Cons waiting_def split by (simp add: Cons split ac_simps)
qed

text \<open>A turn that leaves channel, replies and the closed flag alone keeps the rest of the invariant.\<close>

lemma sinv_moved:
  assumes inv: "sinv tag s"
    and same: "wk_replies wk = wk_replies (sv_worker s)" "wk_disconnected wk = wk_disconnected (sv_worker s)"
    and ok: "winv tag (mset (undispatched m)) {#} {#} 0 (length (transfers (sv_channel s)))
      (tags tag (sv_worker s) {#}) wk"
    and stop: "halted m \<Longrightarrow> quiet wk" "m = Leaving \<Longrightarrow> wk_disconnected wk" "m \<noteq> Gone"
  shows "sinv tag (s\<lparr>sv_worker := wk, sv_mode := m\<rparr>)"
  using sinv_parts [OF inv] same ok stop winv_tags [OF ok, symmetric] by (auto simp: sinv_def waiting_def)

lemma sinv_mode:
  assumes "sinv tag s" "undispatched (sv_mode s) = []" "undispatched m = []" "\<not> halted m"
  shows "sinv tag (s\<lparr>sv_mode := m\<rparr>)"
  using sinv_moved [OF assms(1), of "sv_worker s" m] sinv_parts(1) [OF assms(1)] assms(2-4) by (cases m) auto

lemma sinv_take_in:
  assumes inv: "sinv tag s" and mode: "sv_mode s = Intake"
  shows "sinv tag (take_in C s)"
proof (cases "sv_channel s")
  case Nil
  note P = sinv_parts [OF inv]
  let ?wk = "(sv_worker s)\<lparr>wk_disconnected := True\<rparr>"
  have "winv tag {#} {#} {#} 0 0 (tags tag ?wk {#}) ?wk" using P(1) mode Nil by (simp add: winv_def)
  then show ?thesis using P mode Nil by (auto simp: take_in_def sinv_def waiting_def Let_def)
next
  case (Cons m rest)
  have "take_in C s = s\<lparr>sv_worker := handle_message C m (sv_worker s), sv_channel := rest, sv_mode := Intake\<rparr>"
    using Cons mode by (cases s) (simp add: take_in_def)
  then show ?thesis using sinv_message [OF inv Cons] mode by simp
qed

lemma sinv_post_turn:
  assumes inv: "sinv tag s" and mode: "sv_mode s = Posting attempts posted"
  shows "sinv tag (post_turn C attempts posted s)"
proof (cases "\<exists>n p rest. attempts = Suc n \<and> wk_pending (sv_worker s) = p # rest \<and> wk_in_flight (sv_worker s) < cf_cap C")
  case True
  then obtain n p rest where cons: "attempts = Suc n" "wk_pending (sv_worker s) = p # rest"
    "wk_in_flight (sv_worker s) < cf_cap C" by blast
  let ?wk0 = "(sv_worker s)\<lparr>wk_pending := rest\<rparr>"
  obtain ok wk where run: "post_one C p ?wk0 = (ok, wk)" by (cases "post_one C p ?wk0")
  have inv0: "winv tag {#} {#} {#} 0 (length (transfers (sv_channel s))) (tags tag (sv_worker s) {#}) (sv_worker s)"
    using sinv_parts(1) [OF inv] mode by simp
  have "winv tag {#} {#} {#} 0 (length (transfers (sv_channel s))) (tags tag (sv_worker s) {#}) wk"
    using post_one_ok [OF winv_pop_pending [OF inv0 cons(2)], of C] run by simp
  moreover have "frame wk = frame (sv_worker s)" using frame_post_one [of C p ?wk0] run by (simp add: frame_simps)
  ultimately show ?thesis
    using sinv_moved [OF inv, of wk "Posting n (if ok then Suc posted else posted)"] run cons
    by (simp add: frame_def)
next
  case False
  then have "post_turn C attempts posted s = s\<lparr>sv_mode := Reaping posted\<rparr>"
    by (cases attempts; cases "wk_pending (sv_worker s)") (auto simp: Let_def)
  then show ?thesis using sinv_mode [OF inv] mode by simp
qed

lemma sinv_reap_turn:
  assumes inv: "sinv tag s" and mode: "sv_mode s = Reaping posted"
  shows "sinv tag (reap_turn C posted s)"
proof -
  obtain out wk where run: "reap_entries C (sv_worker s) = (out, wk)" by (cases "reap_entries C (sv_worker s)")
  have inv0: "winv tag {#} {#} {#} 0 (length (transfers (sv_channel s))) (tags tag (sv_worker s) {#}) (sv_worker s)"
    using sinv_parts(1) [OF inv] mode by simp
  have "frame wk = frame (sv_worker s)" using frame_reap_entries [of C "sv_worker s"] run by simp
  then show ?thesis
    using sinv_moved [OF inv, of wk "Dispatching out posted (out \<noteq> [])"] reap_entries_ok [OF contract inv0 run] run
    by (simp add: reap_turn_def frame_def)
qed

lemma sinv_dispatch_turn:
  assumes inv: "sinv tag s" and mode: "sv_mode s = Dispatching es posted any"
  shows "sinv tag (dispatch_turn C es posted any s)"
proof (cases es)
  case Nil
  then show ?thesis using sinv_mode [OF inv] mode by simp
next
  case (Cons e rest)
  have "winv tag (add_mset (fst e) (mset (map fst rest))) {#} {#} 0 (length (transfers (sv_channel s)))
      (tags tag (sv_worker s) {#}) (sv_worker s)"
    using sinv_parts(1) [OF inv] mode Cons by simp
  note ok = dispatch_ok [OF this, of C]
  have "frame (dispatch C e (sv_worker s)) = frame (sv_worker s)" by (rule frame_dispatch)
  then show ?thesis
    using sinv_moved [OF inv, of "dispatch C e (sv_worker s)" "Dispatching rest posted any"] ok Cons
    by (simp add: frame_def)
qed

lemma sinv_quiesce_turn:
  assumes inv: "sinv tag s" and mode: "sv_mode s = Quiescing attempts posted any"
  shows "sinv tag (quiesce_turn C attempts posted any s)"
proof (cases "\<exists>n q rest. attempts = Suc n \<and> wk_quiescing (sv_worker s) = q # rest")
  case True
  then obtain n q rest where cons: "attempts = Suc n" "wk_quiescing (sv_worker s) = q # rest" by blast
  let ?wk0 = "(sv_worker s)\<lparr>wk_quiescing := rest\<rparr>"
  obtain ok wk where run: "quiesce_one C q ?wk0 = (ok, wk)" by (cases "quiesce_one C q ?wk0")
  have inv0: "winv tag {#} {#} {#} 0 (length (transfers (sv_channel s))) (tags tag (sv_worker s) {#}) (sv_worker s)"
    using sinv_parts(1) [OF inv] mode by simp
  have "winv tag {#} {#} {#} 0 (length (transfers (sv_channel s))) (tags tag (sv_worker s) {#}) wk"
    using quiesce_one_ok [OF winv_pop_quiescing [OF inv0 cons(2)], of C] run by simp
  moreover have "frame wk = frame (sv_worker s)" using frame_quiesce_one [of C q ?wk0] run by (simp add: frame_simps)
  ultimately show ?thesis
    using sinv_moved [OF inv, of wk "Quiescing n (if ok then Suc posted else posted) any"] run cons
    by (simp add: frame_def)
next
  case False
  then have "quiesce_turn C attempts posted any s = s\<lparr>sv_mode := Delivering posted any\<rparr>"
    by (cases attempts; cases "wk_quiescing (sv_worker s)") (auto simp: Let_def)
  then show ?thesis using sinv_mode [OF inv] mode by simp
qed

lemma sinv_deliver_turn:
  assumes inv: "sinv tag s" and mode: "sv_mode s = Delivering posted any"
  shows "sinv tag (deliver_turn posted any s)"
proof -
  obtain flow wk where run: "deliver posted any (sv_worker s) = (flow, wk)" by (cases "deliver posted any (sv_worker s)")
  have inv0: "winv tag {#} {#} {#} 0 (length (transfers (sv_channel s))) (tags tag (sv_worker s) {#}) (sv_worker s)"
    using sinv_parts(1) [OF inv] mode by simp
  have "winv tag {#} {#} {#} 0 (length (transfers (sv_channel s))) (tags tag (sv_worker s) {#}) wk"
    using deliver_ok [OF inv0, of posted any] run by simp
  then show ?thesis
    using sinv_moved [OF inv, of wk "after_pass flow"] run deliver_frame [OF run] deliver_stops [OF inv0 run]
    by (cases flow) (simp_all add: deliver_turn_def quiet_def)
qed

lemma sinv_recv:
  assumes inv: "sinv tag s" and mode: "sv_mode s = Parked"
  shows "sinv tag (run_recv C s)"
proof (cases "sv_channel s")
  case Nil
  then show ?thesis
    using inv mode by (auto simp: run_recv_def sinv_def waiting_def)
next
  case (Cons m rest)
  then show ?thesis using sinv_message [OF inv Cons] mode by (simp add: run_recv_def)
qed

lemma sinv_turn: "sinv tag s \<Longrightarrow> sinv tag (worker_turn C s)"
  by (cases "sv_mode s") (simp_all add: worker_turn_def sinv_take_in sinv_post_turn sinv_reap_turn
      sinv_dispatch_turn sinv_quiesce_turn sinv_deliver_turn sinv_recv sinv_shutdown)

lemma sinv_step: "sinv tag s \<Longrightarrow> service_step C s s' \<Longrightarrow> sinv tag s'"
  by (erule service_stepE)
    (auto intro: sinv_submit sinv_register sinv_add_peer sinv_remove_peer sinv_drop sinv_invalidate
      sinv_job sinv_turn)

end

text \<open>
  What the service relies on: boxes get addresses that are not in use, the completion queue keeps
  its contract, and \<open>allocate\<close> leaves the tag of the caller's context alone.
\<close>

sublocale worker_env \<subseteq> system: step_invariant service_init "service_step C" "sinv tag"
  by unfold_locales (auto intro: sinv_init sinv_step)

definition environment_ok :: "'c config \<Rightarrow> ('c \<Rightarrow> 't) \<Rightarrow> bool" where
  "environment_ok C tag \<longleftrightarrow>
     (\<forall>live. cf_box_alloc C live \<notin> set live \<and> cf_box_alloc C live \<noteq> 0) \<and> cq_contract (cf_fabric C)
   \<and> (\<forall>ctx len. tag (snd (op_allocate (cf_operands C) ctx len)) = tag ctx)"

lemma reachable_sinv:
  assumes "environment_ok C tag" "reachable service_init (service_step C) s"
  shows "sinv tag s"
proof -
  have "worker_env C tag" using assms(1) by unfold_locales (auto simp: environment_ok_def)
  then have "step_invariant service_init (service_step C) (sinv tag)"
    by (intro step_invariant.intro) (auto intro: sinv_init worker_env.sinv_step)
  then show ?thesis using assms(2) by (rule step_invariant.reachable_inv)
qed

end
