(* ===== verification/Settings.thy ===== *)
theory Settings
  imports Protocol
begin

text \<open>
  The settings of the program: \<open>configuration.rs\<close> of the libfabric crate (providers, the local
  section) and the crate \<open>configuration\<close> (the \<open>jemalloc\<close> and \<open>observability\<close> sections, the root and
  reading it from a TOML document). The TOML parser is a third-party crate: its result is the
  datatype \<open>toml\<close>. What the source states of the way a table becomes a structure (the names of the
  fields, their defaults, that unknown keys are refused) is modelled; the texts of the messages of
  the deserialiser are not, only which key or value it refuses. Times are in nanoseconds.
\<close>

section \<open>Providers\<close>

datatype provider = Tcp | EfaDirect

fun provider_as_str :: "provider \<Rightarrow> string" where
  "provider_as_str Tcp = ''tcp''"
| "provider_as_str EfaDirect = ''efa''"

fun provider_fabric_name :: "provider \<Rightarrow> string option" where
  "provider_fabric_name EfaDirect = Some ''efa-direct''"
| "provider_fabric_name Tcp = None"

text \<open>The two constants of the bindings are arguments.\<close>

fun required_mode :: "u64 \<Rightarrow> u64 \<Rightarrow> provider \<Rightarrow> u64" where
  "required_mode FI_CONTEXT2 FI_RX_CQ_DATA Tcp = 0"
| "required_mode FI_CONTEXT2 FI_RX_CQ_DATA EfaDirect = FI_CONTEXT2 OR FI_RX_CQ_DATA"

section \<open>The sections\<close>

record libfabric_configuration =
  lc_providers :: "provider list"
  lc_interfaces :: "string list"
  lc_bind :: "string option"
  lc_max_in_flight :: "nat option"
  lc_crc_pool_threads :: "nat option"
  lc_progress_deadline :: nat
  lc_quiesce_writes :: bool

definition default_progress_deadline :: nat where
  "default_progress_deadline = 1000000000"

definition default_providers :: "provider list" where
  "default_providers = [Tcp]"

definition default_libfabric :: libfabric_configuration where
  "default_libfabric = \<lparr>lc_providers = default_providers, lc_interfaces = [], lc_bind = None,
     lc_max_in_flight = None, lc_crc_pool_threads = None,
     lc_progress_deadline = default_progress_deadline, lc_quiesce_writes = False\<rparr>"

record jemalloc_configuration =
  jc_huge_arena_decay_ms :: int
  jc_huge_arena_oversize_threshold :: nat

definition default_huge_arena_decay_ms :: int where
  "default_huge_arena_decay_ms = 1000"

definition default_huge_arena_oversize_threshold :: nat where
  "default_huge_arena_oversize_threshold = 512 * 1024 * 1024"

definition default_jemalloc :: jemalloc_configuration where
  "default_jemalloc = \<lparr>jc_huge_arena_decay_ms = default_huge_arena_decay_ms,
     jc_huge_arena_oversize_threshold = default_huge_arena_oversize_threshold\<rparr>"

text \<open>A socket address is four bytes (or sixteen) and a port.\<close>

type_synonym socket_addr = "u8 list \<times> nat"

record console_host_configuration =
  ch_listen :: socket_addr

definition default_listen :: socket_addr where
  "default_listen = ([127, 0, 0, 1], 7777)"

definition default_console_host :: console_host_configuration where
  "default_console_host = \<lparr>ch_listen = default_listen\<rparr>"

record observability_configuration =
  oc_console_host :: "console_host_configuration option"

definition default_observability :: observability_configuration where
  "default_observability = \<lparr>oc_console_host = None\<rparr>"

record configuration =
  root_libfabric :: libfabric_configuration
  root_jemalloc :: jemalloc_configuration
  root_observability :: observability_configuration

definition default_configuration :: configuration where
  "default_configuration = \<lparr>root_libfabric = default_libfabric, root_jemalloc = default_jemalloc,
     root_observability = default_observability\<rparr>"

section \<open>Reading a document\<close>

datatype toml =
    TString string
  | TInteger int
  | TBoolean bool
  | TArray "toml list"
  | TTable "(string \<times> toml) list"

text \<open>What a table is refused for.\<close>

datatype refusal = UnknownField string | InvalidValue | MissingField string

fun deny_unknown :: "string list \<Rightarrow> (string \<times> toml) list \<Rightarrow> (refusal, unit) result" where
  "deny_unknown known [] = Inr ()"
| "deny_unknown known ((k, _) # t) = (if k \<in> set known then deny_unknown known t else Inl (UnknownField k))"

text \<open>A field with a default, read with \<open>d\<close> when present.\<close>

definition field_or :: "'a \<Rightarrow> (toml \<Rightarrow> 'a option) \<Rightarrow> string \<Rightarrow> (string \<times> toml) list \<Rightarrow> (refusal, 'a) result" where
  "field_or dflt d k t =
     (case map_of t k of
        None \<Rightarrow> Inr dflt
      | Some v \<Rightarrow> (case d v of Some x \<Rightarrow> Inr x | None \<Rightarrow> Inl InvalidValue))"

fun de_string :: "toml \<Rightarrow> string option" where
  "de_string (TString s) = Some s" | "de_string _ = None"

fun de_bool :: "toml \<Rightarrow> bool option" where
  "de_bool (TBoolean b) = Some b" | "de_bool _ = None"

fun de_unsigned :: "nat \<Rightarrow> toml \<Rightarrow> nat option" where
  "de_unsigned w (TInteger i) = (if 0 \<le> i \<and> i < 2 ^ w then Some (nat i) else None)"
| "de_unsigned w _ = None"

fun de_i64 :: "toml \<Rightarrow> int option" where
  "de_i64 (TInteger i) = (if - (2 ^ 63) \<le> i \<and> i < 2 ^ 63 then Some i else None)"
| "de_i64 _ = None"

fun de_list :: "(toml \<Rightarrow> 'a option) \<Rightarrow> toml \<Rightarrow> 'a list option" where
  "de_list d (TArray vs) = those (map d vs)"
| "de_list d _ = None"

fun de_provider :: "toml \<Rightarrow> provider option" where
  "de_provider (TString s) =
     (if s = ''tcp'' then Some Tcp else if s = ''efa-direct'' then Some EfaDirect else None)"
| "de_provider _ = None"

definition libfabric_fields :: "string list" where
  "libfabric_fields = [''providers'', ''interfaces'', ''bind'', ''max_in_flight'', ''crc_pool_threads'',
     ''progress_deadline'', ''quiesce_writes'']"

definition bind_result :: "('e, 'a) result \<Rightarrow> ('a \<Rightarrow> ('e, 'b) result) \<Rightarrow> ('e, 'b) result" where
  "bind_result r f = (case r of Inl e \<Rightarrow> Inl e | Inr x \<Rightarrow> f x)"

text \<open>The reader of a \<open>Duration\<close> is serde's, an argument.\<close>

definition de_libfabric ::
  "(toml \<Rightarrow> nat option) \<Rightarrow> (string \<times> toml) list \<Rightarrow> (refusal, libfabric_configuration) result" where
  "de_libfabric de_duration t =
     bind_result (deny_unknown libfabric_fields t) (\<lambda>_.
     bind_result (field_or default_providers (de_list de_provider) ''providers'' t) (\<lambda>ps.
     bind_result (field_or [] (de_list de_string) ''interfaces'' t) (\<lambda>is.
     bind_result (field_or None (map_option Some \<circ> de_string) ''bind'' t) (\<lambda>b.
     bind_result (field_or None (map_option Some \<circ> de_unsigned 64) ''max_in_flight'' t) (\<lambda>m.
     bind_result (field_or None (map_option Some \<circ> de_unsigned 64) ''crc_pool_threads'' t) (\<lambda>c.
     bind_result (field_or default_progress_deadline de_duration ''progress_deadline'' t) (\<lambda>d.
     bind_result (field_or False de_bool ''quiesce_writes'' t) (\<lambda>q.
       Inr \<lparr>lc_providers = ps, lc_interfaces = is, lc_bind = b, lc_max_in_flight = m,
            lc_crc_pool_threads = c, lc_progress_deadline = d, lc_quiesce_writes = q\<rparr>))))))))"

definition de_jemalloc :: "(string \<times> toml) list \<Rightarrow> (refusal, jemalloc_configuration) result" where
  "de_jemalloc t =
     bind_result (deny_unknown [''huge_arena_decay_ms'', ''huge_arena_oversize_threshold''] t) (\<lambda>_.
     bind_result (field_or default_huge_arena_decay_ms de_i64 ''huge_arena_decay_ms'' t) (\<lambda>d.
     bind_result (field_or default_huge_arena_oversize_threshold (de_unsigned 64)
         ''huge_arena_oversize_threshold'' t) (\<lambda>o'.
       Inr \<lparr>jc_huge_arena_decay_ms = d, jc_huge_arena_oversize_threshold = o'\<rparr>)))"

text \<open>A section nested in a table, with its own reader.\<close>

definition section_or ::
  "'a \<Rightarrow> ((string \<times> toml) list \<Rightarrow> (refusal, 'a) result) \<Rightarrow> string \<Rightarrow> (string \<times> toml) list
    \<Rightarrow> (refusal, 'a) result" where
  "section_or dflt d k t =
     (case map_of t k of
        None \<Rightarrow> Inr dflt
      | Some (TTable t') \<Rightarrow> d t'
      | Some _ \<Rightarrow> Inl InvalidValue)"

definition de_console_host ::
  "(string \<Rightarrow> socket_addr option) \<Rightarrow> (string \<times> toml) list \<Rightarrow> (refusal, console_host_configuration) result"
where
  "de_console_host parse_addr t =
     bind_result (deny_unknown [''listen''] t) (\<lambda>_.
     bind_result (field_or default_listen (\<lambda>v. Option.bind (de_string v) parse_addr) ''listen'' t) (\<lambda>l.
       Inr \<lparr>ch_listen = l\<rparr>))"

definition de_observability ::
  "(string \<Rightarrow> socket_addr option) \<Rightarrow> (string \<times> toml) list \<Rightarrow> (refusal, observability_configuration) result"
where
  "de_observability parse_addr t =
     bind_result (deny_unknown [''console-host''] t) (\<lambda>_.
     bind_result (section_or None (\<lambda>t'. bind_result (de_console_host parse_addr t') (\<lambda>c. Inr (Some c)))
         ''console-host'' t) (\<lambda>c. Inr \<lparr>oc_console_host = c\<rparr>))"

definition de_configuration ::
  "(toml \<Rightarrow> nat option) \<Rightarrow> (string \<Rightarrow> socket_addr option) \<Rightarrow> (string \<times> toml) list
    \<Rightarrow> (refusal, configuration) result" where
  "de_configuration de_duration parse_addr t =
     bind_result (deny_unknown [''dma-libfabric'', ''jemalloc'', ''observability''] t) (\<lambda>_.
     bind_result (section_or default_libfabric (de_libfabric de_duration) ''dma-libfabric'' t) (\<lambda>l.
     bind_result (section_or default_jemalloc de_jemalloc ''jemalloc'' t) (\<lambda>j.
     bind_result (section_or default_observability (de_observability parse_addr) ''observability'' t) (\<lambda>ob.
       Inr \<lparr>root_libfabric = l, root_jemalloc = j, root_observability = ob\<rparr>))))"

text \<open>
  \<open>from_toml\<close>. \<open>parse\<close> is the parser of the \<open>toml\<close> crate, \<open>show_refusal\<close> renders its errors.
\<close>

datatype configuration_error = Parse string

fun configuration_error_display :: "configuration_error \<Rightarrow> string" where
  "configuration_error_display (Parse m) = ''failed to parse configuration: '' @ m"

definition from_toml ::
  "(string \<Rightarrow> (string, (string \<times> toml) list) result) \<Rightarrow> (refusal \<Rightarrow> string) \<Rightarrow> (toml \<Rightarrow> nat option)
    \<Rightarrow> (string \<Rightarrow> socket_addr option) \<Rightarrow> string \<Rightarrow> (configuration_error, configuration) result" where
  "from_toml parse show_refusal de_duration parse_addr document =
     (case parse document of
        Inl e \<Rightarrow> Inl (Parse e)
      | Inr t \<Rightarrow> (case de_configuration de_duration parse_addr t of
          Inl r \<Rightarrow> Inl (Parse (show_refusal r))
        | Inr c \<Rightarrow> Inr c))"

section \<open>What is accepted\<close>

lemma deny_unknown_Inr [simp]: "deny_unknown known t = Inr u \<longleftrightarrow> fst ` set t \<subseteq> set known"
  by (induction t rule: deny_unknown.induct) auto

lemma bind_result_Inr: "bind_result r f = Inr y \<longleftrightarrow> (\<exists>x. r = Inr x \<and> f x = Inr y)"
  by (auto simp: bind_result_def split: sum.split)

lemma field_or_Inr:
  "field_or dflt d k t = Inr x \<longleftrightarrow>
     (case map_of t k of None \<Rightarrow> x = dflt | Some v \<Rightarrow> d v = Some x)"
  by (auto simp: field_or_def split: option.split)

lemma section_or_Inr:
  "section_or dflt d k t = Inr x \<longleftrightarrow>
     (case map_of t k of None \<Rightarrow> x = dflt | Some v \<Rightarrow> (\<exists>t'. v = TTable t' \<and> d t' = Inr x))"
  by (auto simp: section_or_def split: option.split toml.split)

text \<open>The keys a section may have.\<close>

definition keys_of :: "(string \<times> toml) list \<Rightarrow> string set" where
  "keys_of t = fst ` set t"

lemma some_sym: "Some z = x \<Longrightarrow> \<exists>y. x = Some y"
  by (rule exI) (rule sym)

lemma de_libfabric_complete:
  assumes "de_libfabric du s = Inr l"
  shows "keys_of s \<subseteq> set libfabric_fields
    \<and> (case map_of s ''providers'' of None \<Rightarrow> lc_providers l = [Tcp]
       | Some p \<Rightarrow> de_list de_provider p = Some (lc_providers l))
    \<and> (case map_of s ''max_in_flight'' of None \<Rightarrow> lc_max_in_flight l = None
       | Some n \<Rightarrow> \<exists>y. de_unsigned 64 n = Some y \<and> lc_max_in_flight l = Some y)
    \<and> (case map_of s ''quiesce_writes'' of None \<Rightarrow> \<not> lc_quiesce_writes l
       | Some q \<Rightarrow> de_bool q = Some (lc_quiesce_writes l))"
proof -
  obtain ps "is" b m c d q where l: "fst ` set s \<subseteq> set libfabric_fields"
    "field_or default_providers (de_list de_provider) ''providers'' s = Inr ps"
    "field_or None (map_option Some \<circ> de_unsigned 64) ''max_in_flight'' s = Inr m"
    "field_or False de_bool ''quiesce_writes'' s = Inr q"
    "l = \<lparr>lc_providers = ps, lc_interfaces = is, lc_bind = b, lc_max_in_flight = m,
       lc_crc_pool_threads = c, lc_progress_deadline = d, lc_quiesce_writes = q\<rparr>"
    using assms unfolding de_libfabric_def bind_result_Inr deny_unknown_Inr by auto
  show ?thesis
    using l by (auto simp: field_or_Inr keys_of_def default_providers_def split: option.splits intro: some_sym)
qed

lemma de_jemalloc_complete:
  assumes "de_jemalloc s = Inr j"
  shows "keys_of s \<subseteq> {''huge_arena_decay_ms'', ''huge_arena_oversize_threshold''}
    \<and> (case map_of s ''huge_arena_decay_ms'' of None \<Rightarrow> jc_huge_arena_decay_ms j = 1000
       | Some d \<Rightarrow> de_i64 d = Some (jc_huge_arena_decay_ms j))"
  using assms unfolding de_jemalloc_def bind_result_Inr deny_unknown_Inr
  by (auto simp: field_or_Inr keys_of_def default_huge_arena_decay_ms_def split: option.splits)

lemma de_observability_complete:
  assumes "de_observability pa s = Inr ob"
  shows "keys_of s \<subseteq> {''console-host''}
    \<and> (map_of s ''console-host'' = None \<longleftrightarrow> oc_console_host ob = None)"
  using assms unfolding de_observability_def bind_result_Inr deny_unknown_Inr section_or_Inr
  by (auto simp: keys_of_def split: option.splits)

text \<open>
  A document is read completely or not at all. When the root table is accepted, every key of
  it and of its sections is known, a section that is missing has the defaults, and each field of a
  present section is the value of its key, or the default when the key is missing: no key is
  ignored and no value is replaced.
\<close>

theorem configuration_is_read_completely:
  assumes "de_configuration du pa t = Inr c"
  shows "keys_of t \<subseteq> {''dma-libfabric'', ''jemalloc'', ''observability''}
    \<and> (case map_of t ''dma-libfabric'' of None \<Rightarrow> root_libfabric c = default_libfabric
       | Some v \<Rightarrow> \<exists>s. v = TTable s \<and> keys_of s \<subseteq> set libfabric_fields
           \<and> (case map_of s ''providers'' of None \<Rightarrow> lc_providers (root_libfabric c) = [Tcp]
              | Some p \<Rightarrow> de_list de_provider p = Some (lc_providers (root_libfabric c)))
           \<and> (case map_of s ''max_in_flight'' of None \<Rightarrow> lc_max_in_flight (root_libfabric c) = None
              | Some n \<Rightarrow> \<exists>y. de_unsigned 64 n = Some y \<and> lc_max_in_flight (root_libfabric c) = Some y)
           \<and> (case map_of s ''quiesce_writes'' of None \<Rightarrow> \<not> lc_quiesce_writes (root_libfabric c)
              | Some q \<Rightarrow> de_bool q = Some (lc_quiesce_writes (root_libfabric c))))
    \<and> (case map_of t ''jemalloc'' of None \<Rightarrow> root_jemalloc c = default_jemalloc
       | Some v \<Rightarrow> \<exists>s. v = TTable s
           \<and> keys_of s \<subseteq> {''huge_arena_decay_ms'', ''huge_arena_oversize_threshold''}
           \<and> (case map_of s ''huge_arena_decay_ms'' of None \<Rightarrow> jc_huge_arena_decay_ms (root_jemalloc c) = 1000
              | Some d \<Rightarrow> de_i64 d = Some (jc_huge_arena_decay_ms (root_jemalloc c))))
    \<and> (case map_of t ''observability'' of None \<Rightarrow> oc_console_host (root_observability c) = None
       | Some v \<Rightarrow> \<exists>s. v = TTable s \<and> keys_of s \<subseteq> {''console-host''}
           \<and> (map_of s ''console-host'' = None \<longleftrightarrow> oc_console_host (root_observability c) = None))"
proof -
  obtain l j ob where c: "fst ` set t \<subseteq> {''dma-libfabric'', ''jemalloc'', ''observability''}"
    "section_or default_libfabric (de_libfabric du) ''dma-libfabric'' t = Inr l"
    "section_or default_jemalloc de_jemalloc ''jemalloc'' t = Inr j"
    "section_or default_observability (de_observability pa) ''observability'' t = Inr ob"
    "c = \<lparr>root_libfabric = l, root_jemalloc = j, root_observability = ob\<rparr>"
    using assms unfolding de_configuration_def bind_result_Inr deny_unknown_Inr by auto
  note l = c(2) [unfolded section_or_Inr] and j = c(3) [unfolded section_or_Inr]
    and ob = c(4) [unfolded section_or_Inr]
  show ?thesis
  proof (intro conjI)
    show "keys_of t \<subseteq> {''dma-libfabric'', ''jemalloc'', ''observability''}"
      using c(1) by (simp add: keys_of_def)
  next
    show "case map_of t ''dma-libfabric'' of None \<Rightarrow> root_libfabric c = default_libfabric
       | Some v \<Rightarrow> \<exists>s. v = TTable s \<and> keys_of s \<subseteq> set libfabric_fields
           \<and> (case map_of s ''providers'' of None \<Rightarrow> lc_providers (root_libfabric c) = [Tcp]
              | Some p \<Rightarrow> de_list de_provider p = Some (lc_providers (root_libfabric c)))
           \<and> (case map_of s ''max_in_flight'' of None \<Rightarrow> lc_max_in_flight (root_libfabric c) = None
              | Some n \<Rightarrow> \<exists>y. de_unsigned 64 n = Some y \<and> lc_max_in_flight (root_libfabric c) = Some y)
           \<and> (case map_of s ''quiesce_writes'' of None \<Rightarrow> \<not> lc_quiesce_writes (root_libfabric c)
              | Some q \<Rightarrow> de_bool q = Some (lc_quiesce_writes (root_libfabric c)))"
    proof (cases "map_of t ''dma-libfabric''")
      case (Some v)
      then obtain s where s: "v = TTable s" "de_libfabric du s = Inr l" using l by auto
      have r: "root_libfabric c = l" using c(5) by simp
      show ?thesis using de_libfabric_complete [OF s(2)] unfolding r Some s(1) by simp
    qed (use l c(5) in simp)
  next
    show "case map_of t ''jemalloc'' of None \<Rightarrow> root_jemalloc c = default_jemalloc
       | Some v \<Rightarrow> \<exists>s. v = TTable s
           \<and> keys_of s \<subseteq> {''huge_arena_decay_ms'', ''huge_arena_oversize_threshold''}
           \<and> (case map_of s ''huge_arena_decay_ms'' of None \<Rightarrow> jc_huge_arena_decay_ms (root_jemalloc c) = 1000
              | Some d \<Rightarrow> de_i64 d = Some (jc_huge_arena_decay_ms (root_jemalloc c)))"
    proof (cases "map_of t ''jemalloc''")
      case (Some v)
      then obtain s where s: "v = TTable s" "de_jemalloc s = Inr j" using j by auto
      have r: "root_jemalloc c = j" using c(5) by simp
      show ?thesis using de_jemalloc_complete [OF s(2)] unfolding r Some s(1) by simp
    qed (use j c(5) in simp)
  next
    show "case map_of t ''observability'' of None \<Rightarrow> oc_console_host (root_observability c) = None
       | Some v \<Rightarrow> \<exists>s. v = TTable s \<and> keys_of s \<subseteq> {''console-host''}
           \<and> (map_of s ''console-host'' = None \<longleftrightarrow> oc_console_host (root_observability c) = None)"
    proof (cases "map_of t ''observability''")
      case (Some v)
      then obtain s where s: "v = TTable s" "de_observability pa s = Inr ob" using ob by auto
      have r: "root_observability c = ob" using c(5) by simp
      show ?thesis using de_observability_complete [OF s(2)] unfolding r Some s(1) by simp
    qed (use ob c(5) in \<open>simp add: default_observability_def\<close>)
  qed
qed

text \<open>The misspelt key of the tests is refused, a document without sections gives the defaults.\<close>

theorem configuration_is_read_completely_witness:
  "de_configuration (\<lambda>_. None) (\<lambda>_. None) [(''jemalloc'', TTable [(''huge_arena_decay_ms'', TInteger (-1))])]
     = Inr (default_configuration\<lparr>root_jemalloc := default_jemalloc\<lparr>jc_huge_arena_decay_ms := -1\<rparr>\<rparr>)
   \<and> de_i64 (TInteger (-1)) = Some (-1)"
proof -
  let ?t = "[(''jemalloc'', TTable [(''huge_arena_decay_ms'', TInteger (-1))])]"
  let ?c = "default_configuration\<lparr>root_jemalloc := default_jemalloc\<lparr>jc_huge_arena_decay_ms := -1\<rparr>\<rparr>"
  have run: "de_configuration (\<lambda>_. None) (\<lambda>_. None) ?t = Inr ?c"
    by (simp add: de_configuration_def de_jemalloc_def bind_result_def section_or_def field_or_def
      default_configuration_def default_jemalloc_def)
  show ?thesis using run configuration_is_read_completely [OF run] by (simp add: default_jemalloc_def)
qed

end
