(* ===== verification/Endpoint_Setup.thy ===== *)
theory Endpoint_Setup
  imports Service Settings "HOL-Library.Code_Target_Numeral"
begin

text \<open>
  Opening, describing and closing an endpoint: \<open>query_info\<close>, \<open>select_domain\<close>, \<open>open\<close>,
  \<open>local_address\<close>, \<open>describe\<close> and \<open>Drop\<close> of \<open>endpoint.rs\<close>, \<open>devices.rs\<close>, and the start of a worker
  (the head of \<open>worker_main\<close> and \<open>FabricService::start\<close>). The calls of libfabric that set an
  endpoint up are the fields of the record \<open>fi_library\<close>; what they answer may depend on the log of the
  calls before, newest first, which records every object that libfabric hands out and every one
  that is given back. Null is the handle zero. The lemmas show that whatever fails on the way, all
  objects are given back, in the reverse order.
\<close>

section \<open>libfabric's side\<close>

type_synonym handle = "64 word"

text \<open>The constants of the bindings.\<close>

record fi_constants =
  FI_MSG :: u32
  FI_RMA :: u32
  FI_READ :: u32
  FI_WRITE :: u32
  FI_REMOTE_READ :: u32
  FI_REMOTE_WRITE :: u32
  FI_TRANSMIT :: u32
  FI_RECV :: u32
  FI_SOURCE :: u64
  FI_MR_LOCAL :: u32
  FI_MR_VIRT_ADDR :: u32
  FI_MR_ALLOCATED :: u32
  FI_MR_PROV_KEY :: u32
  FI_MR_ENDPOINT :: u32
  FI_MR_HMEM :: u32
  FI_CONTEXT2 :: u64
  FI_RX_CQ_DATA :: u64

text \<open>\<open>fi_info\<close>, the fields the code reads. A name is the bytes of a C string, or null.\<close>

record fi_info =
  inf_prov_name :: "u8 list option"
  inf_domain_name :: "u8 list option"
  inf_mr_mode :: u32
  inf_caps :: u64
  inf_addr_format :: u32
  inf_tx_size :: nat

record fi_hints =
  h_caps :: u64
  h_mr_mode :: u32
  h_prov_name :: string
  h_fabric_name :: "string option"
  h_mode :: u64

datatype fi_object =
    Hints handle
  | Infos handle
  | Info handle
  | FabricObj handle
  | DomainObj handle
  | AddressVector handle
  | CompletionQueue handle
  | EndpointObj handle
  | RegionObj handle

datatype setup_call =
    Acquired fi_object
  | Released fi_object
  | Called string int

type_synonym setup_log = "setup_call list"

record fi_library =
  su_constants :: fi_constants
  fi_allocinfo :: "setup_log \<Rightarrow> handle"
  fi_getinfo :: "setup_log \<Rightarrow> string option \<Rightarrow> u64 \<Rightarrow> fi_hints \<Rightarrow> int \<times> handle \<times> fi_info list"
  fi_dupinfo :: "setup_log \<Rightarrow> fi_info \<Rightarrow> handle \<times> fi_info"
  fi_fabric :: "setup_log \<Rightarrow> fi_info \<Rightarrow> int \<times> handle"
  fi_domain :: "setup_log \<Rightarrow> handle \<Rightarrow> fi_info \<Rightarrow> int \<times> handle"
  fi_av_open :: "setup_log \<Rightarrow> handle \<Rightarrow> int \<times> handle"
  fi_cq_open :: "setup_log \<Rightarrow> handle \<Rightarrow> int \<times> handle"
  fi_endpoint :: "setup_log \<Rightarrow> handle \<Rightarrow> fi_info \<Rightarrow> int \<times> handle"
  fi_ep_bind :: "setup_log \<Rightarrow> handle \<Rightarrow> handle \<Rightarrow> u64 \<Rightarrow> int"
  fi_enable :: "setup_log \<Rightarrow> handle \<Rightarrow> int"
  fi_getname :: "setup_log \<Rightarrow> handle \<Rightarrow> nat \<Rightarrow> int \<times> nat \<times> u8 list"
  str_debug :: "string \<Rightarrow> string"

text \<open>An object libfabric handed out, unless it left the pointer null.\<close>

definition acquire :: "(handle \<Rightarrow> fi_object) \<Rightarrow> handle \<Rightarrow> setup_log \<Rightarrow> setup_log" where
  "acquire kind h l = (if h = 0 then l else Acquired (kind h) # l)"

text \<open>\<open>CString::new\<close>: the bytes of a string without a zero byte.\<close>

definition cstring :: "string \<Rightarrow> string option" where
  "cstring s = (if char_of (0 :: nat) \<in> set s then None else Some s)"

section \<open>Choosing a device\<close>

definition hints_for :: "fi_constants \<Rightarrow> provider \<Rightarrow> fi_hints" where
  "hints_for K primary =
     \<lparr>h_caps = ucast (FI_MSG K OR FI_RMA K OR FI_READ K OR FI_WRITE K OR FI_REMOTE_READ K OR FI_REMOTE_WRITE K),
      h_mr_mode = FI_MR_LOCAL K OR FI_MR_ALLOCATED K OR FI_MR_PROV_KEY K OR FI_MR_VIRT_ADDR K,
      h_prov_name = provider_as_str primary, h_fabric_name = provider_fabric_name primary,
      h_mode = required_mode (FI_CONTEXT2 K) (FI_RX_CQ_DATA K) primary\<rparr>"

text \<open>The call itself, with the hints allocated; they are freed before its code is looked at.\<close>

definition get_infos ::
  "fi_library \<Rightarrow> fabric \<Rightarrow> provider \<Rightarrow> string option \<Rightarrow> handle \<Rightarrow> setup_log
    \<Rightarrow> (dma_error, handle \<times> fi_info list) result \<times> setup_log" where
  "get_infos S F primary source_node hints l =
     (let l1 = acquire Hints hints l;
          flags = (if source_node = None then 0 else FI_SOURCE (su_constants S));
          (code, list, infos) = fi_getinfo S l1 source_node flags (hints_for (su_constants S) primary);
          l2 = Released (Hints hints) # acquire Infos list (Called ''fi_getinfo'' code # l1)
      in case check F code ''fi_getinfo'' of
           Inl e \<Rightarrow> (Inl e, l2)
         | Inr _ \<Rightarrow>
             (if list = 0 then (Inl (Fabric ''no provider matched''), l2)
              else (Inr (list, infos), l2)))"

definition query_info ::
  "fi_library \<Rightarrow> fabric \<Rightarrow> libfabric_configuration \<Rightarrow> string option \<Rightarrow> setup_log
    \<Rightarrow> (dma_error, handle \<times> fi_info list) result \<times> setup_log" where
  "query_info S F C source_node l =
     (let primary = (case lc_providers C of [] \<Rightarrow> Tcp | p # _ \<Rightarrow> p)
      in if cstring (provider_as_str primary) = None
         then (Inl (Fabric ''invalid provider name''), l)
         else if (case provider_fabric_name primary of None \<Rightarrow> False | Some n \<Rightarrow> cstring n = None)
         then (Inl (Fabric ''invalid fabric name''), l)
         else if (case source_node of None \<Rightarrow> False | Some n \<Rightarrow> cstring n = None)
         then (Inl (Fabric ''invalid source node''), l)
         else
           (let hints = fi_allocinfo S l
            in if hints = 0 then (Inl (Fabric ''fi_allocinfo failed''), l)
               else get_infos S F primary source_node hints l))"

definition select_domain :: "fi_info list \<Rightarrow> string \<Rightarrow> fi_info option" where
  "select_domain infos want = find (\<lambda>i. inf_domain_name i = Some (string_bytes want)) infos"

text \<open>\<open>discover_domains\<close>: each domain once, in order; names that are null or not UTF-8 are skipped.\<close>

fun collect_names :: "fi_info list \<Rightarrow> u8 list list \<Rightarrow> u8 list list" where
  "collect_names [] names = names"
| "collect_names (i # rest) names =
     (case inf_domain_name i of
        None \<Rightarrow> collect_names rest names
      | Some n \<Rightarrow>
          (if \<not> utf8_valid n then collect_names rest names
           else if n \<in> set names then collect_names rest names
           else collect_names rest (names @ [n])))"

definition discover_domains ::
  "fi_library \<Rightarrow> fabric \<Rightarrow> libfabric_configuration \<Rightarrow> setup_log \<Rightarrow> (dma_error, u8 list list) result \<times> setup_log"
where
  "discover_domains S F C l =
     (case query_info S F C None l of
        (Inl e, l1) \<Rightarrow> (Inl e, l1)
      | (Inr (list, infos), l1) \<Rightarrow> (Inr (collect_names infos []), Released (Infos list) # l1))"

section \<open>Opening\<close>

record lib_endpoint =
  le_endpoint :: handle
  le_completion_queue :: handle
  le_address_vector :: handle
  le_domain :: handle
  le_fabric :: handle
  le_info :: handle
  le_attributes :: fi_info
  le_requires_local_mr :: bool
  le_uses_virtual_addressing :: bool
  le_max_tx :: nat
  le_regions_domain :: usize
  le_peers :: peers

definition no_info :: fi_info where
  "no_info = \<lparr>inf_prov_name = None, inf_domain_name = None, inf_mr_mode = 0, inf_caps = 0,
     inf_addr_format = 0, inf_tx_size = 0\<rparr>"

definition null_endpoint :: lib_endpoint where
  "null_endpoint = \<lparr>le_endpoint = 0, le_completion_queue = 0, le_address_vector = 0, le_domain = 0,
     le_fabric = 0, le_info = 0, le_attributes = no_info, le_requires_local_mr = False,
     le_uses_virtual_addressing = False, le_max_tx = 0, le_regions_domain = 0,
     le_peers = peers_new Opaque\<rparr>"

text \<open>\<open>Drop\<close>: the regions and the peers first, then every object that was opened, newest first.\<close>

definition close_object :: "(handle \<Rightarrow> fi_object) \<Rightarrow> handle \<Rightarrow> setup_log \<Rightarrow> setup_log" where
  "close_object kind h l = (if h = 0 then l else Released (kind h) # l)"

definition close_objects :: "lib_endpoint \<Rightarrow> setup_log \<Rightarrow> setup_log" where
  "close_objects le =
     close_object Info (le_info le) \<circ> close_object FabricObj (le_fabric le) \<circ> close_object DomainObj (le_domain le)
       \<circ> close_object AddressVector (le_address_vector le) \<circ> close_object CompletionQueue (le_completion_queue le)
       \<circ> close_object EndpointObj (le_endpoint le)"

definition endpoint_drop :: "lib_endpoint \<Rightarrow> setup_log \<Rightarrow> world \<Rightarrow> setup_log \<times> world" where
  "endpoint_drop le l w =
     (let w1 = clear_regions (le_regions_domain le) w;
          (_, w2) = clear_peers (le_peers le) w1
      in (close_objects le l, w2))"

text \<open>
  The calls of \<open>open\<close> on the endpoint under construction, in order; the first that fails ends it.
\<close>

type_synonym step = "lib_endpoint \<times> setup_log \<Rightarrow> (dma_error, unit) result \<times> lib_endpoint \<times> setup_log"

definition open_fabric :: "fi_library \<Rightarrow> fabric \<Rightarrow> step" where
  "open_fabric S F = (\<lambda>(le, l).
     let (code, h) = fi_fabric S l (le_attributes le)
     in (check F code ''fi_fabric'', le\<lparr>le_fabric := h\<rparr>, acquire FabricObj h (Called ''fi_fabric'' code # l)))"

definition open_domain :: "fi_library \<Rightarrow> fabric \<Rightarrow> step" where
  "open_domain S F = (\<lambda>(le, l).
     let (code, h) = fi_domain S l (le_fabric le) (le_attributes le);
         le1 = le\<lparr>le_domain := h\<rparr>
     in (check F code ''fi_domain'', if code = 0 then le1\<lparr>le_regions_domain := h\<rparr> else le1,
         acquire DomainObj h (Called ''fi_domain'' code # l)))"

definition open_address_vector :: "fi_library \<Rightarrow> fabric \<Rightarrow> step" where
  "open_address_vector S F = (\<lambda>(le, l).
     let (code, h) = fi_av_open S l (le_domain le);
         le1 = le\<lparr>le_address_vector := h\<rparr>
     in (check F code ''fi_av_open'',
         if code = 0 then le1\<lparr>le_peers := peers_new (from_fi F (inf_addr_format (le_attributes le)))\<rparr> else le1,
         acquire AddressVector h (Called ''fi_av_open'' code # l)))"

definition open_completion_queue :: "fi_library \<Rightarrow> fabric \<Rightarrow> step" where
  "open_completion_queue S F = (\<lambda>(le, l).
     let (code, h) = fi_cq_open S l (le_domain le)
     in (check F code ''fi_cq_open'', le\<lparr>le_completion_queue := h\<rparr>,
         acquire CompletionQueue h (Called ''fi_cq_open'' code # l)))"

definition open_endpoint_object :: "fi_library \<Rightarrow> fabric \<Rightarrow> step" where
  "open_endpoint_object S F = (\<lambda>(le, l).
     let (code, h) = fi_endpoint S l (le_domain le) (le_attributes le)
     in (check F code ''fi_endpoint'', le\<lparr>le_endpoint := h\<rparr>,
         acquire EndpointObj h (Called ''fi_endpoint'' code # l)))"

definition bind_address_vector :: "fi_library \<Rightarrow> fabric \<Rightarrow> step" where
  "bind_address_vector S F = (\<lambda>(le, l).
     let code = fi_ep_bind S l (le_endpoint le) (le_address_vector le) 0
     in (check F code ''fi_ep_bind(av)'', le, Called ''fi_ep_bind'' code # l))"

definition bind_completion_queue :: "fi_library \<Rightarrow> fabric \<Rightarrow> step" where
  "bind_completion_queue S F = (\<lambda>(le, l).
     let flags = ucast (FI_TRANSMIT (su_constants S) OR FI_RECV (su_constants S));
         code = fi_ep_bind S l (le_endpoint le) (le_completion_queue le) flags
     in (check F code ''fi_ep_bind(cq)'', le, Called ''fi_ep_bind'' code # l))"

definition enable :: "fi_library \<Rightarrow> fabric \<Rightarrow> step" where
  "enable S F = (\<lambda>(le, l).
     let code = fi_enable S l (le_endpoint le)
     in (check F code ''fi_enable'', le, Called ''fi_enable'' code # l))"

fun run_steps :: "('s \<Rightarrow> ('e, unit) result \<times> 's) list \<Rightarrow> 's \<Rightarrow> ('e, unit) result \<times> 's" where
  "run_steps [] s = (Inr (), s)"
| "run_steps (f # fs) s = (case f s of (Inl e, s') \<Rightarrow> (Inl e, s') | (Inr _, s') \<Rightarrow> run_steps fs s')"

definition open_steps :: "fi_library \<Rightarrow> fabric \<Rightarrow> step list" where
  "open_steps S F = [open_fabric S F, open_domain S F, open_address_vector S F,
     open_completion_queue S F, open_endpoint_object S F, bind_address_vector S F,
     bind_completion_queue S F, enable S F]"

text \<open>The selected entry is copied out and the list freed; the copy's attributes are read.\<close>

definition take_info :: "fi_library \<Rightarrow> handle \<Rightarrow> fi_info \<Rightarrow> step" where
  "take_info S list chosen = (\<lambda>(le, l).
     let (h, info) = fi_dupinfo S l chosen;
         l1 = Released (Infos list) # acquire Info h l;
         K = su_constants S;
         le1 = le\<lparr>le_info := h, le_attributes := info\<rparr>
     in if h = 0 then (Inl (Fabric ''fi_dupinfo failed''), le1, l1)
        else (Inr (), le1\<lparr>le_requires_local_mr := (inf_mr_mode info AND FI_MR_LOCAL K \<noteq> 0),
                le_uses_virtual_addressing := (inf_mr_mode info AND FI_MR_VIRT_ADDR K \<noteq> 0),
                le_max_tx := inf_tx_size info\<rparr>, l1))"

definition open_endpoint ::
  "fi_library \<Rightarrow> fabric \<Rightarrow> libfabric_configuration \<Rightarrow> string option \<Rightarrow> setup_log \<Rightarrow> world
    \<Rightarrow> (dma_error, lib_endpoint) result \<times> setup_log \<times> world" where
  "open_endpoint S F C source_node l w =
     (let failed = (\<lambda>e le l. let (l', w') = endpoint_drop le l w in (Inl e, l', w'))
      in case query_info S F C source_node l of
           (Inl e, l1) \<Rightarrow> failed e null_endpoint l1
         | (Inr (list, infos), l1) \<Rightarrow>
             (let wanted = (case lc_interfaces C of [] \<Rightarrow> None | name # _ \<Rightarrow> Some name);
                  chosen = (case wanted of
                      Some name \<Rightarrow> select_domain infos name
                    | None \<Rightarrow> (case infos of [] \<Rightarrow> None | i # _ \<Rightarrow> Some i))
              in case chosen of
                   None \<Rightarrow> failed (Fabric (''no fabric domain named ''
                       @ str_debug S (case wanted of None \<Rightarrow> '''' | Some name \<Rightarrow> name)))
                     null_endpoint (Released (Infos list) # l1)
                 | Some info \<Rightarrow>
                     (case run_steps (take_info S list info # open_steps S F) (null_endpoint, l1) of
                        (Inl e, le, l2) \<Rightarrow> failed e le l2
                      | (Inr _, le, l2) \<Rightarrow> (Inr le, l2, w))))"

text \<open>The endpoint the worker operates on.\<close>

definition to_endpoint :: "lib_endpoint \<Rightarrow> endpoint" where
  "to_endpoint le = \<lparr>ep_domain = le_regions_domain le, ep_requires_local_mr = le_requires_local_mr le,
     ep_uses_virtual_addressing = le_uses_virtual_addressing le, ep_max_tx = le_max_tx le,
     ep_peers = le_peers le\<rparr>"

section \<open>Its address\<close>

text \<open>
  The first call only asks for the length. The second writes into a buffer of zeros of that
  length, at most what fits, and answers the length of the address.
\<close>

definition local_address ::
  "fi_library \<Rightarrow> fabric \<Rightarrow> lib_endpoint \<Rightarrow> setup_log \<Rightarrow> (dma_error, u8 list) result \<times> setup_log" where
  "local_address S F le l =
     (let (code, len, _) = fi_getname S l (le_endpoint le) 0;
          l1 = Called ''fi_getname'' code # l
      in if len = 0 then (Inl (Fabric ''fi_getname returned zero length''), l1)
         else
           (let (code', len', bytes) = fi_getname S l1 (le_endpoint le) len;
                written = take len bytes;
                buffer = written @ replicate (len - length written) 0;
                l2 = Called ''fi_getname'' code' # l1
            in case check F code' ''fi_getname'' of
                 Inl e \<Rightarrow> (Inl e, l2)
               | Inr _ \<Rightarrow> (Inr (take len' buffer), l2)))"

section \<open>Starting a worker\<close>

text \<open>
  The head of \<open>worker_main\<close>: what it signals through \<open>ready\<close>. The landing byte of quiesce reads is
  in a buffer of eight bytes at \<open>landing\<close>.
\<close>

definition worker_open ::
  "fi_library \<Rightarrow> fabric \<Rightarrow> libfabric_configuration \<Rightarrow> ptr \<Rightarrow> setup_log \<Rightarrow> world
    \<Rightarrow> (dma_error, u8 list \<times> lib_endpoint) result \<times> setup_log \<times> world" where
  "worker_open S F C landing l w =
     (case open_endpoint S F C (lc_bind C) l w of
        (Inl e, l1, w1) \<Rightarrow> (Inl e, l1, w1)
      | (Inr le, l1, w1) \<Rightarrow>
          (let (pinned, w2) = (if lc_quiesce_writes C then pin_region F landing 8 (to_endpoint le) w1
                               else (Inr (), w1))
           in case pinned of
                Inl e \<Rightarrow> (let (l2, w3) = endpoint_drop le l1 w2 in (Inl e, l2, w3))
              | Inr _ \<Rightarrow>
                  (case local_address S F le l1 of
                     (Inl e, l2) \<Rightarrow> (let (l3, w3) = endpoint_drop le l2 w2 in (Inl e, l3, w3))
                   | (Inr address, l2) \<Rightarrow> (Inr (address, le), l2, w2))))"

text \<open>\<open>FabricService::start\<close>. \<open>spawned\<close> is the error of \<open>spawn\<close>, when it fails.\<close>

definition service_start ::
  "string option \<Rightarrow> fi_library \<Rightarrow> fabric \<Rightarrow> libfabric_configuration \<Rightarrow> ptr \<Rightarrow> setup_log \<Rightarrow> world
    \<Rightarrow> (dma_error, u8 list \<times> 'c service) result \<times> setup_log \<times> world" where
  "service_start spawned S F C landing l w =
     (case spawned of
        Some e \<Rightarrow> (Inl (Fabric (''failed to spawn fabric worker: '' @ e)), l, w)
      | None \<Rightarrow>
          (case worker_open S F C landing l w of
             (Inl e, l1, w1) \<Rightarrow> (Inl e, l1, w1)
           | (Inr (address, le), l1, w1) \<Rightarrow> (Inr (address, service_new (to_endpoint le) w1), l1, w1)))"

text \<open>The settings a worker reads.\<close>

definition worker_config ::
  "fabric \<Rightarrow> 'c operands \<Rightarrow> (op_context list \<Rightarrow> op_context) \<Rightarrow> libfabric_configuration \<Rightarrow> ptr
    \<Rightarrow> endpoint \<Rightarrow> 'c config" where
  "worker_config F ops alloc C landing ep = \<lparr>cf_fabric = F, cf_operands = ops, cf_box_alloc = alloc,
     cf_quiesce_writes = lc_quiesce_writes C, cf_progress_deadline = lc_progress_deadline C,
     cf_cap = in_flight_cap (ep_max_tx ep) (lc_max_in_flight C), cf_landing = landing\<rparr>"

section \<open>Describing an endpoint\<close>

text \<open>\<open>String::from_utf8_lossy\<close>: each longest invalid prefix becomes U+FFFD.\<close>

fun utf8_chunk :: "u8 list \<Rightarrow> bool \<times> nat" where
  "utf8_chunk [] = (True, 0)"
| "utf8_chunk (b # bs) =
     (let n = unat b;
          ok = (\<lambda>lo hi k. k < length bs \<and> cont_byte lo hi (bs ! k));
          three = (\<lambda>lo hi. if \<not> ok lo hi 0 then (False, 1) else if \<not> ok 128 191 1 then (False, 2)
             else (True, 3 :: nat));
          four = (\<lambda>lo hi. if \<not> ok lo hi 0 then (False, 1) else if \<not> ok 128 191 1 then (False, 2)
             else if \<not> ok 128 191 2 then (False, 3) else (True, 4 :: nat))
      in if n < 128 then (True, 1)
         else if n < 194 then (False, 1)
         else if n < 224 then (if ok 128 191 0 then (True, 2) else (False, 1))
         else if n = 224 then three 160 191
         else if n = 237 then three 128 159
         else if n < 240 then three 128 191
         else if n = 240 then four 144 191
         else if n < 244 then four 128 191
         else if n = 244 then four 128 143
         else (False, 1))"

definition char_of_byte :: "u8 \<Rightarrow> char" where
  "char_of_byte b = char_of (unat b)"

fun utf8_lossy :: "nat \<Rightarrow> u8 list \<Rightarrow> string" where
  "utf8_lossy 0 bs = []"
| "utf8_lossy (Suc fuel) bs =
     (if bs = [] then []
      else let (valid, n) = utf8_chunk bs
           in (if valid then map char_of_byte (take n bs) else map char_of_byte [239, 191, 189])
              @ utf8_lossy fuel (drop n bs))"

record endpoint_info =
  ei_provider :: string
  ei_addr_format :: u32
  ei_mr_mode :: u32
  ei_caps :: u64
  ei_requires_local_mr :: bool
  ei_uses_virtual_addressing :: bool

definition describe :: "lib_endpoint \<Rightarrow> endpoint_info" where
  "describe le =
     \<lparr>ei_provider = (case inf_prov_name (le_attributes le) of
         None \<Rightarrow> [] | Some name \<Rightarrow> utf8_lossy (length name) name),
      ei_addr_format = inf_addr_format (le_attributes le),
      ei_mr_mode = inf_mr_mode (le_attributes le), ei_caps = inf_caps (le_attributes le),
      ei_requires_local_mr = le_requires_local_mr le,
      ei_uses_virtual_addressing = le_uses_virtual_addressing le\<rparr>"

fun join :: "string \<Rightarrow> string list \<Rightarrow> string" where
  "join sep [] = []"
| "join sep [s] = s"
| "join sep (s # t # ss) = s @ sep @ join sep (t # ss)"

definition flag_names :: "('a \<Rightarrow> bool) \<Rightarrow> ('a \<times> string) list \<Rightarrow> string" where
  "flag_names is_set flags = join ''|'' (map snd (filter (\<lambda>(bit, _). is_set bit) flags))"

definition mr_mode_flags :: "fi_constants \<Rightarrow> (u32 \<times> string) list" where
  "mr_mode_flags K = [(FI_MR_LOCAL K, ''LOCAL''), (FI_MR_VIRT_ADDR K, ''VIRT_ADDR''),
     (FI_MR_ALLOCATED K, ''ALLOCATED''), (FI_MR_PROV_KEY K, ''PROV_KEY''),
     (FI_MR_ENDPOINT K, ''ENDPOINT''), (FI_MR_HMEM K, ''HMEM'')]"

definition decode_mr_mode :: "fi_constants \<Rightarrow> u32 \<Rightarrow> string" where
  "decode_mr_mode K mr_mode = flag_names (\<lambda>bit. mr_mode AND bit \<noteq> 0) (mr_mode_flags K)"

definition caps_flags :: "fi_constants \<Rightarrow> (u32 \<times> string) list" where
  "caps_flags K = [(FI_MSG K, ''MSG''), (FI_RMA K, ''RMA''), (FI_READ K, ''READ''),
     (FI_WRITE K, ''WRITE''), (FI_REMOTE_READ K, ''REMOTE_READ''), (FI_REMOTE_WRITE K, ''REMOTE_WRITE'')]"

definition decode_caps :: "fi_constants \<Rightarrow> u64 \<Rightarrow> string" where
  "decode_caps K caps = flag_names (\<lambda>bit. caps AND ucast bit \<noteq> 0) (caps_flags K)"

fun show_hex :: "nat \<Rightarrow> string" where
  "show_hex n =
     (let d = char_of (if n mod 16 < 10 then 48 + n mod 16 else 87 + n mod 16)
      in if n < 16 then [d] else show_hex (n div 16) @ [d])"

declare show_hex.simps [simp del]

definition show_bool :: "bool \<Rightarrow> string" where
  "show_bool b = (if b then ''true'' else ''false'')"

definition info_lines :: "fi_constants \<Rightarrow> endpoint_info \<Rightarrow> string list" where
  "info_lines K e =
     [''provider: '' @ ei_provider e,
      ''addr_format: '' @ show_nat (unat (ei_addr_format e)),
      ''mr_mode: 0x'' @ show_hex (unat (ei_mr_mode e)) @ '' ['' @ decode_mr_mode K (ei_mr_mode e) @ '']'',
      ''caps: 0x'' @ show_hex (unat (ei_caps e)) @ '' ['' @ decode_caps K (ei_caps e) @ '']'',
      ''requires_local_mr: '' @ show_bool (ei_requires_local_mr e),
      ''uses_virtual_addressing: '' @ show_bool (ei_uses_virtual_addressing e)]"

section \<open>Objects are given back\<close>

text \<open>The objects held, newest first, and whether they were given back in an orderly way.\<close>

fun held :: "setup_log \<Rightarrow> fi_object list" where
  "held [] = []"
| "held (Acquired x # l) = x # held l"
| "held (Released x # l) = remove1 x (held l)"
| "held (Called _ _ # l) = held l"

fun is_fid :: "fi_object \<Rightarrow> bool" where
  "is_fid (Hints _) = False"
| "is_fid (Infos _) = False"
| "is_fid (Info _) = False"
| "is_fid _ = True"

fun orderly :: "setup_log \<Rightarrow> bool" where
  "orderly [] = True"
| "orderly (Released x # l) = (orderly l \<and> x \<in> set (held l) \<and> (is_fid x \<longrightarrow> find is_fid (held l) = Some x))"
| "orderly (_ # l) = orderly l"

text \<open>
  What the code relies on: a call that succeeds hands out an object, and one that fails leaves the
  pointer null; the list of entries is null exactly when it is empty.
\<close>

definition hands_out :: "int \<times> handle \<Rightarrow> bool" where
  "hands_out r \<longleftrightarrow> (fst r = 0 \<longleftrightarrow> snd r \<noteq> 0)"

definition library_ok :: "fi_library \<Rightarrow> bool" where
  "library_ok S \<longleftrightarrow>
     (\<forall>l n fl h. case fi_getinfo S l n fl h of (code, list, infos) \<Rightarrow>
        (code \<noteq> 0 \<longrightarrow> list = 0) \<and> (list = 0 \<longleftrightarrow> infos = []))
   \<and> (\<forall>l i. hands_out (fi_fabric S l i)) \<and> (\<forall>l d i. hands_out (fi_domain S l d i))
   \<and> (\<forall>l d. hands_out (fi_av_open S l d)) \<and> (\<forall>l d. hands_out (fi_cq_open S l d))
   \<and> (\<forall>l d i. hands_out (fi_endpoint S l d i))"

text \<open>
  Objects that are opened one after the other, into a value whose drop closes them: the value under
  construction owns, newest first, exactly what is held on top of what others hold. A step that
  keeps this, whether it succeeds or fails, leads to a drop that gives everything back.
\<close>

locale construction =
  fixes parts :: "'o \<Rightarrow> fi_object list"
    and built :: "nat \<Rightarrow> 'o \<Rightarrow> bool"
    and close :: "'o \<Rightarrow> setup_log \<Rightarrow> setup_log"
  assumes close_parts: "held l = parts x @ others \<Longrightarrow> orderly l \<Longrightarrow> held (close x l) = others \<and> orderly (close x l)"
begin

lemma run_account:
  assumes "\<And>i x l r x' l'. i < length fs \<Longrightarrow> (fs ! i) (x, l) = (r, x', l') \<Longrightarrow> built (n + i) x \<Longrightarrow>
      held l = parts x @ others \<Longrightarrow> orderly l \<Longrightarrow>
      held l' = parts x' @ others \<and> orderly l' \<and> (r = Inr () \<longrightarrow> built (Suc (n + i)) x')"
    and "held l = parts x @ others" "orderly l" "built n x" "run_steps fs (x, l) = (r, x', l')"
  shows "held l' = parts x' @ others \<and> orderly l' \<and> (r = Inr () \<longrightarrow> built (n + length fs) x')"
  using assms
proof (induction fs arbitrary: n x l)
  case (Cons f fs)
  obtain r1 x1 l1 where f: "f (x, l) = (r1, x1, l1)" by (cases "f (x, l)")
  have step: "held l1 = parts x1 @ others" "orderly l1" "r1 = Inr () \<Longrightarrow> built (Suc n) x1"
    using Cons.prems(1) [of 0 x l r1 x1 l1] Cons.prems(2-4) f by simp_all
  show ?case
  proof (cases r1)
    case (Inl e)
    then show ?thesis using Cons.prems(5) f step by auto
  next
    case (Inr u)
    have rest: "run_steps fs (x1, l1) = (r, x', l')" using Cons.prems(5) f Inr by simp
    have later: "held l' = parts x' @ others \<and> orderly l' \<and> (r = Inr () \<longrightarrow> built (Suc (Suc n + i)) x')"
      if "i < length fs" "(fs ! i) (x, l) = (r, x', l')" "built (Suc n + i) x"
        "held l = parts x @ others" "orderly l" for i x l r x' l'
      using Cons.prems(1) [of "Suc i" x l r x' l'] that by simp
    have "held l' = parts x' @ others \<and> orderly l' \<and> (r = Inr () \<longrightarrow> built (Suc n + length fs) x')"
      by (rule Cons.IH [OF later step(1,2) _ rest]) (use step(3) Inr in auto)
    then show ?thesis by simp
  qed
qed simp

lemma abandoned:
  assumes "\<And>i x l r x' l'. i < length fs \<Longrightarrow> (fs ! i) (x, l) = (r, x', l') \<Longrightarrow> built (n + i) x \<Longrightarrow>
      held l = parts x @ others \<Longrightarrow> orderly l \<Longrightarrow>
      held l' = parts x' @ others \<and> orderly l' \<and> (r = Inr () \<longrightarrow> built (Suc (n + i)) x')"
    and "held l = parts x @ others" "orderly l" "built n x" "run_steps fs (x, l) = (r, x', l')"
  shows "held (close x' l') = others \<and> orderly (close x' l')"
proof -
  have "held l' = parts x' @ others \<and> orderly l' \<and> (r = Inr () \<longrightarrow> built (n + length fs) x')"
    by (rule run_account [OF assms])
  then show ?thesis by - (rule close_parts, simp_all)
qed

end

text \<open>The objects an endpoint owns, newest first: the order in which its \<open>Drop\<close> closes them.\<close>

definition own :: "(handle \<Rightarrow> fi_object) \<Rightarrow> handle \<Rightarrow> fi_object list" where
  "own kind h = (if h = 0 then [] else [kind h])"

definition owned :: "lib_endpoint \<Rightarrow> fi_object list" where
  "owned le = own EndpointObj (le_endpoint le) @ own CompletionQueue (le_completion_queue le)
     @ own AddressVector (le_address_vector le) @ own DomainObj (le_domain le)
     @ own FabricObj (le_fabric le) @ own Info (le_info le)"

text \<open>An endpoint under construction holds exactly what it owns.\<close>

definition holds :: "fi_object list \<Rightarrow> lib_endpoint \<times> setup_log \<Rightarrow> bool" where
  "holds others s \<longleftrightarrow> held (snd s) = owned (fst s) @ others \<and> orderly (snd s)"

lemma held_acquire [simp]: "held (acquire kind h l) = own kind h @ held l"
  by (simp add: acquire_def own_def)

lemma orderly_acquire [simp]: "orderly (acquire kind h l) = orderly l"
  by (simp add: acquire_def)

lemma close_object_held:
  assumes "held l = own kind h @ rest" "orderly l"
  shows "held (close_object kind h l) = rest \<and> orderly (close_object kind h l)"
  using assms by (auto simp: close_object_def own_def)

lemma close_objects_held:
  assumes "holds others (le, l)"
  shows "held (close_objects le l) = others \<and> orderly (close_objects le l)"
proof -
  let ?l1 = "close_object EndpointObj (le_endpoint le) l"
  let ?l2 = "close_object CompletionQueue (le_completion_queue le) ?l1"
  let ?l3 = "close_object AddressVector (le_address_vector le) ?l2"
  let ?l4 = "close_object DomainObj (le_domain le) ?l3"
  let ?l5 = "close_object FabricObj (le_fabric le) ?l4"
  have l: "held l = own EndpointObj (le_endpoint le) @ own CompletionQueue (le_completion_queue le)
      @ own AddressVector (le_address_vector le) @ own DomainObj (le_domain le)
      @ own FabricObj (le_fabric le) @ own Info (le_info le) @ others" "orderly l"
    using assms by (simp_all add: holds_def owned_def)
  note s1 = close_object_held [OF l]
  note s2 = close_object_held [OF conjunct1 [OF s1] conjunct2 [OF s1]]
  note s3 = close_object_held [OF conjunct1 [OF s2] conjunct2 [OF s2]]
  note s4 = close_object_held [OF conjunct1 [OF s3] conjunct2 [OF s3]]
  note s5 = close_object_held [OF conjunct1 [OF s4] conjunct2 [OF s4]]
  note s6 = close_object_held [OF conjunct1 [OF s5] conjunct2 [OF s5]]
  show ?thesis using s6 by (simp add: close_objects_def)
qed

text \<open>
  The construction state after the first \<open>n\<close> opening calls: the handles of the later ones are null.
\<close>

definition built :: "nat \<Rightarrow> lib_endpoint \<Rightarrow> bool" where
  "built n le \<longleftrightarrow> (n < 1 \<longrightarrow> le_fabric le = 0) \<and> (n < 2 \<longrightarrow> le_domain le = 0)
     \<and> (n < 3 \<longrightarrow> le_address_vector le = 0) \<and> (n < 4 \<longrightarrow> le_completion_queue le = 0)
     \<and> (n < 5 \<longrightarrow> le_endpoint le = 0)"

lemmas open_step_defs = open_fabric_def open_domain_def open_address_vector_def
  open_completion_queue_def open_endpoint_object_def bind_address_vector_def
  bind_completion_queue_def enable_def

lemma own_null [simp]: "own kind 0 = []"
  by (simp add: own_def)

interpretation endpoints: construction owned built close_objects
  by unfold_locales (use close_objects_held in \<open>auto simp: holds_def\<close>)

text \<open>Each step keeps the accounting; when it succeeds the construction has come one call further.\<close>

lemma open_steps_keep_account:
  assumes "i < length (open_steps S F)" "(open_steps S F ! i) (le, l) = (r, le', l')" "built i le"
    "held l = owned le @ others" "orderly l"
  shows "held l' = owned le' @ others \<and> orderly l' \<and> built (Suc i) le'"
proof -
  have "i \<in> {0, 1, 2, 3, 4, 5, 6, 7}" using assms(1) by (auto simp: open_steps_def)
  then show ?thesis
    using assms(2-5)
    by (elim insertE emptyE; simp add: open_steps_def open_step_defs Let_def built_def owned_def
        eval_nat_numeral split: prod.splits if_splits; (elim conjE)?; hypsubst?; simp)
qed

lemma open_steps_account:
  assumes "holds others s" "built 0 (fst s)"
  shows "holds others (snd (run_steps (open_steps S F) s))"
proof -
  obtain r le' l' where run: "run_steps (open_steps S F) (fst s, snd s) = (r, le', l')"
    by (cases "run_steps (open_steps S F) (fst s, snd s)")
  have "held l' = owned le' @ others \<and> orderly l' \<and> (r = Inr () \<longrightarrow> built (0 + length (open_steps S F)) le')"
    by (rule endpoints.run_account [OF _ _ _ _ run])
      (use assms open_steps_keep_account in \<open>auto simp: holds_def\<close>)
  then show ?thesis using run by (simp add: holds_def)
qed

text \<open>What a successful run of steps establishes.\<close>

lemma run_steps_success:
  assumes "\<And>i s s'. i < length fs \<Longrightarrow> P (n + i) s \<Longrightarrow> (fs ! i) s = (Inr (), s') \<Longrightarrow> P (Suc (n + i)) s'"
    and "P n s" "run_steps fs s = (Inr (), s')"
  shows "P (n + length fs) s'"
  using assms
proof (induction fs arbitrary: n s)
  case (Cons f fs)
  obtain s1 where f: "f s = (Inr (), s1)" "run_steps fs s1 = (Inr (), s')"
    using Cons.prems(3) by (auto split: prod.splits sum.splits)
  have "P (Suc n) s1" using Cons.prems(1) [of 0 s s1] Cons.prems(2) f(1) by simp
  then show ?case
    using Cons.IH [of "Suc n" s1] Cons.prems(1) [of "Suc _"] f(2) by simp
qed simp

definition made :: "nat \<Rightarrow> lib_endpoint \<Rightarrow> bool" where
  "made n le \<longleftrightarrow> (1 \<le> n \<longrightarrow> le_fabric le \<noteq> 0) \<and> (2 \<le> n \<longrightarrow> le_domain le \<noteq> 0 \<and> le_regions_domain le = le_domain le)
     \<and> (3 \<le> n \<longrightarrow> le_address_vector le \<noteq> 0) \<and> (4 \<le> n \<longrightarrow> le_completion_queue le \<noteq> 0)
     \<and> (5 \<le> n \<longrightarrow> le_endpoint le \<noteq> 0) \<and> le_info le \<noteq> 0 \<and> (\<exists>format. le_peers le = peers_new format)"

lemma library_okD:
  assumes "library_ok S"
  shows "fi_fabric S l i = (0, h) \<Longrightarrow> h \<noteq> 0" "fi_domain S l d i = (0, h) \<Longrightarrow> h \<noteq> 0"
    "fi_av_open S l d = (0, h) \<Longrightarrow> h \<noteq> 0" "fi_cq_open S l d = (0, h) \<Longrightarrow> h \<noteq> 0"
    "fi_endpoint S l d i = (0, h) \<Longrightarrow> h \<noteq> 0"
    "fi_getinfo S l n fl hs = (code, list, infos) \<Longrightarrow> (code \<noteq> 0 \<longrightarrow> list = 0) \<and> (list = 0 \<longleftrightarrow> infos = [])"
proof -
  have "hands_out (fi_fabric S l i)" "hands_out (fi_domain S l d i)" "hands_out (fi_av_open S l d)"
    "hands_out (fi_cq_open S l d)" "hands_out (fi_endpoint S l d i)"
    using assms by (simp_all add: library_ok_def)
  then show "fi_fabric S l i = (0, h) \<Longrightarrow> h \<noteq> 0" "fi_domain S l d i = (0, h) \<Longrightarrow> h \<noteq> 0"
    "fi_av_open S l d = (0, h) \<Longrightarrow> h \<noteq> 0" "fi_cq_open S l d = (0, h) \<Longrightarrow> h \<noteq> 0"
    "fi_endpoint S l d i = (0, h) \<Longrightarrow> h \<noteq> 0" by (simp_all add: hands_out_def)
  have "case fi_getinfo S l n fl hs of (code, list, infos) \<Rightarrow>
      (code \<noteq> 0 \<longrightarrow> list = 0) \<and> (list = 0 \<longleftrightarrow> infos = [])"
    using assms by (simp add: library_ok_def)
  then show "fi_getinfo S l n fl hs = (code, list, infos) \<Longrightarrow>
      (code \<noteq> 0 \<longrightarrow> list = 0) \<and> (list = 0 \<longleftrightarrow> infos = [])" by simp
qed

lemma open_steps_make:
  assumes "library_ok S"
  shows "open_fabric S F s = (Inr (), s') \<Longrightarrow> made 0 (fst s) \<Longrightarrow> made (Suc 0) (fst s')"
    "open_domain S F s = (Inr (), s') \<Longrightarrow> made (Suc 0) (fst s) \<Longrightarrow> made (Suc (Suc 0)) (fst s')"
    "open_address_vector S F s = (Inr (), s') \<Longrightarrow> made (Suc (Suc 0)) (fst s) \<Longrightarrow> made (Suc (Suc (Suc 0))) (fst s')"
    "open_completion_queue S F s = (Inr (), s') \<Longrightarrow> made (Suc (Suc (Suc 0))) (fst s)
       \<Longrightarrow> made (Suc (Suc (Suc (Suc 0)))) (fst s')"
    "open_endpoint_object S F s = (Inr (), s') \<Longrightarrow> made (Suc (Suc (Suc (Suc 0)))) (fst s)
       \<Longrightarrow> made (Suc (Suc (Suc (Suc (Suc 0))))) (fst s')"
    "bind_address_vector S F s = (Inr (), s') \<Longrightarrow> fst s' = fst s"
    "bind_completion_queue S F s = (Inr (), s') \<Longrightarrow> fst s' = fst s"
    "enable S F s = (Inr (), s') \<Longrightarrow> fst s' = fst s"
  by (cases s; auto simp: open_step_defs made_def Let_def split: prod.splits dest: library_okD [OF assms])+

lemma made_more: "5 \<le> n \<Longrightarrow> made n le \<longleftrightarrow> made 5 le"
  by (auto simp: made_def)

lemma open_steps_made:
  assumes lib: "library_ok S" and start: "made 0 (fst s)" and run: "run_steps (open_steps S F) s = (Inr (), s')"
  shows "made 5 (fst s')"
proof -
  have "made (0 + length (open_steps S F)) (fst s')"
  proof (rule run_steps_success [where P = "\<lambda>n s. made n (fst s)", OF _ start run])
    fix i s1 s2
    assume i: "i < length (open_steps S F)" "made (0 + i) (fst s1)" "(open_steps S F ! i) s1 = (Inr (), s2)"
    have later: "made (Suc n) le \<longleftrightarrow> made n le" if "5 \<le> n" for n le
      using made_more [of n le] made_more [of "Suc n" le] that by simp
    consider "i = 0" | "i = 1" | "i = 2" | "i = 3" | "i = 4" | "i = 5" | "i = 6" | "i = 7"
      using i(1) by (auto simp: open_steps_def less_Suc_eq)
    then show "made (Suc (0 + i)) (fst s2)"
      by cases (use i open_steps_make [OF lib, of F s1 s2] later [of i] in
        \<open>simp_all add: open_steps_def eval_nat_numeral\<close>)
  qed
  then show ?thesis using made_more [of "length (open_steps S F)"] by (simp add: open_steps_def)
qed

lemma get_infos_account:
  assumes lib: "library_ok S" and l: "orderly l" and hints: "h \<noteq> 0" and run: "get_infos S F p n h l = (r, l')"
  shows "orderly l' \<and> (case r of Inl e \<Rightarrow> held l' = held l
    | Inr (list, infos) \<Rightarrow> held l' = Infos list # held l \<and> list \<noteq> 0 \<and> infos \<noteq> [])"
proof -
  let ?flags = "if n = None then 0 else FI_SOURCE (su_constants S)" and ?l1 = "acquire Hints h l"
  obtain code list infos where q:
    "fi_getinfo S ?l1 n ?flags (hints_for (su_constants S) p) = (code, list, infos)"
    by (cases "fi_getinfo S ?l1 n ?flags (hints_for (su_constants S) p)")
  let ?l2 = "Released (Hints h) # acquire Infos list (Called ''fi_getinfo'' code # ?l1)"
  note ok = library_okD(6) [OF lib q]
  have l': "l' = ?l2" and r: "r = (case check F code ''fi_getinfo'' of Inl e \<Rightarrow> Inl e
      | Inr _ \<Rightarrow> if list = 0 then Inl (Fabric ''no provider matched'') else Inr (list, infos))"
    using run unfolding get_infos_def Let_def q by (auto split: sum.splits if_splits)
  have "held ?l2 = own Infos list @ held l" "orderly ?l2"
    using hints l by (auto simp: own_def)
  then show ?thesis
    unfolding l' using r ok by (auto simp: own_def check_def split: if_splits)
qed

lemma query_info_account:
  assumes lib: "library_ok S" and l: "orderly l" and run: "query_info S F C n l = (r, l')"
  shows "orderly l' \<and> (case r of Inl e \<Rightarrow> held l' = held l
    | Inr (list, infos) \<Rightarrow> held l' = Infos list # held l \<and> list \<noteq> 0 \<and> infos \<noteq> [])"
proof -
  let ?p = "case lc_providers C of [] \<Rightarrow> Tcp | p # _ \<Rightarrow> p" and ?h = "fi_allocinfo S l"
  consider "l' = l" "\<exists>e. r = Inl e" | "?h \<noteq> 0" "get_infos S F ?p n ?h l = (r, l')"
    using run unfolding query_info_def Let_def by (metis Pair_inject)
  then show ?thesis
    by cases (use l get_infos_account [OF lib l] in auto)
qed

lemma take_info_account:
  assumes "orderly l" "held l = Infos list # others" "take_info S list i (null_endpoint, l) = (r, le, l')"
  shows "holds others (le, l') \<and> built 0 le \<and> (r = Inr () \<longrightarrow> made 0 le)"
  using assms
  by (auto simp: take_info_def holds_def built_def made_def owned_def null_endpoint_def Let_def own_def
      split: prod.splits if_splits)

lemma select_domain_some: "select_domain infos want = Some i \<Longrightarrow> i \<in> set infos \<and> inf_domain_name i = Some (string_bytes want)"
  unfolding select_domain_def by (metis (mono_tags, lifting) find_Some_iff nth_mem)

lemma endpoint_drop_account:
  "holds others (le, l) \<Longrightarrow> endpoint_drop le l w = (l', w') \<Longrightarrow> held l' = others \<and> orderly l'"
  using close_objects_held by (auto simp: endpoint_drop_def Let_def split: prod.splits)

lemma holds_null: "orderly l \<Longrightarrow> holds (held l) (null_endpoint, l)"
  by (simp add: holds_def owned_def null_endpoint_def)

lemma open_endpoint_account:
  assumes lib: "library_ok S" and l: "orderly l" and run: "open_endpoint S F C n l w = (r, l', w')"
  shows "case r of Inl e \<Rightarrow> held l' = held l \<and> orderly l'
    | Inr le \<Rightarrow> holds (held l) (le, l') \<and> made 5 le \<and> w' = w"
proof -
  obtain q l1 where q: "query_info S F C n l = (q, l1)" by (cases "query_info S F C n l")
  note qok = query_info_account [OF lib l q]
  show ?thesis
  proof (cases q)
    case (Inl e)
    then have "holds (held l) (null_endpoint, l1)" using qok holds_null [of l1] by simp
    then show ?thesis
      using run q Inl endpoint_drop_account by (auto simp: open_endpoint_def Let_def split: prod.splits)
  next
    case (Inr li)
    obtain list infos where li: "li = (list, infos)" by (cases li)
    have l1: "orderly l1" "held l1 = Infos list # held l" using qok Inr li by simp_all
    let ?wanted = "case lc_interfaces C of [] \<Rightarrow> None | name # _ \<Rightarrow> Some name"
    define chosen where "chosen = (case ?wanted of Some name \<Rightarrow> select_domain infos name
      | None \<Rightarrow> (case infos of [] \<Rightarrow> None | i # _ \<Rightarrow> Some i))"
    show ?thesis
    proof (cases chosen)
      case None
      have "holds (held l) (null_endpoint, Released (Infos list) # l1)"
        using l1 holds_null [of "Released (Infos list) # l1"] by simp
      then show ?thesis
        using run q Inr li None [unfolded chosen_def] endpoint_drop_account
        unfolding open_endpoint_def Let_def by (auto split: prod.splits)
    next
      case (Some i)
      let ?steps = "take_info S list i # open_steps S F"
      obtain r0 le0 l2 where t: "take_info S list i (null_endpoint, l1) = (r0, le0, l2)"
        by (cases "take_info S list i (null_endpoint, l1)")
      note tok = take_info_account [OF l1 t]
      obtain r1 le1 l3 where s: "run_steps ?steps (null_endpoint, l1) = (r1, le1, l3)"
        by (cases "run_steps ?steps (null_endpoint, l1)")
      have acc: "holds (held l) (le1, l3)"
        using open_steps_account [of "held l" "(le0, l2)" S F] tok s t
        by (auto split: sum.splits simp: holds_def)
      have made: "made 5 le1" if "r1 = Inr ()"
        using open_steps_made [OF lib, of "(le0, l2)" F "(le1, l3)"] tok s t that
        by (auto split: sum.splits)
      show ?thesis
        using run q Inr li Some [unfolded chosen_def] s acc made endpoint_drop_account
        unfolding open_endpoint_def Let_def
        by (auto split: prod.splits sum.splits simp del: run_steps.simps)
    qed
  qed
qed

text \<open>
  C15. Opening an endpoint leaks nothing and closes nothing twice, wherever it fails. From any state
  of the library, an open that fails has given back every object it acquired (hints, list, copied
  entry, fabric, domain, address vector, completion queue, endpoint); one that succeeds holds
  exactly the six objects of the endpoint, none of them null, and its drop gives these back, each
  object after everything that was opened on it.
\<close>

theorem open_gives_every_object_back:
  assumes "library_ok S" "orderly l"
  shows "case open_endpoint S F C n l w of
      (Inl e, l', w') \<Rightarrow> held l' = held l \<and> orderly l'
    | (Inr le, l', w') \<Rightarrow>
        held l' = [EndpointObj (le_endpoint le), CompletionQueue (le_completion_queue le),
          AddressVector (le_address_vector le), DomainObj (le_domain le), FabricObj (le_fabric le),
          Info (le_info le)] @ held l
        \<and> 0 \<notin> {le_endpoint le, le_completion_queue le, le_address_vector le, le_domain le, le_fabric le, le_info le}
        \<and> (case endpoint_drop le l' w' of (l'', w'') \<Rightarrow> held l'' = held l \<and> orderly l'')"
proof -
  obtain r l' w' where run: "open_endpoint S F C n l w = (r, l', w')"
    by (cases "open_endpoint S F C n l w")
  note acc = open_endpoint_account [OF assms run]
  show ?thesis
  proof (cases r)
    case (Inr le)
    obtain l'' w'' where drop: "endpoint_drop le l' w' = (l'', w'')" by (cases "endpoint_drop le l' w'")
    have ok: "holds (held l) (le, l')" "made 5 le" using acc Inr by simp_all
    show ?thesis
      using run Inr drop endpoint_drop_account [OF ok(1) drop] ok by (simp add: made_def holds_def owned_def own_def)
  qed (use run acc in simp)
qed

text \<open>A library with one device, whose handles count upwards.\<close>

definition sample_info :: fi_info where
  "sample_info = \<lparr>inf_prov_name = Some [116, 99, 112], inf_domain_name = Some [108, 111], inf_mr_mode = 5,
     inf_caps = 3, inf_addr_format = 2, inf_tx_size = 64\<rparr>"

definition sample_constants :: fi_constants where
  "sample_constants = \<lparr>FI_MSG = 2, FI_RMA = 4, FI_READ = 256, FI_WRITE = 512, FI_REMOTE_READ = 4096,
     FI_REMOTE_WRITE = 8192, FI_TRANSMIT = 2048, FI_RECV = 1024, FI_SOURCE = 1, FI_MR_LOCAL = 4,
     FI_MR_VIRT_ADDR = 16, FI_MR_ALLOCATED = 32, FI_MR_PROV_KEY = 64, FI_MR_ENDPOINT = 512,
     FI_MR_HMEM = 1024, FI_CONTEXT2 = 1, FI_RX_CQ_DATA = 2\<rparr>"

definition fresh_handle :: "setup_log \<Rightarrow> handle" where
  "fresh_handle l = (if word_of_nat (Suc (length l)) = (0 :: handle) then 1 else word_of_nat (Suc (length l)))"

definition sample_library :: fi_library where
  "sample_library = \<lparr>su_constants = sample_constants, fi_allocinfo = fresh_handle,
     fi_getinfo = (\<lambda>l _ _ _. (0, fresh_handle l, [sample_info])), fi_dupinfo = (\<lambda>l i. (fresh_handle l, i)),
     fi_fabric = (\<lambda>l _. (0, fresh_handle l)), fi_domain = (\<lambda>l _ _. (0, fresh_handle l)),
     fi_av_open = (\<lambda>l _. (0, fresh_handle l)), fi_cq_open = (\<lambda>l _. (0, fresh_handle l)),
     fi_endpoint = (\<lambda>l _ _. (0, fresh_handle l)), fi_ep_bind = (\<lambda>_ _ _ _. 0), fi_enable = (\<lambda>_ _. 0),
     fi_getname = (\<lambda>_ _ n. (if n = 0 then - 257 else 0, 4, take n [127, 0, 0, 1])), str_debug = (\<lambda>s. s)\<rparr>"

lemma fresh_handle_nonzero [simp]: "fresh_handle l \<noteq> 0"
  by (simp add: fresh_handle_def)

lemma sample_library_ok: "library_ok sample_library"
  by (simp add: library_ok_def hands_out_def sample_library_def)

lemma sample_open: "\<not> isl (fst (open_endpoint sample_library loopback default_libfabric None [] empty_world))"
  by code_simp

theorem open_gives_every_object_back_witness:
  "case open_endpoint sample_library loopback default_libfabric None [] empty_world of
     (Inl e, l', w') \<Rightarrow> False
   | (Inr le, l', w') \<Rightarrow> length (held l') = 6 \<and> held (fst (endpoint_drop le l' w')) = []"
proof -
  obtain r l' w' where run: "open_endpoint sample_library loopback default_libfabric None [] empty_world = (r, l', w')"
    by (cases "open_endpoint sample_library loopback default_libfabric None [] empty_world")
  obtain le where r: "r = Inr le" using sample_open run by (cases r) auto
  obtain l'' w'' where drop: "endpoint_drop le l' w' = (l'', w'')" by (cases "endpoint_drop le l' w'")
  show ?thesis
    using open_gives_every_object_back [OF sample_library_ok, of "[]" loopback default_libfabric None empty_world]
      run r drop by simp
qed

section \<open>A started worker\<close>

lemma service_start_initial:
  assumes lib: "library_ok S" and l: "orderly l" and cache: "cache_ok {#} w" and wire: "wire (w_log w) = []"
    and av: "av_inserted (w_log w) = av_removed (w_log w)"
  shows "case service_start None S F C landing l w of
      (Inl e, l', w') \<Rightarrow> held l' = held l \<and> orderly l'
    | (Inr (address, s), l', w') \<Rightarrow> service_init s \<and> wk_world (sv_worker s) = w'
        \<and> (\<exists>le. holds (held l) (le, l') \<and> wk_endpoint (sv_worker s) = to_endpoint le)"
proof -
  obtain r l1 w1 where op: "open_endpoint S F C (lc_bind C) l w = (r, l1, w1)"
    by (cases "open_endpoint S F C (lc_bind C) l w")
  note acc = open_endpoint_account [OF lib l op]
  show ?thesis
  proof (cases r)
    case (Inl e)
    then show ?thesis using op acc by (simp add: service_start_def worker_open_def)
  next
    case (Inr le)
    have le: "holds (held l) (le, l1)" "made 5 le" "w1 = w" using acc Inr by simp_all
    obtain format where peers: "le_peers le = peers_new format" using le(2) by (auto simp: made_def)
    have "peers_ok {#} (peers_new format) w" "indexed (peers_new format)"
      using peers_init_inv [of "(peers_new format, empty_world)"] av
      by (auto simp: peers_init_def peers_state_inv_def peers_ok_def av_accounted_def peers_new_def)
    then have ep: "endpoint_ok {#} (to_endpoint le) w"
      using cache by (simp add: endpoint_ok_def to_endpoint_def peers)
    obtain pinned w2 where pin: "(if lc_quiesce_writes C then pin_region F landing 8 (to_endpoint le) w1
        else (Inr (), w1)) = (pinned, w2)" by (metis prod.collapse)
    have ok2: "endpoint_ok {#} (to_endpoint le) w2 \<and> wire (w_log w2) = wire (w_log w)"
      using pin pin_region_ok [OF ep] le(3) ep by (auto split: if_splits)
    obtain ad l2 where name: "local_address S F le l1 = (ad, l2)" by (cases "local_address S F le l1")
    have l2: "held l2 = held l1 \<and> orderly l2"
      using name le(1) by (auto simp: local_address_def holds_def Let_def split: prod.splits if_splits sum.splits)
    then have h2: "holds (held l) (le, l2)" using le(1) by (simp add: holds_def)
    show ?thesis
    proof (cases pinned)
      case (Inl e)
      obtain l3 w3 where drop: "endpoint_drop le l1 w2 = (l3, w3)" by (cases "endpoint_drop le l1 w2")
      show ?thesis
        using endpoint_drop_account [OF le(1) drop] op Inr pin Inl drop
        by (simp add: service_start_def worker_open_def)
    next
      case pinned: (Inr u)
      show ?thesis
      proof (cases ad)
        case (Inl e)
        obtain l3 w3 where drop: "endpoint_drop le l2 w2 = (l3, w3)" by (cases "endpoint_drop le l2 w2")
        show ?thesis
          using endpoint_drop_account [OF h2 drop] op Inr pin pinned name Inl drop
          by (simp add: service_start_def worker_open_def)
      next
        case named: (Inr address)
        have "service_init (service_new (to_endpoint le) w2)"
          using ok2 wire by (auto simp: service_init_def)
        then show ?thesis
          using op Inr pin pinned name named h2
          by (auto simp: service_start_def worker_open_def service_new_def worker_new_def)
      qed
    qed
  qed
qed

text \<open>
  Starting a worker either fails and gives everything back, or reports an address of the length
  the library asked for at most, and the service it starts is in an initial state of the system:
  the tables of peers are empty, the cache of regions is consistent (the landing buffer of the
  quiesce reads pinned, when they are configured), and nothing is on the wire.
\<close>

theorem started_service_is_initial:
  assumes lib: "library_ok S" and l: "orderly l" and cache: "cache_ok {#} w" and wire: "wire (w_log w) = []"
    and av: "av_inserted (w_log w) = av_removed (w_log w)"
  shows "case service_start None S F C landing l w of
      (Inl e, l', w') \<Rightarrow> held l' = held l \<and> orderly l'
    | (Inr (address, s), l', w') \<Rightarrow> service_init s \<and> wk_world (sv_worker s) = w'
        \<and> (\<exists>le. holds (held l) (le, l') \<and> wk_endpoint (sv_worker s) = to_endpoint le)"
  by (rule service_start_initial [OF assms])

lemma sample_start:
  "\<not> isl (fst (service_start None sample_library loopback (default_libfabric\<lparr>lc_quiesce_writes := True\<rparr>) 64 []
     empty_world :: (dma_error, u8 list \<times> vec_u8 service) result \<times> setup_log \<times> world))"
  by code_simp

theorem started_service_is_initial_witness:
  "case service_start None sample_library loopback (default_libfabric\<lparr>lc_quiesce_writes := True\<rparr>) 64 [] empty_world of
     (Inl e, l', w') \<Rightarrow> False
   | (Inr (address, s :: vec_u8 service), l', w') \<Rightarrow> service_init s"
proof -
  let ?start = "service_start None sample_library loopback (default_libfabric\<lparr>lc_quiesce_writes := True\<rparr>) 64 []
     empty_world :: (dma_error, u8 list \<times> vec_u8 service) result \<times> setup_log \<times> world"
  obtain r l' w' where run: "?start = (r, l', w')" by (cases ?start)
  obtain address s where r: "r = Inr (address, s)" using sample_start run by (cases r) auto
  have "case ?start of (Inl e, l', w') \<Rightarrow> held l' = held [] \<and> orderly l'
    | (Inr (address, s), l', w') \<Rightarrow> service_init s \<and> wk_world (sv_worker s) = w'
        \<and> (\<exists>le. holds (held []) (le, l') \<and> wk_endpoint (sv_worker s) = to_endpoint le)"
    by (rule started_service_is_initial [OF sample_library_ok _ cache_ok_empty])
      (simp_all add: empty_world_def)
  then show ?thesis using run r by simp
qed

section \<open>Discovered devices\<close>

lemma remdups_snoc: "remdups (zs @ [n]) = remdups (filter (\<lambda>m. m \<noteq> n) zs) @ [n]"
  by (induction zs) auto

lemma collect_names_appends:
  "collect_names infos names =
     names @ rev (remdups (rev (filter (\<lambda>n. utf8_valid n \<and> n \<notin> set names) (List.map_filter inf_domain_name infos))))"
proof (induction infos names rule: collect_names.induct)
  case (2 i rest names)
  let ?all = "List.map_filter inf_domain_name"
  show ?case
  proof (cases "inf_domain_name i")
    case None
    then show ?thesis using 2 by (simp add: map_filter_simps)
  next
    case (Some n)
    show ?thesis
    proof (cases "utf8_valid n \<and> n \<notin> set names")
      case False
      then show ?thesis using 2 Some by (auto simp: map_filter_simps)
    next
      case True
      have "rev (remdups (rev (n # ys))) = n # rev (remdups (rev (filter (\<lambda>m. m \<noteq> n) ys)))" for ys :: "u8 list list"
        by (simp add: remdups_snoc rev_filter)
      then show ?thesis
        using 2 Some True by (simp add: map_filter_simps conj_ac)
    qed
  qed
qed (simp add: map_filter_simps)

text \<open>
  \<open>discover_domains\<close> is the plain specification of its documentation: of the names the library
  lists, those that are valid UTF-8, each once and in the order in which they first appear. The
  list is given back.
\<close>

theorem discovered_domains_are_the_distinct_names:
  assumes "query_info S F C None l = (Inr (list, infos), l1)"
  shows "discover_domains S F C l =
      (Inr (rev (remdups (rev (filter utf8_valid (List.map_filter inf_domain_name infos))))),
       Released (Infos list) # l1)"
  using assms collect_names_appends [of infos "[]"] by (simp add: discover_domains_def)

theorem discovered_domains_are_the_distinct_names_witness:
  "fst (discover_domains sample_library loopback default_libfabric []) = Inr [[108, 111]]"
proof -
  obtain r l1 where run: "query_info sample_library loopback default_libfabric None [] = (r, l1)"
    by (cases "query_info sample_library loopback default_libfabric None []")
  have "\<exists>list. fst (query_info sample_library loopback default_libfabric None []) = Inr (list, [sample_info])"
    by (simp add: query_info_def get_infos_def default_libfabric_def default_providers_def cstring_def
      sample_library_def check_def Let_def char_of_def)
  then obtain list where "r = Inr (list, [sample_info])" using run by auto
  moreover have "utf8_valid [108, 111]" by code_simp
  ultimately show ?thesis
    using discovered_domains_are_the_distinct_names [of sample_library loopback default_libfabric "[]" list
        "[sample_info]" l1] run
    by (simp add: map_filter_simps sample_info_def)
qed

end
