(* ===== verification/Service_Properties.thy ===== *)
theory Service_Properties
  imports Service "HOL-Library.Code_Target_Numeral"
begin

text \<open>
  What the invariant of the service means for its callers, for libfabric and for the memory it
  works on: properties of every reachable state of \<open>service_step\<close>, over every fabric that keeps
  the contract of the completion queue. The witnesses run a service of byte vectors on the
  loopback fabric.
\<close>

section \<open>A service to run\<close>

definition next_address :: "op_context list \<Rightarrow> op_context" where
  "next_address live = Suc (foldr max live 0)"

definition loopback_config :: "bool \<Rightarrow> vec_u8 config" where
  "loopback_config quiesce = \<lparr>cf_fabric = loopback, cf_operands = vec_operands (\<lambda>p _. p),
     cf_box_alloc = next_address, cf_quiesce_writes = quiesce, cf_progress_deadline = 1000000000,
     cf_cap = in_flight_cap 64 None, cf_landing = 64\<rparr>"

definition loopback_endpoint :: endpoint where
  "loopback_endpoint = \<lparr>ep_domain = 1, ep_requires_local_mr = True,
     ep_uses_virtual_addressing = True, ep_max_tx = 64, ep_peers = peers_new Opaque\<rparr>"

definition sample_request :: "bool \<Rightarrow> vec_u8 transfer_request" where
  "sample_request checksummed = \<lparr>tr_client_id = 7, tr_peer_address = [1, 2], tr_remote_key = 5,
     tr_remote_address = 4096, tr_direction = ToPeer, tr_want_checksum = checksummed,
     tr_caller_context = \<lparr>vec_pointer = 8192, vec_bytes = [10, 20, 30]\<rparr>\<rparr>"

text \<open>One transfer handed over, and turns of the worker after it.\<close>

definition submitted :: "bool \<Rightarrow> vec_u8 service" where
  "submitted checksummed =
     snd (submit (sample_request checksummed) (service_new loopback_endpoint empty_world))"

primrec turns :: "'c config \<Rightarrow> nat \<Rightarrow> 'c service \<Rightarrow> 'c service" where
  "turns C 0 s = s"
| "turns C (Suc n) s = turns C n (worker_turn C s)"

lemma next_address_fresh: "next_address live \<notin> set live \<and> next_address live \<noteq> 0"
proof -
  have "x \<in> set live \<Longrightarrow> x \<le> foldr max live 0" for x
    by (induction live) auto
  then show ?thesis unfolding next_address_def by force
qed

interpretation byte_service: worker_env "loopback_config quiesce" "\<lambda>_. ()" for quiesce
  by unfold_locales (simp_all add: loopback_config_def next_address_fresh loopback_contract)

lemma loopback_environment: "environment_ok (loopback_config quiesce) (\<lambda>_. ())"
  by (simp add: environment_ok_def loopback_config_def next_address_fresh loopback_contract)

lemma service_new_init: "service_init (service_new loopback_endpoint empty_world :: vec_u8 service)"
proof -
  have "endpoint_ok {#} loopback_endpoint empty_world"
    using peers_init_inv [of "(peers_new Opaque, empty_world)"]
    by (auto simp: endpoint_ok_def loopback_endpoint_def peers_init_def peers_state_inv_def)
  then show ?thesis unfolding service_init_def by (intro exI conjI) (auto simp: empty_world_def)
qed

lemma submitted_reachable: "reachable service_init (service_step C) (submitted checksummed)"
proof -
  let ?s = "service_new loopback_endpoint empty_world :: vec_u8 service"
  have "service_step C ?s (submitted checksummed)"
    unfolding submitted_def
    by (rule step_submit [of "sample_request checksummed" _ "fst (submit (sample_request checksummed) ?s)"]) simp
  moreover have "reachable service_init (service_step C) ?s" by (rule reach_init) (rule service_new_init)
  ultimately show ?thesis by (rule reach_step [rotated])
qed

lemma turns_reachable:
  "reachable service_init (service_step C) s \<Longrightarrow> reachable service_init (service_step C) (turns C n s)"
  by (induction n arbitrary: s) (auto intro: reach_step step_turn)

text \<open>
  A transfer with a quiesce read and a checksum, two times round the loop: the worker is parked
  and the operation waits for a thread of the pool.
\<close>

definition sample_parked :: "vec_u8 service" where
  "sample_parked = turns (loopback_config True) 17 (submitted True)"

lemma sample_parked_reachable:
  "reachable service_init (service_step (loopback_config True)) sample_parked"
  unfolding sample_parked_def by (rule turns_reachable [OF submitted_reachable])

definition sample_box :: "vec_u8 boxed" where
  "sample_box = (1, \<lparr>if_caller_context = \<lparr>vec_pointer = 8192, vec_bytes = [10, 20, 30]\<rparr>,
     if_client_id = 7, if_length = 3, if_want_checksum = True, if_buffer_pointer = 8192,
     if_local_lease = Some 1, if_quiesce = None\<rparr>)"

lemma sample_parked_state:
  "(sv_mode sample_parked, sv_channel sample_parked, sv_sender sample_parked, wk_jobs (sv_worker sample_parked))
   = (Parked, [], True, [[(sample_box, Inr ())]])"
  by code_simp

lemma sample_parked_simps [simp]:
  "sv_mode sample_parked = Parked" "sv_channel sample_parked = []" "sv_sender sample_parked"
  "wk_jobs (sv_worker sample_parked) = [[(sample_box, Inr ())]]"
  using sample_parked_state by auto

section \<open>Every operation is owned once\<close>

lemma service_facts:
  assumes "environment_ok C tag" "reachable service_init (service_step C) s"
  shows "winv tag (mset (undispatched (sv_mode s))) {#} {#} 0 (length (transfers (sv_channel s)))
    (tags tag (sv_worker s) {#}) (sv_worker s)"
  by (rule sinv_parts(1) [OF reachable_sinv [OF assms]])

text \<open>
  C3. No transfer is lost and none is delivered twice. In every interleaving of callers, worker,
  pool threads and reclaims, the contexts given to \<open>submit\<close> are exactly those waiting in the
  channel, those in the boxes of operations in progress (posted, waiting for a quiesce read, or
  waiting for a checksum here or in the pool) and those of completions, delivered or about to be.
\<close>

theorem submitted_contexts_are_conserved:
  assumes "environment_ok C tag" "reachable service_init (service_step C) s"
  defines "wk \<equiv> sv_worker s"
  shows "image_mset tag (mset (sv_submitted s)) =
      image_mset (\<lambda>r. tag (tr_caller_context r)) (mset (transfers (sv_channel s)))
    + image_mset (\<lambda>b. tag (if_caller_context (snd b)))
        (mset (wk_boxes wk) + mset (map q_inflight (wk_quiescing wk))
         + mset (map fst (wk_crc_pending wk)) + mset (map fst (concat (wk_jobs wk))))
    + image_mset (\<lambda>c. tag (cm_caller_context c))
        (mset (wk_completions wk) + mset (concat (wk_batches wk)))"
  using sinv_parts(2) [OF reachable_sinv [OF assms(1,2)]]
  by (simp add: waiting_def tags_def all_boxes_def wk_def comp_def ac_simps)

theorem submitted_contexts_are_conserved_witness:
  "size (sv_submitted sample_parked) = size (transfers (sv_channel sample_parked))
    + size (wk_boxes (sv_worker sample_parked)) + size (wk_quiescing (sv_worker sample_parked))
    + size (wk_crc_pending (sv_worker sample_parked)) + size (concat (wk_jobs (sv_worker sample_parked)))
    + size (wk_completions (sv_worker sample_parked)) + size (concat (wk_batches (sv_worker sample_parked)))"
  using arg_cong [OF submitted_contexts_are_conserved [OF loopback_environment sample_parked_reachable],
      of size] by simp

text \<open>
  C7. Memory safety of the raw pointers. A context that libfabric holds (posted, and not yet
  reported) is never null, occurs once, and is the address of a box the worker still has, and so
  is one that was reaped and not yet dispatched; no address is ever reclaimed without its box and
  no count is driven below zero; \<open>in_flight\<close> is the number of operations libfabric holds.
\<close>

theorem operations_on_the_wire_own_their_box:
  assumes "environment_ok C tag" "reachable service_init (service_step C) s"
  defines "wk \<equiv> sv_worker s"
  shows "\<not> wk_fault wk \<and> wk_in_flight wk = length (wire (w_log (wk_world wk)))
    \<and> mset (map fst (wk_boxes wk)) = mset (map pd_context (wk_pending wk)) + mset (wire (w_log (wk_world wk)))
        + mset (undispatched (sv_mode s))
    \<and> distinct (live_boxes wk) \<and> 0 \<notin> set (live_boxes wk)"
proof -
  note inv = service_facts [OF assms(1,2), folded wk_def]
  have addrs: "addrs_ok (all_boxes wk {#})" using inv by (simp add: winv_def)
  have "count (mset (live_boxes wk)) a \<le> 1" for a
    using addrs by (simp add: live_boxes_mset addrs_ok_def)
  then have "count (mset (live_boxes wk)) a = (if a \<in> set (live_boxes wk) then 1 else 0)" for a
    by (metis One_nat_def count_eq_zero_iff le_antisym less_Suc0 not_less set_mset_mset not_gr_zero less_eq_Suc_le)
  then have "distinct (live_boxes wk)" by (subst distinct_count_atmost_1) auto
  moreover have "0 \<notin># mset (live_boxes wk)" using addrs unfolding live_boxes_mset addrs_ok_def by simp
  ultimately show ?thesis using inv by (simp add: winv_def ac_simps)
qed

theorem operations_on_the_wire_own_their_box_witness:
  "\<not> wk_fault (sv_worker sample_parked) \<and> distinct (live_boxes (sv_worker sample_parked))
   \<and> 1 \<in> set (live_boxes (sv_worker sample_parked))"
  using operations_on_the_wire_own_their_box [OF loopback_environment sample_parked_reachable]
  by (simp add: live_boxes_def sample_box_def)

section \<open>Accounting\<close>

text \<open>
  C13. \<open>outstanding\<close> counts exactly the transfers submitted and not finished: those in the channel
  and those in a box that is not waiting for its checksum. The count of each client is exact too,
  and a client waits for its removal only while it has an operation in progress.
\<close>

theorem outstanding_is_exact:
  assumes "environment_ok C tag" "reachable service_init (service_step C) s"
  defines "wk \<equiv> sv_worker s"
  defines "ops \<equiv> map snd (wk_boxes wk) @ map (snd \<circ> q_inflight) (wk_quiescing wk)"
  shows "outstanding s = length (transfers (sv_channel s)) + length ops
    \<and> count_of (wk_by_client wk) c = length (filter (\<lambda>op. if_client_id op = c) ops)
    \<and> set (wk_pending_removal wk) \<subseteq> if_client_id ` set ops"
proof -
  note inv = service_facts [OF assms(1,2), folded wk_def]
  have ch: "charged wk {#} = mset (map if_client_id ops)"
    by (simp add: charged_def ops_def image_mset.compositionality comp_def)
  have "count (mset (map if_client_id ops)) c = length (filter (\<lambda>op. if_client_id op = c) ops)"
    for ops :: "'a in_flight list" by (induction ops) auto
  then show ?thesis
    using inv unfolding winv_def ch by (simp add: outstanding_def wk_def image_comp)
qed

theorem outstanding_is_exact_witness:
  "outstanding sample_parked = length (wk_boxes (sv_worker sample_parked))
     + length (wk_quiescing (sv_worker sample_parked))"
  using outstanding_is_exact [OF loopback_environment sample_parked_reachable] by simp

text \<open>
  C16. When the worker sleeps or has left and no message and no checksum job is left, every
  submitted context has come back through \<open>complete_batch\<close>, once, and nothing is outstanding.
\<close>

theorem stopped_worker_has_delivered_everything:
  assumes "environment_ok C tag" "reachable service_init (service_step C) s"
    and "halted (sv_mode s)" "sv_channel s = []" "concat (wk_jobs (sv_worker s)) = []"
  shows "mset (map (\<lambda>c. tag (cm_caller_context c)) (concat (wk_batches (sv_worker s))))
      = mset (map tag (sv_submitted s)) \<and> outstanding s = 0"
proof -
  let ?wk = "sv_worker s"
  note P = sinv_parts [OF reachable_sinv [OF assms(1,2)]]
  have quiet: "quiet ?wk" using P(5) assms(3) by simp
  then have idle: "idle ?wk" by (simp add: quiet_def)
  have inv: "winv tag {#} {#} {#} 0 (length (transfers (sv_channel s))) (tags tag ?wk {#}) ?wk"
    using P(1) assms(3) by (cases "sv_mode s") simp_all
  note boxes = idle_boxes [OF inv idle]
  have "all_boxes ?wk {#} = {#}"
    using boxes quiet assms(5) by (simp add: all_boxes_def quiet_def idle_def)
  then show ?thesis
    using P(2) boxes quiet assms(4) by (simp add: waiting_def tags_def quiet_def outstanding_def comp_def)
qed

definition sample_done :: "vec_u8 service" where
  "sample_done = run_job (loopback_config True) 0 sample_parked"

lemma sample_done_reachable: "reachable service_init (service_step (loopback_config True)) sample_done"
  unfolding sample_done_def by (rule reach_step [OF sample_parked_reachable step_job]) simp

theorem stopped_worker_has_delivered_everything_witness:
  "length (concat (wk_batches (sv_worker sample_done))) = length (sv_submitted sample_done)
   \<and> outstanding sample_done = 0"
proof -
  have "halted (sv_mode sample_done)" "sv_channel sample_done = []"
    "concat (wk_jobs (sv_worker sample_done)) = []"
    by (simp_all add: sample_done_def run_job_def run_crc_job_def split_def Let_def)
  note all = stopped_worker_has_delivered_everything [OF loopback_environment sample_done_reachable this]
  show ?thesis using arg_cong [OF conjunct1 [OF all], of size] all by simp
qed

text \<open>
  C27. Nobody blocks on a reply that will not come: every slot handed to the worker is answered or
  its message still in the channel, never both, and after the worker has left every slot is
  answered.
\<close>

theorem every_reply_is_answered:
  assumes "environment_ok C tag" "reachable service_init (service_step C) s" "slot < sv_next_reply s"
  shows "((\<exists>answer. map_of (wk_replies (sv_worker s)) slot = Some answer)
      \<longleftrightarrow> slot \<notin> set (reply_slots (sv_channel s)))
    \<and> (sv_mode s = Gone \<longrightarrow> add_peer_wait slot s = map_of (wk_replies (sv_worker s)) slot
        \<and> slot \<notin> set (reply_slots (sv_channel s)))"
proof -
  note P = sinv_parts [OF reachable_sinv [OF assms(1,2)]]
  let ?done = "map fst (wk_replies (sv_worker s))" and ?left = "reply_slots (sv_channel s)"
  have "distinct (?done @ ?left)" "set (?done @ ?left) = {0..<sv_next_reply s}"
    unfolding P(3) by simp_all
  then have xor: "slot \<in> set ?done \<longleftrightarrow> slot \<notin> set ?left" using assms(3) by auto
  have ans: "slot \<in> set ?done \<longleftrightarrow> (\<exists>answer. map_of (wk_replies (sv_worker s)) slot = Some answer)"
    by (metis map_of_eq_None_iff not_None_eq set_map)
  have "sv_mode s = Gone \<Longrightarrow> ?left = []" using P(4) by simp
  then show ?thesis
    using xor ans by (auto simp: add_peer_wait_def await_reply_def split: option.splits)
qed

definition sample_peer :: "vec_u8 service" where
  "sample_peer = snd (add_peer 9 [3, 4] (service_new loopback_endpoint empty_world))"

theorem every_reply_is_answered_witness:
  "map_of (wk_replies (sv_worker sample_peer)) 0 = None \<and> 0 \<in> set (reply_slots (sv_channel sample_peer))"
proof -
  let ?s = "service_new loopback_endpoint empty_world :: vec_u8 service"
  have "service_step (loopback_config True) ?s sample_peer"
    unfolding sample_peer_def
    by (rule step_add_peer [of 9 "[3, 4]" _ "fst (add_peer 9 [3, 4] ?s)"]) simp
  then have r: "reachable service_init (service_step (loopback_config True)) sample_peer"
    using reach_init [of service_init, OF service_new_init] by (blast intro: reach_step)
  have "0 < sv_next_reply sample_peer" "wk_replies (sv_worker sample_peer) = []"
    by (simp_all add: sample_peer_def add_peer_def request_reply_def send_message_def service_new_def
      worker_new_def Let_def)
  then show ?thesis using every_reply_is_answered [OF loopback_environment r] by simp
qed

section \<open>Leaving\<close>

text \<open>
  C23. A worker that has left leaves nothing behind but the checksum jobs it gave to the pool: no
  message, no operation, no undelivered completion, nothing on the wire, and every entry it put
  into the address vector has been removed again.
\<close>

theorem worker_leaves_nothing_behind:
  assumes "environment_ok C tag" "reachable service_init (service_step C) s" "sv_mode s = Gone"
  defines "wk \<equiv> sv_worker s"
  shows "sv_channel s = [] \<and> wk_boxes wk = [] \<and> wk_pending wk = [] \<and> wk_quiescing wk = []
    \<and> wk_crc_pending wk = [] \<and> wk_completions wk = [] \<and> wire (w_log (wk_world wk)) = []
    \<and> av_inserted (w_log (wk_world wk)) = av_removed (w_log (wk_world wk)) \<and> outstanding s = 0"
proof -
  note P = sinv_parts [OF reachable_sinv [OF assms(1,2)], folded wk_def]
  have quiet: "quiet wk" using P(5) assms(3) by simp
  then have idle: "idle wk" by (simp add: quiet_def)
  have inv: "winv tag {#} {#} {#} 0 (length (transfers (sv_channel s))) (tags tag wk {#}) wk"
    using P(1) assms(3) by simp
  note boxes = idle_boxes [OF inv idle]
  have "av_accounted (ep_peers (wk_endpoint wk)) (wk_world wk)"
    using winv_endpoint [OF P(1)] by (simp add: endpoint_ok_def peers_ok_def)
  then show ?thesis
    using P(4,6) boxes quiet assms(3)
    by (simp add: quiet_def idle_def av_accounted_def outstanding_def wk_def)
qed

definition shut_down :: "vec_u8 service \<Rightarrow> vec_u8 service" where
  "shut_down s = run_shutdown (loopback_config True) (run_recv (loopback_config True) (service_drop s))"

lemma shut_down_reachable:
  assumes "reachable service_init (service_step (loopback_config True)) s"
    and "sv_mode s = Parked" "sv_channel s = []"
  shows "reachable service_init (service_step (loopback_config True)) (shut_down s)
    \<and> sv_mode (shut_down s) = Gone"
proof -
  let ?C = "loopback_config True" and ?d = "service_drop s"
  have d: "reachable service_init (service_step ?C) ?d" "sv_mode ?d = Parked" "sv_channel ?d = []"
    using reach_step [OF assms(1) step_drop] assms(2,3) by (simp_all add: service_drop_def)
  have r: "reachable service_init (service_step ?C) (run_recv ?C ?d)" "sv_mode (run_recv ?C ?d) = Leaving"
    using reach_step [OF d(1) step_turn] d assms(3)
    by (simp_all add: worker_turn_def run_recv_def service_drop_def)
  show ?thesis
    using reach_step [OF r(1) step_turn] r by (simp add: worker_turn_def shut_down_def run_shutdown_def)
qed

theorem worker_leaves_nothing_behind_witness:
  "wk_pending (sv_worker (shut_down sample_parked)) = [] \<and> outstanding (shut_down sample_parked) = 0
   \<and> av_inserted (w_log (wk_world (sv_worker (shut_down sample_parked))))
     = av_removed (w_log (wk_world (sv_worker (shut_down sample_parked))))"
proof -
  note gone = shut_down_reachable [OF sample_parked_reachable]
  show ?thesis
    using worker_leaves_nothing_behind [OF loopback_environment [of True]] gone by simp
qed

text \<open>The worker of the parked service is told to leave before a thread of the pool ran the job.\<close>

definition shut_early :: "vec_u8 service" where
  "shut_early = shut_down sample_parked"

definition region_events :: "'c service \<Rightarrow> call list" where
  "region_events s = rev (filter is_mr (w_log (wk_world (sv_worker s))))"

definition shut_summary ::
  "'c service \<Rightarrow> 'c list \<times> 'c reaped_op list list \<times> usize \<times> domain_regions list \<times> fid_mr option \<times> call list"
where
  "shut_summary s = (sv_submitted s, wk_jobs (sv_worker s), ep_domain (wk_endpoint (sv_worker s)),
     w_registry (wk_world (sv_worker s)), arc_value (w_regs (wk_world (sv_worker s))) 1, region_events s)"

lemma shut_early_state:
  "shut_summary shut_early = ([\<lparr>vec_pointer = 8192, vec_bytes = [10, 20, 30]\<rparr>], [[(sample_box, Inr ())]], 1, [],
     Some 5, [MrReg 1 8192 3 0 1, MrReg 1 64 1 0 5, MrClose 1])"
  "region_events (run_job (loopback_config True) 0 shut_early)
     = [MrReg 1 8192 3 0 1, MrReg 1 64 1 0 5, MrClose 1, MrClose 5]"
  by code_simp+

text \<open>
  C36. The checksum jobs are the exception that matters to the domain: \<open>Drop\<close> of the endpoint closes
  the domain right after \<open>clear\<close>, on the ground that no operation holds a lease any more, but a
  job still in the pool does. In the run below one write with a checksum was submitted, and nothing
  else. The worker has left and dropped its endpoint, and no region of any domain is cached any more.
  But the write's job waits in the pool; the region its box leases was registered on the endpoint's
  own domain, for the landing byte of the quiesce read, and is not closed. It is closed only when a
  thread of the pool runs the job.
\<close>

theorem regions_of_pool_jobs_outlive_the_endpoint:
  "\<exists>s box i mr. reachable service_init (service_step (loopback_config True)) s
     \<and> sv_submitted s = [tr_caller_context (sample_request True)]
     \<and> sv_mode s = Gone \<and> w_registry (wk_world (sv_worker s)) = []
     \<and> wk_jobs (sv_worker s) = [[(box, Inr ())]] \<and> if_local_lease (snd box) = Some i
     \<and> arc_value (w_regs (wk_world (sv_worker s))) i = Some mr
     \<and> MrReg (ep_domain (wk_endpoint (sv_worker s))) (cf_landing (loopback_config True)) 1 0 mr
         \<in> set (w_log (wk_world (sv_worker s)))
     \<and> MrClose mr \<notin> set (w_log (wk_world (sv_worker s)))
     \<and> MrClose mr \<in> set (w_log (wk_world (sv_worker (run_job (loopback_config True) 0 s))))"
proof -
  have gone: "reachable service_init (service_step (loopback_config True)) shut_early" "sv_mode shut_early = Gone"
    using shut_down_reachable [OF sample_parked_reachable] by (simp_all add: shut_early_def)
  have events: "c \<in> set (w_log (wk_world (sv_worker s))) \<longleftrightarrow> c \<in> set (region_events s)" if "is_mr c" for c and s :: "vec_u8 service"
    using that by (simp add: region_events_def)
  note st = shut_early_state(1) [unfolded shut_summary_def prod.inject]
  show ?thesis
    by (rule exI [of _ shut_early], rule exI [of _ sample_box], rule exI [of _ 1], rule exI [of _ 5])
      (use gone st shut_early_state(2) in
        \<open>simp add: events sample_request_def loopback_config_def; simp add: sample_box_def\<close>)
qed

text \<open>
  The worker leaves only when told to: \<open>submit\<close> refuses a request only after the service was
  dropped, and a request it takes is appended to the channel and counted.
\<close>

theorem submit_takes_every_request:
  assumes "environment_ok C tag" "reachable service_init (service_step C) s" "sv_sender s"
  shows "sv_mode s \<notin> {Leaving, Gone} \<and> (\<exists>s'. submit request s = (Inr (), s')
    \<and> sv_channel s' = sv_channel s @ [TransferMsg request] \<and> outstanding s' = Suc (outstanding s))"
proof -
  have "sv_mode s \<noteq> Gone" "sv_mode s \<noteq> Leaving"
    using sinv_parts(4) [OF reachable_sinv [OF assms(1,2)]] assms(3) by auto
  then show ?thesis
    using assms(3) by (cases "sv_mode s") (simp_all add: submit_def send_message_def add_outstanding_def outstanding_def)
qed

theorem submit_takes_every_request_witness:
  "\<exists>s'. submit (sample_request False) sample_parked = (Inr (), s') \<and> outstanding s' = Suc (outstanding sample_parked)"
  using submit_takes_every_request [OF loopback_environment sample_parked_reachable, of "sample_request False"]
  by auto

end
