(* ===== verification/Wire_Leases.thy ===== *)
theory Wire_Leases
  imports Service_Properties
begin

text \<open>
  The memory libfabric works on. A posted operation reads or writes its buffer until its completion
  is reaped; all that time the region the fabric was given for it must stay registered. The
  invariant ties each context on the wire to the message that posted it, to the lease in its box
  and to the region behind the lease; it is kept by every step of the service.
\<close>

section \<open>Steps that post nothing\<close>

fun quiet_call :: "call \<Rightarrow> bool" where
  "quiet_call (WriteMsg r code) = (code \<noteq> 0)"
| "quiet_call (ReadMsg r code) = (code \<noteq> 0)"
| "quiet_call _ = True"

text \<open>Registrations keep their value as long as they live, and their names are never used again.\<close>

definition reg_ext :: "world \<Rightarrow> world \<Rightarrow> bool" where
  "reg_ext w w' \<longleftrightarrow> next_arc (w_regs w) \<le> next_arc (w_regs w')
     \<and> (\<forall>i v. i < next_arc (w_regs w) \<and> arc_value (w_regs w') i = Some v \<longrightarrow> arc_value (w_regs w) i = Some v)"

definition world_quiet :: "world \<Rightarrow> world \<Rightarrow> bool" where
  "world_quiet w w' \<longleftrightarrow> reg_ext w w' \<and> log_ext quiet_call w w'"

lemma reg_ext_refl [simp, intro]: "reg_ext w w"
  by (simp add: reg_ext_def)

lemma reg_ext_trans: "reg_ext w1 w2 \<Longrightarrow> reg_ext w2 w3 \<Longrightarrow> reg_ext w1 w3"
  by (auto simp: reg_ext_def)

lemma world_quiet_refl [simp, intro]: "world_quiet w w"
  by (simp add: world_quiet_def)

lemma world_quiet_trans: "world_quiet w1 w2 \<Longrightarrow> world_quiet w2 w3 \<Longrightarrow> world_quiet w1 w3"
  by (auto simp: world_quiet_def intro: reg_ext_trans log_ext_trans)

lemma log_ext_mono: "log_ext P w w' \<Longrightarrow> (\<And>c. P c \<Longrightarrow> Q c) \<Longrightarrow> log_ext Q w w'"
  by (auto simp: log_ext_def intro: list.pred_mono_strong)

lemma quiet_mr: "is_mr c \<Longrightarrow> quiet_call c" and quiet_av: "is_av c \<Longrightarrow> quiet_call c"
  by (cases c; simp)+

lemma world_quiet_mr: "log_ext is_mr w w' \<Longrightarrow> reg_ext w w' \<Longrightarrow> world_quiet w w'"
  by (simp add: world_quiet_def log_ext_mono [of is_mr w w' quiet_call] quiet_mr)

lemma world_quiet_av: "av_ext w w' \<Longrightarrow> world_quiet w w'"
  by (simp add: world_quiet_def av_ext_def reg_ext_def log_ext_mono [of is_av w w' quiet_call] quiet_av)

lemma reg_ext_call [simp]: "reg_ext w (log_call c w') = reg_ext w w'"
  by (simp add: reg_ext_def)

lemma reg_ext_registry [simp]: "reg_ext w (w'\<lparr>w_registry := g\<rparr>) = reg_ext w w'"
  by (simp add: reg_ext_def)

lemma world_quiet_call: "quiet_call c \<Longrightarrow> world_quiet w (log_call c w)"
  by (simp add: world_quiet_def log_ext_call)

subsection \<open>The operations of the region cache\<close>

lemma arc_value_same [simp]: "arc_value (arc_clone i h) j = arc_value h j" "next_arc (arc_clone i h) = next_arc h"
  by (auto simp: arc_value_def arc_clone_def update_conv' split: option.splits)

lemma next_arc_dropped [simp]: "next_arc (snd (arc_drop i h)) = next_arc h"
  by (simp add: arc_drop_def split: option.splits)

lemma next_arc_grown [simp]: "next_arc (snd (arc_new v h)) = Suc (next_arc h)"
  by (simp add: arc_new_def)

lemma reg_ext_clone: "reg_ext w (registration_clone i w)"
  by (simp add: reg_ext_def registration_clone_def)

lemma reg_ext_drop: "reg_ext w (registration_drop i w)"
  by (auto simp: reg_ext_def dest: arc_value_drop)

lemma reg_ext_drop_all: "reg_ext w (registration_drop_all is w)"
  by (induction "is" arbitrary: w) (auto simp: registration_drop_all_def intro: reg_ext_trans reg_ext_drop)

lemma reg_ext_new: "reg_ext w (snd (registration_new mr w))"
  by (auto simp: reg_ext_def registration_new_def Let_def split_def arc_value_new)

lemma reg_ext_track: "reg_ext w (track base end domain i w)"
proof -
  have "reg_ext w (snd (track_locked base end domain i w))"
    using reg_ext_clone [of w i] by (simp add: track_locked_def Let_def)
  then show ?thesis
    using reg_ext_trans [OF _ reg_ext_drop] by (auto simp: track_def split: prod.splits option.splits)
qed

lemma reg_ext_register: "reg_ext w (snd (register_region F d p l w))"
  by (simp add: register_region_def Let_def split_def)

lemma reg_ext_widened: "reg_ext w (snd (widened_register F d span p len e w))"
  using reg_ext_register reg_ext_trans [OF reg_ext_register reg_ext_register]
  by (auto simp: widened_register_def Let_def split: sum.splits prod.splits) (metis snd_conv)+

lemma reg_ext_operand:
  assumes "operand_of F d p len c w = (res, w')"
  shows "reg_ext w w'"
proof (cases "checked_add p len")
  case None
  then show ?thesis using assms by (auto simp: operand_of_def)
next
  case (Some e)
  obtain found w1 where cov: "covering p e d w = (found, w1)" by (cases "covering p e d w")
  have log1: "reg_ext w w1" using cov reg_ext_clone by (auto simp: covering_def split: option.splits)
  have wide: "reg_ext w (snd (widened_register F d span p len e w1))" for span
    by (rule reg_ext_trans [OF log1 reg_ext_widened])
  have new: "reg_ext w (snd (registration_new mr (snd (widened_register F d span p len e w1))))" for span mr
    by (rule reg_ext_trans [OF wide reg_ext_new])
  have "reg_ext w (track b l d i (snd (registration_new mr (snd (widened_register F d span p len e w1)))))"
    for span mr b l i by (rule reg_ext_trans [OF new reg_ext_track])
  then have "reg_ext w (snd (operand_of F d p len c w))"
    using Some cov log1 wide new
    by (auto simp: operand_of_def Let_def split_def split: option.splits sum.splits if_splits)
  then show ?thesis using assms by simp
qed

lemma reg_ext_pin: "reg_ext w (snd (pin F d base len w))"
proof -
  obtain r w1 where reg: "register_region F d base len w = (r, w1)" by (cases "register_region F d base len w")
  have first: "reg_ext w w1" using reg_ext_register [of w F d base len] reg by simp
  then have "reg_ext w (registration_drop i (track base e d i (snd (registration_new mr w1))))" for e i mr
    by (rule reg_ext_trans [OF reg_ext_trans [OF reg_ext_trans [OF _ reg_ext_new] reg_ext_track] reg_ext_drop])
  then show ?thesis
    using reg first by (auto simp: pin_def Let_def split_def split: option.splits sum.splits)
qed

lemma reg_ext_invalidate: "reg_ext w (invalidate start end w)"
  using reg_ext_drop_all [of "snd (invalidate_locked start end w)" "fst (invalidate_locked start end w)"]
  by (simp add: invalidate_def invalidate_locked_def Let_def split_def reg_ext_def)

lemmas world_quiet_ops =
  world_quiet_mr [OF log_ext_registration_drop reg_ext_drop]
  world_quiet_mr [OF log_ext_pin reg_ext_pin]
  world_quiet_mr [OF log_ext_operand reg_ext_operand]
  world_quiet_mr [OF log_ext_invalidate reg_ext_invalidate]


subsection \<open>The operations of the endpoint and the worker\<close>

definition quiet_step :: "'c worker \<Rightarrow> 'c worker \<Rightarrow> bool" where
  "quiet_step wk wk' \<longleftrightarrow> ep_domain (wk_endpoint wk') = ep_domain (wk_endpoint wk)
     \<and> ep_requires_local_mr (wk_endpoint wk') = ep_requires_local_mr (wk_endpoint wk)
     \<and> world_quiet (wk_world wk) (wk_world wk') \<and> set (wk_boxes wk') \<subseteq> set (wk_boxes wk)"

lemma quiet_step_refl [simp, intro]: "quiet_step wk wk"
  by (simp add: quiet_step_def)

lemma quiet_step_trans: "quiet_step wk1 wk2 \<Longrightarrow> quiet_step wk2 wk3 \<Longrightarrow> quiet_step wk1 wk3"
  by (auto simp: quiet_step_def intro: world_quiet_trans)

lemma quiet_drop_lease: "world_quiet w (drop_lease lease w)"
  by (simp add: drop_lease_def world_quiet_ops split: option.split)

lemma quiet_insert_peer:
  "insert_peer F c address ep w = (r, ep', w') \<Longrightarrow>
     world_quiet w w' \<and> ep_domain ep' = ep_domain ep \<and> ep_requires_local_mr ep' = ep_requires_local_mr ep"
  by (auto simp: insert_peer_def Let_def intro: world_quiet_av dest: av_ext_handle split: prod.splits)

lemma quiet_drop_peer:
  "drop_peer i ep w = (ep', w') \<Longrightarrow>
     world_quiet w w' \<and> ep_domain ep' = ep_domain ep \<and> ep_requires_local_mr ep' = ep_requires_local_mr ep"
  using world_quiet_av [OF av_ext_drop [of w i "ep_peers ep"]]
  by (auto simp: drop_peer_def Let_def split: prod.splits)

lemma quiet_release_peer:
  "release_peer c ep w = (ep', w') \<Longrightarrow>
     world_quiet w w' \<and> ep_domain ep' = ep_domain ep \<and> ep_requires_local_mr ep' = ep_requires_local_mr ep"
  using world_quiet_av [OF av_ext_by_client_remove [of w c "ep_peers ep"]]
  by (auto simp: release_peer_def release_def Let_def split: prod.splits)

lemma quiet_pin_region: "world_quiet w (snd (pin_region F base len ep w))"
  by (simp add: pin_region_def world_quiet_ops)

lemma quiet_local_operand: "local_operand_of F p len c ep w = (r, w') \<Longrightarrow> world_quiet w w'"
  by (auto simp: local_operand_of_def intro: world_quiet_ops split: if_splits)

lemma quiet_stall_clock: "stall_clock F since w = (s, d, w') \<Longrightarrow> world_quiet w w'"
  using world_quiet_trans [OF world_quiet_call world_quiet_call]
  by (auto simp: stall_clock_def clock_now_def Let_def intro: world_quiet_call split: option.splits)

lemma quiet_reap: "reap F limit out w = (fin, out', w') \<Longrightarrow> world_quiet w w'"
proof (induction F limit out w arbitrary: fin out' w' rule: reap.induct)
  case (1 F limit out w)
  let ?want = "min BATCH (limit - length out)"
  obtain n cs where q: "fi_cq_read F (w_log w) ?want = (n, cs)" by (cases "fi_cq_read F (w_log w) ?want")
  let ?w1 = "log_call (CqRead ?want n cs) w"
  have w1: "world_quiet w ?w1" by (rule world_quiet_call) simp
  have w2: "world_quiet ?w1 (snd (read_error F ?w1))"
    by (auto simp: read_error_def Let_def intro: world_quiet_call split: prod.splits)
  show ?case
  proof (cases "length out < limit")
    case False
    then show ?thesis using "1.prems" by (simp add: reap.simps)
  next
    case more: True
    note unfolded = "1.prems" [unfolded reap.simps [of F limit out w] Let_def q prod.case, simplified more if_True]
    show ?thesis
    proof (cases "0 < n")
      case pos: True
      show ?thesis
      proof (cases "\<not> int BATCH < n \<and> fst (push_entries (read_entries n cs) out) = None")
        case False
        then have "w' = ?w1"
          using unfolded pos by (auto split: if_splits prod.splits option.splits)
        then show ?thesis using w1 by simp
      next
        case True
        then obtain out2 where push: "(None, out2) = push_entries (read_entries n cs) out"
          by (cases "push_entries (read_entries n cs) out") simp
        have "reap F limit out2 ?w1 = (fin, out', w')"
          using unfolded pos True push [symmetric] by simp
        from "1.IH"(1) [OF more refl refl q [symmetric] refl pos _ push refl this] True w1
        show ?thesis by (simp add: world_quiet_trans [OF w1])
      qed
    next
      case none: False
      obtain r w3 where err: "read_error F ?w1 = (r, w3)" by (cases "read_error F ?w1")
      have w3: "world_quiet w w3" using world_quiet_trans [OF w1 w2] err by simp
      show ?thesis
      proof (cases "n \<noteq> - FI_EAGAIN F \<and> n = - FI_EAVAIL F \<and> (\<exists>a res. r = Inr (a, res) \<and> a \<noteq> 0)")
        case False
        then have "w' = ?w1 \<or> w' = w3"
          using unfolded none err
          by (auto simp: non_null_context_def split: if_splits prod.splits sum.splits)
        then show ?thesis using w1 w3 by auto
      next
        case True
        then obtain a res where r: "r = Inr (a, res)" "non_null_context a = Inr a"
          by (auto simp: non_null_context_def)
        have run: "reap F limit (out @ [(a, res)]) w3 = (fin, out', w')"
          using unfolded none True err r by simp
        have "world_quiet w3 w'"
          by (rule "1.IH"(2) [OF more refl refl q [symmetric] refl none _ _ _ _ _ _ run]) (use True err r in auto)
        then show ?thesis by (rule world_quiet_trans [OF w3])
      qed
    qed
  qed
qed

lemma quiet_drained: "quiet_step wk (drained c wk)"
  using quiet_release_peer [of c "wk_endpoint wk" "wk_world wk"]
  by (cases "release_peer c (wk_endpoint wk) (wk_world wk)") (simp add: drained_def quiet_step_def Let_def)

lemma quiet_finish_op: "quiet_step wk (finish_op c wk)"
proof -
  have "quiet_step wk (drained c (release_outstanding wk))"
    by (rule quiet_step_trans [OF _ quiet_drained]) (simp add: release_outstanding_def quiet_step_def)
  then show ?thesis
    by (auto simp: finish_op_def Let_def split: option.split nat.split)
      (simp_all add: release_outstanding_def quiet_step_def)
qed

lemma quiet_completion: "into_completion F op res w = (c, w') \<Longrightarrow> world_quiet w w'"
  using quiet_drop_lease [of w "if_local_lease op"] into_completion_world [of F op res w] by simp

lemma quiet_finish_unreaped: "quiet_step wk (finish_unreaped F op e wk)"
proof -
  obtain c w where run: "into_completion F op (Inl e) (wk_world wk) = (c, w)"
    by (cases "into_completion F op (Inl e) (wk_world wk)")
  show ?thesis
    unfolding finish_unreaped_def run
    by (simp, rule quiet_step_trans [OF _ quiet_finish_op]) (use quiet_completion [OF run] in \<open>simp add: quiet_step_def\<close>)
qed

lemma quiet_reclaim: "reclaim a wk = (b, wk') \<Longrightarrow> quiet_step wk wk'"
  by (auto simp: reclaim_def quiet_step_def AList.delete_eq split: option.splits)

lemma quiet_fail_post: "quiet_step wk (fail_post C p e wk)"
proof -
  obtain b wk1 where run: "reclaim (pd_context p) wk = (b, wk1)" by (cases "reclaim (pd_context p) wk")
  show ?thesis
    using quiet_reclaim [OF run] quiet_step_trans [OF quiet_reclaim [OF run] quiet_finish_unreaped]
    by (simp add: fail_post_def run split: option.split)
qed

lemma quiet_dispatch: "quiet_step wk (dispatch C e wk)"
proof -
  obtain b wk1 where run: "reclaim (fst e) wk = (b, wk1)" by (cases "reclaim (fst e) wk")
  note one = quiet_reclaim [OF run]
  have fin: "quiet_step wk (finish_op c wk1)" for c by (rule quiet_step_trans [OF one quiet_finish_op])
  have "world_quiet (wk_world wk) (snd (into_completion (cf_fabric C) op r (wk_world (finish_op c wk1))))" for op r c
    using fin [of c] into_completion_world [of "cf_fabric C" op r "wk_world (finish_op c wk1)"]
    by (auto simp: quiet_step_def intro: world_quiet_trans quiet_drop_lease)
  then show ?thesis
    using one fin
    by (auto simp: dispatch_def run Let_def split_def quiet_step_def split: option.split sum.split)
qed

lemma quiet_handle_message:
  assumes "\<And>r. m \<noteq> TransferMsg r"
  shows "quiet_step wk (handle_message C m wk)"
proof (cases m)
  case (TransferMsg r)
  then show ?thesis using assms by simp
next
  case (AddPeer c address reply)
  obtain res ep w where ins: "insert_peer (cf_fabric C) c address (wk_endpoint wk) (wk_world wk) = (res, ep, w)"
    by (cases "insert_peer (cf_fabric C) c address (wk_endpoint wk) (wk_world wk)")
  show ?thesis
    using quiet_insert_peer [OF ins] quiet_drop_peer [of _ ep w]
    by (auto simp: handle_message_def AddPeer ins quiet_step_def Let_def intro: world_quiet_trans
        split: sum.split prod.split)
next
  case (RemovePeer c)
  then show ?thesis
    using quiet_release_peer [of c "wk_endpoint wk" "wk_world wk"]
    by (cases "release_peer c (wk_endpoint wk) (wk_world wk)")
      (auto simp: handle_message_def RemovePeer remove_or_defer_def quiet_step_def)
next
  case (Register base len reply)
  then show ?thesis
    using quiet_pin_region [of "wk_world wk" "cf_fabric C" base len "wk_endpoint wk"]
    by (auto simp: handle_message_def Register quiet_step_def split_def Let_def)
qed

lemma quiet_reap_entries: "quiet_step wk (snd (reap_entries C wk))"
  using quiet_reap by (auto simp: reap_entries_def quiet_step_def split: prod.split)

lemma quiet_deliver: "quiet_step wk (snd (deliver posted any wk))"
  by (simp add: deliver_def after_delivery_def submit_crc_batch_def quiet_step_def Let_def)

lemma quiet_complete_all: "world_quiet w (snd (complete_all F ops w))"
proof (induction ops arbitrary: w)
  case (Cons op ops)
  have "world_quiet w (snd (into_completion F o1 r w))" for o1 r by (rule quiet_completion) (rule prod.collapse [symmetric])
  then show ?case
    using world_quiet_trans [OF _ Cons.IH] by (cases op) (auto simp: split_def Let_def)
qed simp

lemma quiet_pool_job: "quiet_step wk (run_crc_job C k wk)"
  using quiet_complete_all [of "wk_world wk" "cf_fabric C" "wk_jobs wk ! k"]
  by (simp add: run_crc_job_def quiet_step_def split_def Let_def)

section \<open>Operations on the wire\<close>

text \<open>The message that last posted a context.\<close>

fun last_post :: "op_context \<Rightarrow> log \<Rightarrow> rma option" where
  "last_post a [] = None"
| "last_post a (WriteMsg r code # l) = (if code = 0 \<and> rma_context r = a then Some r else last_post a l)"
| "last_post a (ReadMsg r code # l) = (if code = 0 \<and> rma_context r = a then Some r else last_post a l)"
| "last_post a (_ # l) = last_post a l"

lemma last_post_quiet: "list_all quiet_call cs \<Longrightarrow> last_post a (cs @ l) = last_post a l"
proof (induction cs)
  case (Cons c cs)
  then show ?case by (cases c) auto
qed simp

lemma set_fold_remove1: "set (fold remove1 cs xs) \<subseteq> set xs"
  by (induction cs arbitrary: xs) (auto dest!: subsetD [OF set_remove1_subset])

lemma wire_quiet_append: "list_all quiet_call cs \<Longrightarrow> set (wire (cs @ l)) \<subseteq> set (wire l)"
proof (induction cs)
  case (Cons c cs)
  then show ?case
    using set_fold_remove1 set_remove1_subset by (cases c) (auto dest!: subsetD [OF set_fold_remove1] subsetD [OF set_remove1_subset])
qed simp

lemma world_quiet_wire:
  assumes "world_quiet w w'"
  shows "set (wire (w_log w')) \<subseteq> set (wire (w_log w))" "last_post a (w_log w') = last_post a (w_log w)"
    "set (w_log w) \<subseteq> set (w_log w')"
proof -
  obtain cs where "list_all quiet_call cs" "w_log w' = cs @ w_log w"
    using assms by (auto simp: world_quiet_def log_ext_def)
  then show "set (wire (w_log w')) \<subseteq> set (wire (w_log w))" "last_post a (w_log w') = last_post a (w_log w)"
    "set (w_log w) \<subseteq> set (w_log w')"
    using wire_quiet_append [of cs "w_log w"] by (simp_all add: last_post_quiet)
qed

text \<open>
  The message \<open>r\<close> works on memory that the operation's lease keeps registered on the endpoint's
  domain, and carries that registration's descriptor. An endpoint that requires no local
  registration hands none over.
\<close>

definition leased :: "fabric \<Rightarrow> endpoint \<Rightarrow> world \<Rightarrow> 'c in_flight \<Rightarrow> rma \<Rightarrow> bool" where
  "leased F ep w op r \<longleftrightarrow> (ep_requires_local_mr ep \<longrightarrow>
     (\<exists>i mr. if_local_lease op = Some i \<and> i < next_arc (w_regs w) \<and> arc_value (w_regs w) i = Some mr
        \<and> rma_descriptor r = fi_mr_desc F mr
        \<and> covers (w_log w) (ep_domain ep) mr (rma_buffer r) (rma_length r)))"

definition wire_leased :: "fabric \<Rightarrow> 'c worker \<Rightarrow> bool" where
  "wire_leased F wk \<longleftrightarrow> (\<forall>a \<in> set (wire (w_log (wk_world wk))). \<exists>op r.
     map_of (wk_boxes wk) a = Some op \<and> last_post a (w_log (wk_world wk)) = Some r
     \<and> leased F (wk_endpoint wk) (wk_world wk) op r)"

lemma leased_ext:
  assumes "leased F ep w op r" "reg_ext w w'" "set (w_log w) \<subseteq> set (w_log w')"
    and "ep_domain ep' = ep_domain ep" "ep_requires_local_mr ep' = ep_requires_local_mr ep"
    and "\<And>i. if_local_lease op = Some i \<Longrightarrow> \<exists>mr. arc_value (w_regs w') i = Some mr"
  shows "leased F ep' w' op r"
  using assms by (fastforce simp: leased_def reg_ext_def covers_def)

lemma winv_lease_alive:
  assumes "winv tag X B D k n T wk" "map_of (wk_boxes wk) a = Some op" "if_local_lease op = Some i"
  shows "\<exists>mr. arc_value (w_regs (wk_world wk)) i = Some mr"
proof -
  have "(a, op) \<in># all_boxes wk B" using map_of_SomeD [OF assms(2)] by (simp add: all_boxes_def)
  then have "i \<in># box_leases (all_boxes wk B)" using assms(3) by (force simp: box_leases_def)
  then show ?thesis
    using cache_ok_alive [OF endpoint_ok_cache [OF winv_endpoint [OF assms(1)]], of i] by auto
qed

lemma wire_has_box:
  assumes "winv tag X B D k n T wk" "a \<in> set (wire (w_log (wk_world wk)))"
  shows "\<exists>op. map_of (wk_boxes wk) a = Some op"
proof -
  have "a \<in># mset (map fst (wk_boxes wk))" using assms by (simp add: winv_def)
  then show ?thesis by (auto intro: weak_map_of_SomeI)
qed

lemma wire_leased_quiet:
  assumes leased: "wire_leased F wk" and step: "quiet_step wk wk'"
    and inv: "winv tag X B D k n T wk" and inv': "winv tag' X' B' D' k' n' T' wk'"
  shows "wire_leased F wk'"
  unfolding wire_leased_def
proof
  fix a assume a: "a \<in> set (wire (w_log (wk_world wk')))"
  have quiet: "world_quiet (wk_world wk) (wk_world wk')" using step by (simp add: quiet_step_def)
  note world = world_quiet_wire [OF quiet]
  obtain op r where op: "map_of (wk_boxes wk) a = Some op" "last_post a (w_log (wk_world wk)) = Some r"
    "leased F (wk_endpoint wk) (wk_world wk) op r"
    using leased subsetD [OF world(1) a] unfolding wire_leased_def by blast
  obtain op' where op': "map_of (wk_boxes wk') a = Some op'" using wire_has_box [OF inv' a] by blast
  then have "(a, op') \<in> set (wk_boxes wk)" using step map_of_SomeD by (fastforce simp: quiet_step_def)
  then have same: "op' = op" using winv_boxes_wf [OF inv] op(1) by (simp add: hm_wf_def)
  have "leased F (wk_endpoint wk') (wk_world wk') op r"
    using quiet step world(3) winv_lease_alive [OF inv' op'] same
    by (intro leased_ext [OF op(3)]) (auto simp: quiet_step_def world_quiet_def)
  then show "\<exists>op r. map_of (wk_boxes wk') a = Some op \<and> last_post a (w_log (wk_world wk')) = Some r
      \<and> leased F (wk_endpoint wk') (wk_world wk') op r"
    using op' same op(2) world(2) by auto
qed

section \<open>Steps that post\<close>

text \<open>
  A step that posts the context \<open>a\<close> with the message \<open>r\<close>: in between nothing but quiet calls, at the
  time of the post the operand was leased, and afterwards the box holds that lease.
\<close>

definition posts :: "fabric \<Rightarrow> op_context \<Rightarrow> 'c in_flight \<Rightarrow> rma \<Rightarrow> 'c worker \<Rightarrow> 'c worker \<Rightarrow> bool" where
  "posts F a op r wk wk' \<longleftrightarrow> ep_domain (wk_endpoint wk') = ep_domain (wk_endpoint wk)
     \<and> ep_requires_local_mr (wk_endpoint wk') = ep_requires_local_mr (wk_endpoint wk)
     \<and> rma_context r = a \<and> map_of (wk_boxes wk') a = Some op
     \<and> (\<forall>b. b \<noteq> a \<longrightarrow> map_of (wk_boxes wk') b = map_of (wk_boxes wk) b)
     \<and> (\<exists>w1 w2 c. world_quiet (wk_world wk) w1 \<and> leased F (wk_endpoint wk) w1 op r \<and> world_quiet w1 w2
          \<and> c \<in> {WriteMsg r 0, ReadMsg r 0} \<and> world_quiet (log_call c w2) (wk_world wk'))"

lemma wire_leased_posts:
  assumes leased: "wire_leased F wk" and step: "posts F a op r wk wk'"
    and inv': "winv tag' X' B' D' k' n' T' wk'"
  shows "wire_leased F wk'"
  unfolding wire_leased_def
proof
  fix b assume b: "b \<in> set (wire (w_log (wk_world wk')))"
  obtain w1 w2 c where w: "world_quiet (wk_world wk) w1" "leased F (wk_endpoint wk) w1 op r" "world_quiet w1 w2"
      "c \<in> {WriteMsg r 0, ReadMsg r 0}" "world_quiet (log_call c w2) (wk_world wk')"
    and post: "rma_context r = a" "map_of (wk_boxes wk') a = Some op"
      "\<And>b. b \<noteq> a \<Longrightarrow> map_of (wk_boxes wk') b = map_of (wk_boxes wk) b"
    and ep: "ep_domain (wk_endpoint wk') = ep_domain (wk_endpoint wk)"
      "ep_requires_local_mr (wk_endpoint wk') = ep_requires_local_mr (wk_endpoint wk)"
    using step by (auto simp: posts_def)
  note ext1 = world_quiet_wire [OF w(1)] and ext2 = world_quiet_wire [OF w(3)] and ext3 = world_quiet_wire [OF w(5)]
  have reg3: "reg_ext w2 (wk_world wk')" using w(5) by (simp add: world_quiet_def reg_ext_def)
  have reg: "reg_ext w1 (wk_world wk')" "reg_ext (wk_world wk) (wk_world wk')"
    using w(1,3) reg3 by (auto simp: world_quiet_def intro: reg_ext_trans)
  have log: "set (w_log w1) \<subseteq> set (w_log (wk_world wk'))" "set (w_log (wk_world wk)) \<subseteq> set (w_log (wk_world wk'))"
    using ext1(3) ext2(3) ext3(3) by (auto simp: log_call_def)
  have last: "last_post b (w_log (wk_world wk')) = (if b = a then Some r else last_post b (w_log (wk_world wk)))"
    using ext1(2) ext2(2) ext3(2) [of b] w(4) post(1) by (auto simp: log_call_def)
  show "\<exists>op r. map_of (wk_boxes wk') b = Some op \<and> last_post b (w_log (wk_world wk')) = Some r
      \<and> leased F (wk_endpoint wk') (wk_world wk') op r"
  proof (cases "b = a")
    case True
    have "leased F (wk_endpoint wk') (wk_world wk') op r"
      by (rule leased_ext [OF w(2) reg(1) log(1) ep]) (rule winv_lease_alive [OF inv' post(2)])
    then show ?thesis using True post(2) last by auto
  next
    case False
    moreover have "b \<in> set (wire (w_log w2)) \<or> b = a"
      using subsetD [OF ext3(1) b] w(4) post(1) by (auto simp: log_call_def)
    ultimately have "b \<in> set (wire (w_log (wk_world wk)))"
      using subsetD [OF ext2(1)] subsetD [OF ext1(1)] by blast
    then obtain op' r' where old: "map_of (wk_boxes wk) b = Some op'" "last_post b (w_log (wk_world wk)) = Some r'"
        "leased F (wk_endpoint wk) (wk_world wk) op' r'"
      using leased unfolding wire_leased_def by blast
    have box: "map_of (wk_boxes wk') b = Some op'" using old(1) post(3) [OF False] by simp
    have "leased F (wk_endpoint wk') (wk_world wk') op' r'"
      by (rule leased_ext [OF old(3) reg(2) log(2) ep]) (rule winv_lease_alive [OF inv' box])
    then show ?thesis using box old(2) last False by auto
  qed
qed

text \<open>Resolving an operand answers a lease that covers it.\<close>

lemma local_operand_leased:
  assumes "cache_ok L w" "local_operand_of F p len c ep w = (Inr lo, w')"
    and "if_local_lease op = lo_lease lo" "rma_descriptor r = lo_descriptor lo" "rma_buffer r = p" "rma_length r = len"
  shows "leased F ep w' op r"
proof (cases "ep_requires_local_mr ep")
  case False
  then show ?thesis by (simp add: leased_def)
next
  case True
  then have "operand_of F (ep_domain ep) p len c w = (Inr lo, w')" using assms(2) by (simp add: local_operand_of_def)
  from operand_of_ok [OF assms(1) this]
  obtain i mr where i: "lo_lease lo = Some i" "cache_ok (add_mset i L) w'" "arc_value (w_regs w') i = Some mr"
    "lo_descriptor lo = fi_mr_desc F mr" "covers (w_log w') (ep_domain ep) mr p len" by auto
  have "i < next_arc (w_regs w')"
    using arcs_wf_lookup [OF cache_inv_arcs [OF cache_ok_inv [OF i(2)]], of i] i(3) by (auto simp: arc_value_def)
  then show ?thesis using i assms(3-6) by (simp add: leased_def)
qed

lemma post_cases:
  assumes inv: "winv tag X B D k n T wk" and run: "post C p wk = (res, p', wk')"
  shows "if res = Inr 0 then \<exists>op r. posts (cf_fabric C) (pd_context p) op r wk wk' else quiet_step wk wk'"
proof -
  let ?F = "cf_fabric C" and ?a = "pd_context p"
  obtain res1 ep w where ins:
    "insert_peer ?F (pd_client_id p) (pd_peer_address p) (wk_endpoint wk) (wk_world wk) = (res1, ep, w)"
    by (cases "insert_peer ?F (pd_client_id p) (pd_peer_address p) (wk_endpoint wk) (wk_world wk)")
  note quiet1 = quiet_insert_peer [OF ins]
  show ?thesis
  proof (cases res1)
    case (Inl e)
    then show ?thesis using run ins quiet1 by (auto simp: post_def quiet_step_def)
  next
    case peer: (Inr peer)
    show ?thesis
    proof (cases "map_of (wk_boxes wk) ?a")
      case None
      then show ?thesis using run ins peer by (auto simp: post_def quiet_step_def)
    next
      case op: (Some op)
      let ?span = "\<lambda>l. op_cacheable_span (cf_operands C) l (if_caller_context op)"
      obtain lr w1 where lo: "local_operand_of ?F (pd_pointer p) (pd_length p) ?span ep w = (lr, w1)"
        by (cases "local_operand_of ?F (pd_pointer p) (pd_length p) ?span ep w")
      have w1: "world_quiet (wk_world wk) w1" using quiet1 quiet_local_operand [OF lo] by (auto intro: world_quiet_trans)
      have ok: "cache_ok (box_leases (all_boxes wk B)) w"
        using insert_peer_ok [OF winv_endpoint [OF inv] ins] peer by (simp add: endpoint_holding_def)
      show ?thesis
      proof (cases lr)
        case (Inl e)
        then show ?thesis
          using run ins peer op lo quiet1 quiet_drop_peer [of peer ep w1] w1
          by (auto simp: post_def quiet_step_def Let_def intro: world_quiet_trans split: prod.splits)
      next
        case (Inr lop)
        let ?conn = "connection_to ep peer (pd_remote_key p) (pd_remote_address p)"
        let ?r = "\<lparr>rma_peer = cn_peer ?conn, rma_buffer = pd_pointer p, rma_length = pd_length p,
          rma_descriptor = lo_descriptor lop, rma_remote_address = cn_remote_address ?conn,
          rma_remote_key = cn_remote_key ?conn, rma_context = ?a\<rparr>"
        obtain code c where c: "c = WriteMsg ?r code \<or> c = ReadMsg ?r code" and wr: "(case pd_direction p of
            ToPeer \<Rightarrow> post_out ?F ?conn (pd_pointer p) (pd_length p) (lo_descriptor lop) ?a w1
          | FromPeer _ \<Rightarrow> post_in ?F ?conn (pd_pointer p) (pd_length p) (lo_descriptor lop) ?a w1)
            = (code, log_call c w1)"
          by (cases "pd_direction p") (auto simp: post_out_def post_in_def Let_def)
        show ?thesis
        proof (cases "code = 0")
          case False
          have "world_quiet (wk_world wk) (log_call c w1)"
            using c False by (auto intro!: world_quiet_trans [OF w1] world_quiet_call)
          moreover note quiet_drop_peer [of peer ep "drop_lease (lo_lease lop) (log_call c w1)"]
            quiet_drop_lease [of "log_call c w1" "lo_lease lop"]
          ultimately show ?thesis
            using run ins peer op lo Inr wr False quiet1
            by (auto simp: post_def quiet_step_def Let_def intro: world_quiet_trans split: prod.splits)
        next
          case True
          let ?op = "op\<lparr>if_local_lease := lo_lease lop, if_quiesce := map_option
            (\<lambda>q. q\<lparr>qr_peer_address := pd_peer_address p\<rparr>) (if_quiesce op)\<rparr>"
          obtain ep' w3 where dr: "drop_peer peer ep (drop_lease (if_local_lease op) (log_call c w1)) = (ep', w3)"
            by (cases "drop_peer peer ep (drop_lease (if_local_lease op) (log_call c w1))")
          have "leased ?F ep w1 ?op ?r" by (rule local_operand_leased [OF ok lo [unfolded Inr]]) simp_all
          then have "leased ?F (wk_endpoint wk) w1 ?op ?r" using quiet1 by (simp add: leased_def)
          moreover have "world_quiet (log_call c w1) w3"
            using quiet_drop_peer [OF dr] quiet_drop_lease by (auto intro: world_quiet_trans)
          moreover have "c \<in> {WriteMsg ?r 0, ReadMsg ?r 0}" using c True by auto
          moreover have wk': "res = Inr 0" "wk' = wk\<lparr>wk_endpoint := ep', wk_world := w3,
              wk_boxes := AList.update ?a ?op (wk_boxes wk)\<rparr>"
            using run ins peer op lo Inr wr dr True by (auto simp: post_def)
          ultimately have "posts ?F ?a ?op ?r wk wk'"
            using quiet1 quiet_drop_peer [OF dr] w1 world_quiet_refl [of w1]
            unfolding posts_def wk'(2) by (simp add: update_conv') blast
          then show ?thesis using wk'(1) by auto
        qed
      qed
    qed
  qed
qed

lemma post_quiesce_cases:
  assumes inv: "winv tag X B D k n T wk" and run: "post_quiesce C q wk = (res, wk')"
  shows "if res = QPosted then \<exists>op r. posts (cf_fabric C) (fst (q_inflight q)) op r wk wk' else quiet_step wk wk'"
proof -
  let ?F = "cf_fabric C" and ?read = "q_read q"
  obtain a op where q: "q_inflight q = (a, op)" by (cases "q_inflight q")
  obtain res1 ep w where ins:
    "insert_peer ?F (if_client_id op) (qr_peer_address ?read) (wk_endpoint wk) (wk_world wk) = (res1, ep, w)"
    by (cases "insert_peer ?F (if_client_id op) (qr_peer_address ?read) (wk_endpoint wk) (wk_world wk)")
  note quiet1 = quiet_insert_peer [OF ins]
  show ?thesis
  proof (cases res1)
    case (Inl e)
    then show ?thesis using run ins quiet1 q by (auto simp: post_quiesce_def quiet_step_def)
  next
    case peer: (Inr peer)
    obtain lr w1 where lo: "local_operand_of ?F (cf_landing C) 1 (\<lambda>_. None) ep w = (lr, w1)"
      by (cases "local_operand_of ?F (cf_landing C) 1 (\<lambda>_. None) ep w")
    have w1: "world_quiet (wk_world wk) w1" using quiet1 quiet_local_operand [OF lo] by (auto intro: world_quiet_trans)
    have ok: "cache_ok (box_leases (all_boxes wk B)) w"
      using insert_peer_ok [OF winv_endpoint [OF inv] ins] peer by (simp add: endpoint_holding_def)
    show ?thesis
    proof (cases lr)
      case (Inl e)
      obtain ep' w2 where dr: "drop_peer peer ep w1 = (ep', w2)" by (cases "drop_peer peer ep w1")
      then show ?thesis
        using run ins peer q lo Inl quiet1 quiet_drop_peer [OF dr] w1
        by (auto simp: post_quiesce_def quiet_step_def intro: world_quiet_trans)
    next
      case (Inr lop)
      let ?conn = "connection_to ep peer (qr_remote_key ?read) (qr_remote_address ?read)"
      let ?r = "\<lparr>rma_peer = cn_peer ?conn, rma_buffer = cf_landing C, rma_length = 1,
        rma_descriptor = lo_descriptor lop, rma_remote_address = cn_remote_address ?conn,
        rma_remote_key = cn_remote_key ?conn, rma_context = a\<rparr>"
      let ?w2 = "drop_lease (if_local_lease op) w1" and ?op = "op\<lparr>if_local_lease := lo_lease lop\<rparr>"
      obtain code where wr: "post_in ?F ?conn (cf_landing C) 1 (lo_descriptor lop) a ?w2
          = (code, log_call (ReadMsg ?r code) ?w2)" by (simp add: post_in_def Let_def)
      obtain ep' w4 where dr: "drop_peer peer ep (log_call (ReadMsg ?r code) ?w2) = (ep', w4)"
        by (cases "drop_peer peer ep (log_call (ReadMsg ?r code) ?w2)")
      have w2: "world_quiet w1 ?w2" by (rule quiet_drop_lease)
      show ?thesis
      proof (cases "code = 0")
        case False
        have "world_quiet (wk_world wk) (log_call (ReadMsg ?r code) ?w2)"
          using False world_quiet_trans [OF w1 w2] by (auto intro!: world_quiet_trans [OF _ world_quiet_call])
        then have "world_quiet (wk_world wk) w4" using quiet_drop_peer [OF dr] by (auto intro: world_quiet_trans)
        moreover have "res \<noteq> QPosted" "wk' = wk\<lparr>wk_endpoint := ep', wk_world := w4\<rparr>"
          using run ins peer q lo Inr wr dr False by (auto simp: post_quiesce_def Let_def split: if_splits)
        ultimately show ?thesis using quiet1 quiet_drop_peer [OF dr] by (simp add: quiet_step_def)
      next
        case True
        have "leased ?F ep w1 ?op ?r" by (rule local_operand_leased [OF ok lo [unfolded Inr]]) simp_all
        then have "leased ?F (wk_endpoint wk) w1 ?op ?r" using quiet1 by (simp add: leased_def)
        moreover have wk': "res = QPosted" "wk' = wk\<lparr>wk_endpoint := ep', wk_world := w4, wk_boxes := (a, ?op) # wk_boxes wk\<rparr>"
          using run ins peer q lo Inr wr dr True by (auto simp: post_quiesce_def Let_def)
        moreover have "world_quiet (log_call (ReadMsg ?r 0) ?w2) w4" using quiet_drop_peer [OF dr] True by simp
        ultimately have "posts ?F a ?op ?r wk wk'"
          using quiet1 quiet_drop_peer [OF dr] w1 w2 unfolding posts_def wk'(2) by simp blast
        then show ?thesis using wk'(1) q by auto
      qed
    qed
  qed
qed

text \<open>Only the two posting steps post, and each of them at most once.\<close>

lemma posts_fields [simp]:
  "posts F a op r wk (wk'\<lparr>wk_in_flight := i\<rparr>) = posts F a op r wk wk'"
  "posts F a op r (wk\<lparr>wk_pending := ps\<rparr>) wk' = posts F a op r wk wk'"
  "posts F a op r (wk\<lparr>wk_quiescing := qs\<rparr>) wk' = posts F a op r wk wk'"
  by (simp_all add: posts_def)

lemma quiet_step_fields [simp]:
  "quiet_step (wk\<lparr>wk_pending := ps\<rparr>) wk' = quiet_step wk wk'"
  "quiet_step (wk\<lparr>wk_quiescing := qs\<rparr>) wk' = quiet_step wk wk'"
  "quiet_step wk (wk'\<lparr>wk_pending := ps\<rparr>) = quiet_step wk wk'"
  "quiet_step wk (wk'\<lparr>wk_quiescing := qs\<rparr>) = quiet_step wk wk'"
  by (simp_all add: quiet_step_def)

lemma post_one_cases:
  assumes "winv tag X B D k n T wk"
  shows "(\<exists>op r. posts (cf_fabric C) (pd_context p) op r wk (snd (post_one C p wk))) \<or> quiet_step wk (snd (post_one C p wk))"
proof -
  obtain res p' wk1 where run: "post C p wk = (res, p', wk1)" by (cases "post C p wk")
  obtain s d w where clk: "stall_clock (cf_fabric C) (pd_stalled_since p') (wk_world wk1) = (s, d, w)"
    by (cases "stall_clock (cf_fabric C) (pd_stalled_since p') (wk_world wk1)")
  note one = post_cases [OF assms run]
  have "quiet_step wk (snd (post_one C p wk))" if "res \<noteq> Inr 0"
  proof -
    have q1: "quiet_step wk wk1" using one that by simp
    have q2: "quiet_step wk (wk1\<lparr>wk_world := w\<rparr>)"
      using q1 quiet_stall_clock [OF clk] by (auto simp: quiet_step_def intro: world_quiet_trans)
    show ?thesis
      using run clk that q2 quiet_step_trans [OF q1 quiet_fail_post] quiet_step_trans [OF q2 quiet_fail_post]
      by (cases res) (auto simp: post_one_def Let_def)
  qed
  moreover have "post_one C p wk = (True, wk1\<lparr>wk_in_flight := Suc (wk_in_flight wk1)\<rparr>)" if "res = Inr 0"
    using run that by (simp add: post_one_def)
  ultimately show ?thesis using one by (cases "res = Inr 0") auto
qed

lemma quiesce_one_cases:
  assumes "winv tag X B D k n T wk"
  shows "(\<exists>op r. posts (cf_fabric C) (fst (q_inflight q)) op r wk (snd (quiesce_one C q wk)))
    \<or> quiet_step wk (snd (quiesce_one C q wk))"
proof -
  obtain res wk1 where run: "post_quiesce C q wk = (res, wk1)" by (cases "post_quiesce C q wk")
  note one = post_quiesce_cases [OF assms run]
  show ?thesis
  proof (cases res)
    case QPosted
    then show ?thesis using one run by (auto simp: quiesce_one_def)
  next
    case (QAgain q')
    obtain s d w where clk: "stall_clock (cf_fabric C) (q_stalled_since q') (wk_world wk1) = (s, d, w)"
      by (cases "stall_clock (cf_fabric C) (q_stalled_since q') (wk_world wk1)")
    have q2: "quiet_step wk (wk1\<lparr>wk_world := w\<rparr>)"
      using one QAgain quiet_stall_clock [OF clk] by (auto simp: quiet_step_def intro: world_quiet_trans)
    then show ?thesis
      using run clk QAgain quiet_step_trans [OF q2 quiet_finish_unreaped] by (auto simp: quiesce_one_def Let_def)
  next
    case (QFailed b e)
    then have "quiet_step wk wk1" using one by simp
    then show ?thesis
      using run QFailed quiet_step_trans [OF _ quiet_finish_unreaped, of wk wk1] by (simp add: quiesce_one_def)
  qed
qed

section \<open>Every step of the service\<close>

lemma wire_leased_accept:
  assumes fresh: "\<And>live. cf_box_alloc C live \<notin> set live"
    and leased: "wire_leased F wk" and inv: "winv tag X {#} D k n T wk"
  shows "wire_leased F (accept C request wk)"
proof (cases "prepare C (cf_box_alloc C (live_boxes wk)) request")
  case (Inl c)
  then show ?thesis using leased by (simp add: accept_def wire_leased_def release_outstanding_def)
next
  case (Inr po)
  obtain prep op where po: "po = (prep, op)" by (cases po)
  have new: "a \<noteq> pd_context prep" if on: "a \<in> set (wire (w_log (wk_world wk)))" for a
  proof -
    obtain op' where "map_of (wk_boxes wk) a = Some op'" using wire_has_box [OF inv on] by blast
    then have "a \<in> fst ` set (wk_boxes wk)" by (metis fst_conv image_eqI map_of_SomeD)
    then have "a \<in> set (live_boxes wk)" by (simp add: live_boxes_def)
    then show ?thesis using fresh [of "live_boxes wk"] prepare_box [OF Inr [unfolded po]] by auto
  qed
  then show ?thesis
    using leased Inr po by (simp add: accept_def wire_leased_def Let_def)
qed

lemma wire_leased_empty: "wire (w_log (wk_world wk)) = [] \<Longrightarrow> wire_leased F wk"
  by (simp add: wire_leased_def)

lemma wire_leased_fields [simp]:
  "wire_leased F (wk\<lparr>wk_outstanding := i\<rparr>) = wire_leased F wk"
  "wire_leased F (wk\<lparr>wk_disconnected := d\<rparr>) = wire_leased F wk"
  by (simp_all add: wire_leased_def)

definition leased_inv :: "'c config \<Rightarrow> ('c \<Rightarrow> 't) \<Rightarrow> 'c service \<Rightarrow> bool" where
  "leased_inv C tag s \<longleftrightarrow> sinv tag s \<and> wire_leased (cf_fabric C) (sv_worker s)"

text \<open>What a step does to the worker.\<close>

lemma send_message_worker: "send_message m s = (r, s') \<Longrightarrow> sv_worker s' = sv_worker s"
  by (auto simp: send_message_def split: if_splits)

lemma request_reply_worker: "request_reply m s = (r, s') \<Longrightarrow> sv_worker s' = sv_worker s"
  by (auto simp: request_reply_def Let_def dest: send_message_worker split: if_splits prod.splits sum.splits)

lemma submit_worker:
  "submit request s = (r, s') \<Longrightarrow> \<exists>n. sv_worker s' = (sv_worker s)\<lparr>wk_outstanding := n\<rparr>"
  by (auto simp: submit_def send_message_def add_outstanding_def sub_outstanding_def release_outstanding_def
      split: if_splits intro: exI [of _ "wk_outstanding (sv_worker s)"])

context worker_env
begin

lemma wire_leased_turn:
  assumes inv: "leased_inv C tag s"
  shows "wire_leased (cf_fabric C) (sv_worker (worker_turn C s))"
proof -
  let ?F = "cf_fabric C" and ?wk = "sv_worker s" and ?s = "worker_turn C s"
  have sinv: "sinv tag s" and leased: "wire_leased ?F ?wk" using inv by (simp_all add: leased_inv_def)
  note inv0 = sinv_parts(1) [OF sinv] and inv1 = sinv_parts(1) [OF sinv_turn [OF sinv]]
  have quiet: "wire_leased ?F (sv_worker ?s)" if "quiet_step ?wk (sv_worker ?s)"
    by (rule wire_leased_quiet [OF leased that inv0 inv1])
  have posted: "wire_leased ?F (sv_worker ?s)" if "posts ?F a op r ?wk (sv_worker ?s)" for a op r
    by (rule wire_leased_posts [OF leased that inv1])
  have message: "wire_leased ?F (sv_worker ?s)" if "sv_worker ?s = handle_message C m ?wk" for m
  proof (cases "\<exists>r. m = TransferMsg r")
    case True
    then show ?thesis using wire_leased_accept [OF conjunct1 [OF fresh] leased inv0] that by (auto simp: handle_message_def)
  next
    case False
    then show ?thesis using quiet quiet_handle_message [of m ?wk C] that by simp
  qed
  show ?thesis
  proof (cases "sv_mode s")
    case Intake
    then show ?thesis
      using leased message by (cases "sv_channel s") (auto simp: worker_turn_def take_in_def Let_def)
  next
    case (Posting attempts posted)
    then have s: "?s = post_turn C attempts posted s" by (simp add: worker_turn_def)
    show ?thesis
    proof (cases "\<exists>n p rest. attempts = Suc n \<and> wk_pending ?wk = p # rest \<and> wk_in_flight ?wk < cf_cap C")
      case True
      then obtain n p rest where cons: "attempts = Suc n" "wk_pending ?wk = p # rest" "wk_in_flight ?wk < cf_cap C"
        by blast
      have eq: "sv_worker ?s = snd (post_one C p (?wk\<lparr>wk_pending := rest\<rparr>))"
        using cons by (simp add: s split_def Let_def)
      show ?thesis
        using post_one_cases [OF winv_pop_pending [OF inv0 cons(2)], of C] quiet posted unfolding eq by auto
    next
      case False
      then show ?thesis
        using leased by (cases attempts; cases "wk_pending ?wk") (auto simp: s Let_def)
    qed
  next
    case (Reaping posted)
    then show ?thesis
      using quiet quiet_reap_entries [of ?wk C] by (simp add: worker_turn_def reap_turn_def split_def Let_def)
  next
    case (Dispatching entries posted any)
    then show ?thesis
      using leased quiet quiet_dispatch [of ?wk C] by (cases entries) (simp_all add: worker_turn_def)
  next
    case (Quiescing attempts posted any)
    then have s: "?s = quiesce_turn C attempts posted any s" by (simp add: worker_turn_def)
    show ?thesis
    proof (cases "\<exists>n q rest. attempts = Suc n \<and> wk_quiescing ?wk = q # rest")
      case True
      then obtain n q rest where cons: "attempts = Suc n" "wk_quiescing ?wk = q # rest" by blast
      have eq: "sv_worker ?s = snd (quiesce_one C q (?wk\<lparr>wk_quiescing := rest\<rparr>))"
        using cons by (simp add: s split_def Let_def)
      show ?thesis
        using quiesce_one_cases [OF winv_pop_quiescing [OF inv0 cons(2)], of C q] quiet posted unfolding eq by auto
    next
      case False
      then show ?thesis
        using leased by (cases attempts; cases "wk_quiescing ?wk") (auto simp: s Let_def)
    qed
  next
    case (Delivering posted any)
    then show ?thesis
      using quiet quiet_deliver [of ?wk posted any] by (simp add: worker_turn_def deliver_turn_def split_def Let_def)
  next
    case Parked
    then show ?thesis
      using leased message by (cases "sv_channel s") (auto simp: worker_turn_def run_recv_def)
  next
    case Leaving
    then have "sv_mode ?s = Gone" by (simp add: worker_turn_def run_shutdown_def)
    then have "quiet (sv_worker ?s)" "winv tag {#} {#} {#} 0 (length (transfers (sv_channel ?s)))
        (tags tag (sv_worker ?s) {#}) (sv_worker ?s)"
      using inv1 sinv_parts(5) [OF sinv_turn [OF sinv]] by simp_all
    then have "wire (w_log (wk_world (sv_worker ?s))) = []" by (simp add: winv_def quiet_def idle_def)
    then show ?thesis by (rule wire_leased_empty)
  next
    case Gone
    then show ?thesis using leased by (simp add: worker_turn_def)
  qed
qed

lemma leased_inv_step:
  assumes inv: "leased_inv C tag s" and step: "service_step C s s'"
  shows "leased_inv C tag s'"
proof -
  have sinv: "sinv tag s" and leased: "wire_leased (cf_fabric C) (sv_worker s)"
    using inv by (simp_all add: leased_inv_def)
  note sinv' = sinv_step [OF sinv step]
  have quiet: "wire_leased (cf_fabric C) (sv_worker s')" if "quiet_step (sv_worker s) (sv_worker s')"
    by (rule wire_leased_quiet [OF leased that sinv_parts(1) [OF sinv] sinv_parts(1) [OF sinv']])
  from step have "wire_leased (cf_fabric C) (sv_worker s')"
  proof cases
    case (step_submit request r)
    then show ?thesis using leased submit_worker by fastforce
  next
    case (step_register base len r)
    then have "sv_worker s' = sv_worker s"
      using request_reply_worker by (auto simp: register_def split: if_splits option.splits sum.splits prod.splits)
    then show ?thesis using leased by simp
  next
    case (step_add_peer client address r)
    then show ?thesis using leased request_reply_worker by (fastforce simp: add_peer_def)
  next
    case (step_remove_peer client)
    then show ?thesis using leased by (simp add: remove_peer_def send_message_def)
  next
    case step_drop
    then show ?thesis using leased by (simp add: service_drop_def)
  next
    case (step_invalidate a b)
    then show ?thesis
      using quiet world_quiet_ops(4) [of "wk_world (sv_worker s)" a b] by (simp add: run_invalidate_def quiet_step_def)
  next
    case (step_job k)
    then show ?thesis using quiet quiet_pool_job [of "sv_worker s" C k] by (simp add: run_job_def)
  next
    case step_turn
    then show ?thesis using wire_leased_turn [OF inv] by simp
  qed
  then show ?thesis using sinv' by (simp add: leased_inv_def)
qed

end

lemma leased_inv_init: "service_init s \<Longrightarrow> leased_inv C tag s"
  using sinv_init [of s tag]
  by (auto simp: leased_inv_def service_init_def service_new_def worker_new_def wire_leased_def)

sublocale worker_env \<subseteq> leases: step_invariant service_init "service_step C" "leased_inv C tag"
  by unfold_locales (auto intro: leased_inv_init leased_inv_step)

lemma reachable_leased:
  assumes "environment_ok C tag" "reachable service_init (service_step C) s"
  shows "leased_inv C tag s"
proof -
  have "worker_env C tag" using assms(1) by unfold_locales (auto simp: environment_ok_def)
  then have "step_invariant service_init (service_step C) (leased_inv C tag)"
    by (intro step_invariant.intro) (auto intro: leased_inv_init worker_env.leased_inv_step)
  then show ?thesis using assms(2) by (rule step_invariant.reachable_inv)
qed

section \<open>Properties\<close>

text \<open>
  C8. Memory that libfabric works on stays registered until it is done with it. In every
  interleaving of callers, worker, pool and reclaims, and for an endpoint that has to register its
  memory: each context on the wire (posted, and not yet reported) has its box, the box holds a
  lease, and the region behind that lease is the one whose descriptor the post carried, was
  registered on the endpoint's own domain over the whole buffer of the message, and is still open.
\<close>

theorem operations_keep_their_region_open:
  assumes "environment_ok C tag" "reachable service_init (service_step C) s"
  defines "wk \<equiv> sv_worker s"
  defines "l \<equiv> w_log (wk_world wk)"
  assumes local_mr: "ep_requires_local_mr (wk_endpoint wk)" and posted: "a \<in> set (wire l)"
  shows "\<exists>op r i mr base n. map_of (wk_boxes wk) a = Some op \<and> last_post a l = Some r
    \<and> if_local_lease op = Some i \<and> arc_value (w_regs (wk_world wk)) i = Some mr
    \<and> rma_descriptor r = fi_mr_desc (cf_fabric C) mr
    \<and> MrReg (ep_domain (wk_endpoint wk)) base n 0 mr \<in> set l \<and> base \<le> rma_buffer r
    \<and> unat (rma_buffer r) + unat (rma_length r) \<le> unat base + unat n
    \<and> count (mr_closed l) mr < count (mr_registered l) mr"
proof -
  have inv: "leased_inv C tag s" by (rule reachable_leased [OF assms(1,2)])
  then obtain op r where op: "map_of (wk_boxes wk) a = Some op" "last_post a l = Some r"
      "leased (cf_fabric C) (wk_endpoint wk) (wk_world wk) op r"
    using posted unfolding leased_inv_def wire_leased_def wk_def l_def by blast
  then obtain i mr where i: "if_local_lease op = Some i" "arc_value (w_regs (wk_world wk)) i = Some mr"
      "rma_descriptor r = fi_mr_desc (cf_fabric C) mr" "covers l (ep_domain (wk_endpoint wk)) mr (rma_buffer r) (rma_length r)"
    using local_mr by (auto simp: leased_def l_def)
  have "endpoint_ok (box_leases (all_boxes wk {#})) (wk_endpoint wk) (wk_world wk)"
    using inv by (auto simp: leased_inv_def wk_def intro: winv_endpoint sinv_parts(1))
  then have "count (mr_closed l) mr < count (mr_registered l) mr"
    using live_not_closed [of "wk_world wk" i mr] i(2) by (auto simp: endpoint_ok_def cache_ok_def l_def)
  then show ?thesis using op(1,2) i by (fastforce simp: covers_def)
qed

text \<open>One transfer taken in and posted: it is on the wire.\<close>

definition sample_posted :: "vec_u8 service" where
  "sample_posted = turns (loopback_config False) 3 (submitted False)"

lemma sample_posted_state:
  "(wire (w_log (wk_world (sv_worker sample_posted))), ep_requires_local_mr (wk_endpoint (sv_worker sample_posted)))
   = ([1], True)"
  by code_simp

theorem operations_keep_their_region_open_witness:
  "\<exists>op i mr. map_of (wk_boxes (sv_worker sample_posted)) 1 = Some op \<and> if_local_lease op = Some i
    \<and> arc_value (w_regs (wk_world (sv_worker sample_posted))) i = Some mr
    \<and> count (mr_closed (w_log (wk_world (sv_worker sample_posted)))) mr
      < count (mr_registered (w_log (wk_world (sv_worker sample_posted)))) mr"
proof -
  have "reachable service_init (service_step (loopback_config False)) sample_posted"
    unfolding sample_posted_def by (rule turns_reachable [OF submitted_reachable])
  from operations_keep_their_region_open [OF loopback_environment this, of 1] show ?thesis
    using sample_posted_state by auto
qed

end
