(* ===== verification/Worker_Turns.thy ===== *)
theory Worker_Turns
  imports Service_Properties
begin

text \<open>
  The turns of the worker, when nobody comes between them, are the body of its loop: from the intake
  on they go through the whole of \<open>pass\<close>, on the messages the channel holds, and end where it ends.
\<close>

section \<open>Runs of turns\<close>

definition runs :: "'c config \<Rightarrow> 'c service \<Rightarrow> 'c service \<Rightarrow> bool" where
  "runs C s t \<longleftrightarrow> (\<exists>n. turns C n s = t)"

lemma turns_add: "turns C (m + n) s = turns C n (turns C m s)"
  by (induction m arbitrary: s) simp_all

lemma runs_refl: "runs C s s"
  unfolding runs_def by (rule exI [of _ 0]) simp

lemma runs_trans: "runs C s t \<Longrightarrow> runs C t u \<Longrightarrow> runs C s u"
  unfolding runs_def by (metis turns_add)

lemma runs_turn: "runs C (worker_turn C s) t \<Longrightarrow> runs C s t"
  unfolding runs_def by (metis turns.simps(2))

section \<open>The inner loops\<close>

lemma intake_runs:
  "sv_channel s = ms \<Longrightarrow> sv_mode s = Intake \<Longrightarrow> runs C s (s\<lparr>sv_channel := [],
     sv_worker := intake C ms (\<not> sv_sender s) (sv_worker s),
     sv_mode := Posting (length (wk_pending (intake C ms (\<not> sv_sender s) (sv_worker s)))) 0\<rparr>)"
proof (induction ms arbitrary: s)
  case Nil
  then have "worker_turn C s = s\<lparr>sv_channel := [], sv_worker := intake C [] (\<not> sv_sender s) (sv_worker s),
     sv_mode := Posting (length (wk_pending (intake C [] (\<not> sv_sender s) (sv_worker s)))) 0\<rparr>"
    by (cases s) (simp add: worker_turn_def take_in_def intake_def Let_def)
  then show ?case using runs_turn runs_refl by metis
next
  case (Cons m ms)
  let ?t = "s\<lparr>sv_worker := handle_message C m (sv_worker s), sv_channel := ms\<rparr>"
  have turn: "worker_turn C s = ?t" using Cons.prems by (simp add: worker_turn_def take_in_def)
  have "intake C (m # ms) closed wk = intake C ms closed (handle_message C m wk)" for closed wk
    by (simp add: intake_def)
  then show ?case
    using Cons.IH [of ?t] Cons.prems by - (rule runs_turn, simp add: turn)
qed

lemma post_runs:
  "runs C (s\<lparr>sv_mode := Posting attempts posted\<rparr>)
     (case post_loop C attempts posted (sv_worker s) of
        (k, wk) \<Rightarrow> s\<lparr>sv_worker := wk, sv_mode := Reaping k\<rparr>)"
proof (induction attempts arbitrary: s posted)
  case 0
  show ?case by - (rule runs_turn, simp add: worker_turn_def runs_refl)
next
  case (Suc n)
  show ?case
  proof (cases "\<exists>p rest. wk_pending (sv_worker s) = p # rest \<and> wk_in_flight (sv_worker s) < cf_cap C")
    case True
    then obtain p rest where cons: "wk_pending (sv_worker s) = p # rest" "wk_in_flight (sv_worker s) < cf_cap C"
      by blast
    obtain ok wk where run: "post_one C p ((sv_worker s)\<lparr>wk_pending := rest\<rparr>) = (ok, wk)"
      by (cases "post_one C p ((sv_worker s)\<lparr>wk_pending := rest\<rparr>)")
    show ?thesis
      using Suc.IH [where s = "s\<lparr>sv_worker := wk\<rparr>" and posted = "if ok then Suc posted else posted"] cons run
      by - (rule runs_turn, simp add: worker_turn_def Let_def)
  next
    case False
    then show ?thesis
      by - (rule runs_turn, cases "wk_pending (sv_worker s)"; auto simp: worker_turn_def Let_def runs_refl)
  qed
qed

lemma dispatch_runs:
  "runs C (s\<lparr>sv_mode := Dispatching es posted any\<rparr>)
     (let wk = fold (dispatch C) es (sv_worker s)
      in s\<lparr>sv_worker := wk, sv_mode := Quiescing (length (wk_quiescing wk)) posted any\<rparr>)"
proof (induction es arbitrary: s)
  case Nil
  show ?case by - (rule runs_turn, simp add: worker_turn_def runs_refl)
next
  case (Cons e es)
  show ?case
    using Cons.IH [where s = "s\<lparr>sv_worker := dispatch C e (sv_worker s)\<rparr>"]
    by - (rule runs_turn, simp add: worker_turn_def Let_def)
qed

lemma reap_runs:
  "runs C (s\<lparr>sv_mode := Reaping posted\<rparr>)
     (case reap_pass C (sv_worker s) of
        (any, wk) \<Rightarrow> s\<lparr>sv_worker := wk, sv_mode := Quiescing (length (wk_quiescing wk)) posted any\<rparr>)"
proof -
  obtain es wk where run: "reap_entries C (sv_worker s) = (es, wk)" by (cases "reap_entries C (sv_worker s)")
  show ?thesis
    using dispatch_runs [where s = "s\<lparr>sv_worker := wk\<rparr>" and C = C and es = es and posted = posted and any = "es \<noteq> []"] run
    by - (rule runs_turn, simp add: worker_turn_def reap_turn_def reap_pass_def Let_def)
qed

lemma quiesce_runs:
  "runs C (s\<lparr>sv_mode := Quiescing attempts posted any\<rparr>)
     (case quiesce_loop C attempts posted (sv_worker s) of
        (k, wk) \<Rightarrow> s\<lparr>sv_worker := wk, sv_mode := Delivering k any\<rparr>)"
proof (induction attempts arbitrary: s posted)
  case 0
  show ?case by - (rule runs_turn, simp add: worker_turn_def runs_refl)
next
  case (Suc n)
  show ?case
  proof (cases "wk_quiescing (sv_worker s)")
    case Nil
    then show ?thesis by - (rule runs_turn, simp add: worker_turn_def Let_def runs_refl)
  next
    case (Cons q rest)
    obtain ok wk where run: "quiesce_one C q ((sv_worker s)\<lparr>wk_quiescing := rest\<rparr>) = (ok, wk)"
      by (cases "quiesce_one C q ((sv_worker s)\<lparr>wk_quiescing := rest\<rparr>)")
    show ?thesis
      using Suc.IH [where s = "s\<lparr>sv_worker := wk\<rparr>" and posted = "if ok then Suc posted else posted"] Cons run
      by - (rule runs_turn, simp add: worker_turn_def Let_def)
  qed
qed

section \<open>A pass\<close>

text \<open>One time round the loop, as a function of the service.\<close>

definition run_pass :: "'c config \<Rightarrow> 'c service \<Rightarrow> 'c service" where
  "run_pass C s =
     (let (flow, wk) = pass C (sv_channel s) (\<not> sv_sender s) (sv_worker s)
      in s\<lparr>sv_channel := [], sv_worker := wk, sv_mode := after_pass flow\<rparr>)"

text \<open>
  The turns are the loop. From the intake, some number of turns with no other thread between
  them leads to the state that the body of the loop, taken as one function, computes from the
  messages in the channel: it takes them all in, makes one round over the queue, reaps and
  dispatches, makes one round over the quiesce reads, delivers, and goes around, sleeps or leaves.
\<close>

theorem turns_make_a_pass:
  assumes "sv_mode s = Intake"
  shows "\<exists>n. turns C n s = run_pass C s"
proof -
  let ?wk1 = "intake C (sv_channel s) (\<not> sv_sender s) (sv_worker s)"
  obtain k wk2 where post: "post_loop C (length (wk_pending ?wk1)) 0 ?wk1 = (k, wk2)"
    by (cases "post_loop C (length (wk_pending ?wk1)) 0 ?wk1")
  obtain any wk3 where reap: "reap_pass C wk2 = (any, wk3)" by (cases "reap_pass C wk2")
  obtain k' wk4 where quiesce: "quiesce_loop C (length (wk_quiescing wk3)) k wk3 = (k', wk4)"
    by (cases "quiesce_loop C (length (wk_quiescing wk3)) k wk3")
  let ?s = "s\<lparr>sv_channel := []\<rparr>"
  have "runs C s (?s\<lparr>sv_worker := ?wk1, sv_mode := Posting (length (wk_pending ?wk1)) 0\<rparr>)"
    using intake_runs [OF refl assms] by simp
  moreover have "runs C (?s\<lparr>sv_worker := ?wk1, sv_mode := Posting (length (wk_pending ?wk1)) 0\<rparr>)
      (?s\<lparr>sv_worker := wk2, sv_mode := Reaping k\<rparr>)"
    using post_runs [where s = "?s\<lparr>sv_worker := ?wk1\<rparr>" and C = C and attempts = "length (wk_pending ?wk1)" and posted = 0] post by simp
  moreover have "runs C (?s\<lparr>sv_worker := wk2, sv_mode := Reaping k\<rparr>)
      (?s\<lparr>sv_worker := wk3, sv_mode := Quiescing (length (wk_quiescing wk3)) k any\<rparr>)"
    using reap_runs [where s = "?s\<lparr>sv_worker := wk2\<rparr>" and C = C and posted = k] reap by simp
  moreover have "runs C (?s\<lparr>sv_worker := wk3, sv_mode := Quiescing (length (wk_quiescing wk3)) k any\<rparr>)
      (?s\<lparr>sv_worker := wk4, sv_mode := Delivering k' any\<rparr>)"
    using quiesce_runs [where s = "?s\<lparr>sv_worker := wk3\<rparr>" and C = C and attempts = "length (wk_quiescing wk3)" and posted = k and any = any] quiesce by simp
  moreover have "runs C (?s\<lparr>sv_worker := wk4, sv_mode := Delivering k' any\<rparr>) (run_pass C s)"
    by (rule runs_turn) (simp add: worker_turn_def deliver_turn_def run_pass_def pass_def Let_def post reap quiesce
        runs_refl split: prod.split)
  ultimately have "runs C s (run_pass C s)" by (meson runs_trans)
  then show ?thesis by (simp add: runs_def)
qed

theorem turns_make_a_pass_witness:
  "\<exists>n. turns (loopback_config True) n (submitted True) = run_pass (loopback_config True) (submitted True)"
  by (rule turns_make_a_pass)
    (simp add: submitted_def submit_def send_message_def service_new_def add_outstanding_def)

end
