(* ===== verification/Worker_Behaviour.thy ===== *)
theory Worker_Behaviour
  imports Service_Properties
begin

text \<open>
  What the operations of the worker do, branch by branch: which requests are refused at intake,
  how long an operation may stall before it fails, when a write waits for its quiesce read, what a
  completion carries, when a peer is let go of, how many operations are posted, and when
  completions are handed over.
\<close>

section \<open>Intake\<close>

text \<open>The operand a request brings: where its bytes are and how many are transferred.\<close>

definition operand_request :: "'c operands \<Rightarrow> 'c transfer_request \<Rightarrow> (ptr \<times> usize) option" where
  "operand_request ops r =
     (case tr_direction r of
        ToPeer \<Rightarrow> op_source ops (tr_caller_context r)
      | FromPeer len \<Rightarrow>
          (case fst (op_allocate ops (tr_caller_context r) len) of
             Some (pointer, given) \<Rightarrow> if len \<le> given then Some (pointer, len) else None
           | None \<Rightarrow> None))"

lemma resolve_operand_request:
  "(case fst (resolve_operand ops (tr_direction r) (tr_caller_context r)) of
      Inl e \<Rightarrow> operand_request ops r = None | Inr x \<Rightarrow> operand_request ops r = Some x)"
  by (auto simp: resolve_operand_def operand_request_def not_le
      split: direction.split option.split prod.split)

text \<open>
  A request is refused exactly when its context brings no operand, or a landing buffer that is
  too small, or when the last byte of a write to be quiesced lies past the end of the address
  space. A request taken in transfers exactly the bytes its context brought, for a landing buffer
  never more than it holds, and the quiesce read names the last byte the write lands on.
\<close>

theorem prepare_takes_exactly_the_valid_requests:
  fixes C :: "'c config" and r :: "'c transfer_request"
  defines "quiesces \<equiv> \<lambda>len. cf_quiesce_writes C \<and> tr_direction r = ToPeer \<and> 0 < (len :: usize)"
  shows "case prepare C a r of
      Inl c \<Rightarrow> (\<exists>e. cm_outcome c = Inl e) \<and>
        (operand_request (cf_operands C) r = None
         \<or> (\<exists>pointer len. operand_request (cf_operands C) r = Some (pointer, len) \<and> quiesces len
              \<and> 2 ^ 64 \<le> unat (tr_remote_address r) + (unat len - 1)))
    | Inr (p, op) \<Rightarrow>
        operand_request (cf_operands C) r = Some (pd_pointer p, pd_length p)
        \<and> if_buffer_pointer op = pd_pointer p \<and> if_length op = pd_length p
        \<and> pd_context p = a \<and> if_local_lease op = None \<and> pd_stalled_since p = None
        \<and> (if quiesces (pd_length p)
           then unat (tr_remote_address r) + (unat (pd_length p) - 1) < 2 ^ 64
             \<and> (\<exists>q. if_quiesce op = Some q \<and> qr_remote_key q = tr_remote_key r
                  \<and> unat (qr_remote_address q) = unat (tr_remote_address r) + (unat (pd_length p) - 1))
           else if_quiesce op = None)"
proof -
  obtain res ctx where r: "resolve_operand (cf_operands C) (tr_direction r) (tr_caller_context r) = (res, ctx)"
    by (cases "resolve_operand (cf_operands C) (tr_direction r) (tr_caller_context r)")
  note given = resolve_operand_request [of "cf_operands C" r, unfolded r]
  have minus: "0 < len \<Longrightarrow> unat (len - 1) = unat len - 1" for len :: usize
    by (simp add: unat_minus_one word_gt_0)
  show ?thesis
  proof (cases res)
    case (Inl e)
    then show ?thesis using given by (simp add: prepare_def r)
  next
    case (Inr x)
    obtain pointer len where x: "x = (pointer, len)" by (cases x)
    show ?thesis
    proof (cases "quiesces len")
      case False
      then have off: "cf_quiesce_writes C \<Longrightarrow> tr_direction r = ToPeer \<Longrightarrow> len = 0"
        by (auto simp: quiesces_def word_gt_0)
      have "prepare C a r = Inr
        (\<lparr>pd_context = a, pd_client_id = tr_client_id r, pd_peer_address = tr_peer_address r,
           pd_remote_key = tr_remote_key r, pd_remote_address = tr_remote_address r,
           pd_pointer = pointer, pd_length = len, pd_direction = tr_direction r,
           pd_stalled_since = None\<rparr>,
         \<lparr>if_caller_context = ctx, if_client_id = tr_client_id r, if_length = len,
           if_want_checksum = tr_want_checksum r, if_buffer_pointer = pointer,
           if_local_lease = None, if_quiesce = None\<rparr>)"
        unfolding prepare_def r Inr x Let_def using off by (auto simp: word_gt_0)
      then show ?thesis using given False Inr x by simp
    next
      case True
      then have pos: "0 < len" and q: "cf_quiesce_writes C" "tr_direction r = ToPeer"
        by (auto simp: quiesces_def)
      show ?thesis
      proof (cases "checked_add (tr_remote_address r) (len - 1)")
        case None
        then have "prepare C a r = Inl \<lparr>cm_caller_context = ctx,
            cm_outcome = Inl (Fabric ''the peer's buffer range overflows'')\<rparr>"
          unfolding prepare_def r Inr x Let_def using pos q by simp
        then show ?thesis
          using given True Inr x None minus [OF pos] by (simp add: arith_simps)
      next
        case (Some last_byte)
        then have "prepare C a r = Inr
          (\<lparr>pd_context = a, pd_client_id = tr_client_id r, pd_peer_address = tr_peer_address r,
             pd_remote_key = tr_remote_key r, pd_remote_address = tr_remote_address r,
             pd_pointer = pointer, pd_length = len, pd_direction = tr_direction r,
             pd_stalled_since = None\<rparr>,
           \<lparr>if_caller_context = ctx, if_client_id = tr_client_id r, if_length = len,
             if_want_checksum = tr_want_checksum r, if_buffer_pointer = pointer,
             if_local_lease = None, if_quiesce = Some \<lparr>qr_peer_address = [],
               qr_remote_key = tr_remote_key r, qr_remote_address = last_byte\<rparr>\<rparr>)"
          unfolding prepare_def r Inr x Let_def using pos q by simp
        then show ?thesis
          using given True Inr x Some minus [OF pos]
            unat_add_no_wrap [of "tr_remote_address r" "len - 1"] by (simp add: arith_simps)
      qed
    qed
  qed
qed

section \<open>Stalled posts\<close>

lemma post_code: "post C p wk = (Inr code, p', wk') \<Longrightarrow> code \<noteq> 0 \<Longrightarrow> p' = p"
  by (auto simp: post_def Let_def split: sum.splits prod.splits option.splits if_splits)

lemma fail_post_completes:
  assumes "map_of (wk_boxes wk) (pd_context p) = Some op"
  shows "wk_completions (fail_post C p error wk) = wk_completions wk
      @ [\<lparr>cm_caller_context = if_caller_context op, cm_outcome = Inl error\<rparr>]
    \<and> wk_boxes (fail_post C p error wk) = AList.delete (pd_context p) (wk_boxes wk)
    \<and> wk_pending (fail_post C p error wk) = wk_pending wk"
  using assms
  by (simp add: fail_post_def reclaim_def finish_unreaped_def into_completion_def finish_op_def
      drained_def release_outstanding_def Let_def split_def split: option.split nat.split)

lemma fail_post_pending [simp]: "wk_pending (fail_post C p error wk) = wk_pending wk"
  by (simp add: fail_post_def reclaim_def finish_unreaped_def finish_op_def drained_def
      release_outstanding_def Let_def split_def split: option.split nat.split)

text \<open>
  One attempt the fabric answers with \<open>FI_EAGAIN\<close>: the clock is read, twice when this is the first
  stall, and the operation is queued again with the time of its first stall or given up.
\<close>

definition stall_start :: "fabric \<Rightarrow> prepared \<Rightarrow> log \<Rightarrow> nat" where
  "stall_start F p l = (case pd_stalled_since p of Some t \<Rightarrow> t | None \<Rightarrow> instant_now F l)"

definition stall_check :: "fabric \<Rightarrow> prepared \<Rightarrow> log \<Rightarrow> nat" where
  "stall_check F p l = (case pd_stalled_since p of Some t \<Rightarrow> instant_now F l
     | None \<Rightarrow> instant_now F (Clock (instant_now F l) # l))"

lemma stalled_attempt:
  fixes C :: "'c config"
  assumes run: "post C p wk = (Inr (- FI_EAGAIN (cf_fabric C)), p', wk1)"
    and code: "FI_EAGAIN (cf_fabric C) \<noteq> 0"
  defines "start \<equiv> stall_start (cf_fabric C) p (w_log (wk_world wk1))"
    and "reading \<equiv> stall_check (cf_fabric C) p (w_log (wk_world wk1))"
  shows "\<exists>w. post_one C p wk = (False,
    if reading - start < cf_progress_deadline C
    then wk1\<lparr>wk_world := w, wk_pending := wk_pending wk1 @ [p\<lparr>pd_stalled_since := Some start\<rparr>]\<rparr>
    else fail_post C (p\<lparr>pd_stalled_since := Some start\<rparr>)
      (no_progress ''no progress posting for '' (cf_progress_deadline C)) (wk1\<lparr>wk_world := w\<rparr>))"
proof -
  have p': "p' = p" using post_code [OF run] code by simp
  show ?thesis
    unfolding start_def reading_def post_one_def
    by (cases "pd_stalled_since p")
      (use run p' code in \<open>auto simp: stall_clock_def clock_now_def stall_start_def stall_check_def Let_def log_call_def\<close>)
qed

text \<open>Attempts that are each queued again carry the time of the first.\<close>

lemma stalled_attempts:
  fixes C :: "'c config"
  assumes eagain: "\<And>i. i \<le> n \<Longrightarrow> post C (p i) (wk i) = (Inr (- FI_EAGAIN (cf_fabric C)), p' i, wk1 i)"
    and again: "\<And>i. i < n \<Longrightarrow> wk_pending (snd (post_one C (p i) (wk i))) = wk_pending (wk1 i) @ [p (Suc i)]"
    and code: "FI_EAGAIN (cf_fabric C) \<noteq> 0" and k: "k < n" and first: "pd_stalled_since (p 0) = None"
  shows "p (Suc k) = (p 0)\<lparr>pd_stalled_since := Some (instant_now (cf_fabric C) (w_log (wk_world (wk1 0))))\<rparr>"
  using k
proof (induction k)
  case 0
  then show ?case
    using stalled_attempt [OF eagain [of 0] code] again [of 0] first
    by (auto simp: stall_start_def split: if_splits)
next
  case (Suc k)
  let ?start = "instant_now (cf_fabric C) (w_log (wk_world (wk1 0)))"
  have same: "p (Suc k) = (p 0)\<lparr>pd_stalled_since := Some ?start\<rparr>" using Suc by simp
  then have "pd_stalled_since (p (Suc k)) = Some ?start" by simp
  then have "p (Suc (Suc k)) = (p (Suc k))\<lparr>pd_stalled_since := Some ?start\<rparr>"
    using stalled_attempt [OF eagain [of "Suc k"] code] again [of "Suc k"] Suc.prems
    by (auto simp: stall_start_def split: if_splits)
  then show ?case by (simp add: same)
qed

text \<open>
  C25. A peer that cannot be reached fails its transfer instead of holding it forever. Take the
  attempts at one operation, each of which the fabric answered with \<open>FI_EAGAIN\<close> and each but the last
  of which put it back in the queue. The start of its stall is the clock at the first of them,
  recorded then and never moved. After the last one it is put back at the end of the queue, with
  that start, if less than the deadline has passed since; otherwise its box is taken back and one
  completion with the error is queued for its caller.
\<close>

theorem stalled_post_fails_at_the_deadline:
  assumes eagain: "\<And>i. i \<le> n \<Longrightarrow> post C (p i) (wk i) = (Inr (- FI_EAGAIN (cf_fabric C)), p' i, wk1 i)"
    and again: "\<And>i. i < n \<Longrightarrow> wk_pending (snd (post_one C (p i) (wk i))) = wk_pending (wk1 i) @ [p (Suc i)]"
    and code: "FI_EAGAIN (cf_fabric C) \<noteq> 0"
    and first: "pd_stalled_since (p 0) = None"
    and box: "map_of (wk_boxes (wk1 n)) (pd_context (p 0)) = Some op"
  shows "let now = (\<lambda>l. instant_now (cf_fabric C) l);
      start = now (w_log (wk_world (wk1 0)));
      reading = now (if n = 0 then Clock start # w_log (wk_world (wk1 0)) else w_log (wk_world (wk1 n)));
      wk2 = snd (post_one C (p n) (wk n))
    in \<not> fst (post_one C (p n) (wk n)) \<and>
      (if reading - start < cf_progress_deadline C
       then wk_pending wk2 = wk_pending (wk1 n) @ [(p 0)\<lparr>pd_stalled_since := Some start\<rparr>]
         \<and> wk_completions wk2 = wk_completions (wk1 n) \<and> wk_boxes wk2 = wk_boxes (wk1 n)
       else wk_pending wk2 = wk_pending (wk1 n)
         \<and> wk_boxes wk2 = AList.delete (pd_context (p 0)) (wk_boxes (wk1 n))
         \<and> wk_completions wk2 = wk_completions (wk1 n) @ [\<lparr>cm_caller_context = if_caller_context op,
             cm_outcome = Inl (no_progress ''no progress posting for '' (cf_progress_deadline C))\<rparr>])"
proof -
  let ?F = "cf_fabric C" and ?start = "instant_now (cf_fabric C) (w_log (wk_world (wk1 0)))"
  let ?reading = "instant_now ?F (if n = 0 then Clock ?start # w_log (wk_world (wk1 0)) else w_log (wk_world (wk1 n)))"
  have times: "stall_start ?F (p n) (w_log (wk_world (wk1 n))) = ?start"
      "stall_check ?F (p n) (w_log (wk_world (wk1 n))) = ?reading"
    and same: "(p n)\<lparr>pd_stalled_since := Some ?start\<rparr> = (p 0)\<lparr>pd_stalled_since := Some ?start\<rparr>"
    using first stalled_attempts [OF eagain again code _ first, of n "n - 1"]
    by (cases n; simp add: stall_start_def stall_check_def)+
  note box' = fail_post_completes [where p = "(p 0)\<lparr>pd_stalled_since := Some ?start\<rparr>" and op = op]
  obtain w where "post_one C (p n) (wk n) = (False,
      if ?reading - ?start < cf_progress_deadline C
      then (wk1 n)\<lparr>wk_world := w, wk_pending := wk_pending (wk1 n) @ [(p 0)\<lparr>pd_stalled_since := Some ?start\<rparr>]\<rparr>
      else fail_post C ((p 0)\<lparr>pd_stalled_since := Some ?start\<rparr>)
        (no_progress ''no progress posting for '' (cf_progress_deadline C)) ((wk1 n)\<lparr>wk_world := w\<rparr>))"
    using stalled_attempt [OF eagain [of n] code] unfolding times same by auto
  then show ?thesis using box' [of "(wk1 n)\<lparr>wk_world := w\<rparr>" C] box by (simp add: Let_def)
qed

section \<open>Reaped operations\<close>

lemma finish_op_boxes [simp]:
  "wk_boxes (finish_op c wk) = wk_boxes wk" "wk_quiescing (finish_op c wk) = wk_quiescing wk"
  "wk_completions (finish_op c wk) = wk_completions wk" "wk_crc_pending (finish_op c wk) = wk_crc_pending wk"
  by (simp_all add: finish_op_def drained_def release_outstanding_def Let_def
      split: option.split nat.split prod.split)

text \<open>
  C24. A write that must be quiesced is not complete when its own completion arrives: it waits for
  the read of its last byte, still counted as outstanding, and its caller hears nothing yet. Any
  other operation, and a failed write, is finished: its caller's completion is queued, or the
  operation joins the checksum batch when one is wanted.
\<close>

theorem write_completes_after_its_quiesce_read:
  assumes box: "map_of (wk_boxes wk) a = Some op"
  shows "case dispatch C (a, res) wk of wk' \<Rightarrow>
    wk_boxes wk' = AList.delete a (wk_boxes wk) \<and>
    (if (\<exists>u. res = Inr u) \<and> if_quiesce op \<noteq> None
     then wk_completions wk' = wk_completions wk \<and> wk_crc_pending wk' = wk_crc_pending wk
       \<and> wk_outstanding wk' = wk_outstanding wk \<and> wk_by_client wk' = wk_by_client wk
       \<and> wk_quiescing wk' = wk_quiescing wk @ [\<lparr>q_inflight = (a, op\<lparr>if_quiesce := None\<rparr>),
           q_read = the (if_quiesce op), q_stalled_since = None\<rparr>]
     else wk_quiescing wk' = wk_quiescing wk \<and>
       (if if_want_checksum op
        then wk_completions wk' = wk_completions wk \<and> wk_crc_pending wk' = wk_crc_pending wk @ [((a, op), res)]
        else wk_crc_pending wk' = wk_crc_pending wk
          \<and> (\<exists>c. wk_completions wk' = wk_completions wk @ [c] \<and> cm_caller_context c = if_caller_context op
               \<and> cm_outcome c = (case res of Inl e \<Rightarrow> Inl e
                   | Inr _ \<Rightarrow> Inr \<lparr>td_bytes = if_length op, td_checksum = None\<rparr>))))"
  using box
  by (auto simp: dispatch_def reclaim_def into_completion_def Let_def split_def
      split: sum.split option.split)

section \<open>How many operations are posted\<close>

lemma in_flight_fail_post [simp]: "wk_in_flight (fail_post C p e wk) = wk_in_flight wk"
  by (simp add: fail_post_def reclaim_def finish_unreaped_def finish_op_def drained_def
      release_outstanding_def Let_def split_def split: option.split nat.split)

lemma in_flight_post: "post C p wk = (r, p', wk') \<Longrightarrow> wk_in_flight wk' = wk_in_flight wk"
  by (auto simp: post_def Let_def split: sum.splits prod.splits option.splits if_splits)

lemma in_flight_post_one:
  "post_one C p wk = (ok, wk') \<Longrightarrow> wk_in_flight wk' = wk_in_flight wk + (if ok then 1 else 0)"
  by (auto simp: post_one_def Let_def in_flight_post split: sum.splits prod.splits if_splits)

text \<open>
  A pass posts while there is room: the posting loop never takes the operations in flight past
  the cap (of at least one, and at most what the hardware queues when it says), posts at most one
  operation per turn, and reports exactly as many as it added.
\<close>

theorem posting_stays_within_the_cap:
  fixes C :: "'c config"
  shows "(case post_loop C attempts posted wk of (posted', wk') \<Rightarrow>
      wk_in_flight wk' \<le> max (wk_in_flight wk) (cf_cap C)
      \<and> posted \<le> posted' \<and> posted' \<le> posted + attempts
      \<and> wk_in_flight wk' = wk_in_flight wk + (posted' - posted))
    \<and> 0 < in_flight_cap max_tx configured
    \<and> (max_tx = 0 \<or> in_flight_cap max_tx configured \<le> max_tx)"
proof (intro conjI)
  show "case post_loop C attempts posted wk of (posted', wk') \<Rightarrow>
      wk_in_flight wk' \<le> max (wk_in_flight wk) (cf_cap C)
      \<and> posted \<le> posted' \<and> posted' \<le> posted + attempts
      \<and> wk_in_flight wk' = wk_in_flight wk + (posted' - posted)"
  proof (induction attempts arbitrary: posted wk)
    case (Suc attempts)
    show ?case
    proof (cases "wk_in_flight wk < cf_cap C \<and> wk_pending wk \<noteq> []")
      case False
      then show ?thesis by (cases "wk_pending wk") auto
    next
      case True
      then obtain p rest where p: "wk_pending wk = p # rest" by (cases "wk_pending wk") auto
      obtain ok wk1 where one: "post_one C p (wk\<lparr>wk_pending := rest\<rparr>) = (ok, wk1)"
        by (cases "post_one C p (wk\<lparr>wk_pending := rest\<rparr>)")
      have "wk_in_flight wk1 = wk_in_flight wk + (if ok then 1 else 0)"
        using in_flight_post_one [OF one] by simp
      then show ?thesis
        using Suc.IH [of wk1 "if ok then Suc posted else posted"] True p one
        by (auto split: prod.splits if_splits)
    qed
  qed simp
qed (auto simp: in_flight_cap_def Let_def split: option.split)

section \<open>Removing a peer\<close>

text \<open>
  C26. A peer is let go of only when its client has no operation in progress: a removal that comes
  earlier touches neither the address vector nor the tables and is remembered, and the end of the
  client's last operation carries it out; the end of an earlier one does not.
\<close>

theorem peer_removal_waits_for_the_last_operation:
  defines "released \<equiv> \<lambda>c wk wk'. (wk_endpoint wk', wk_world wk') = release_peer c (wk_endpoint wk) (wk_world wk)
    \<and> c \<notin> set (wk_pending_removal wk')"
    and "untouched \<equiv> \<lambda>wk wk'. wk_endpoint wk' = wk_endpoint wk \<and> wk_world wk' = wk_world wk"
  assumes counted: "map_of (wk_by_client wk) c \<noteq> Some 0" and n: "n = count_of (wk_by_client wk) c"
    and deferred: "set (wk_pending_removal wk) \<subseteq> {d. 0 < count_of (wk_by_client wk) d}"
  shows "(if n = 0 then released c wk (remove_or_defer c wk)
      else untouched wk (remove_or_defer c wk) \<and> c \<in> set (wk_pending_removal (remove_or_defer c wk)))
    \<and> (0 < n \<longrightarrow>
      (if n = 1 \<and> c \<in> set (wk_pending_removal wk) then released c wk (finish_op c wk)
       else untouched wk (finish_op c wk)))"
proof -
  have "c \<notin> set (wk_pending_removal wk)" if "n = 0" using deferred n that by auto
  then show ?thesis
    using counted n
    by (auto simp: remove_or_defer_def finish_op_def drained_def release_outstanding_def count_of_def
        released_def untouched_def Let_def split: option.splits nat.splits prod.splits)
qed

section \<open>Handing completions over\<close>

text \<open>
  C28. Completions wait at most ten passes, and only while fewer than ten are queued: a pass ends
  either with nothing queued, the queued ones having gone to \<open>complete_batch\<close> in one batch and in
  order, or with the count of waiting passes one higher and at most ten. A worker that stops going
  around has handed over everything, checksum work included.
\<close>

theorem completions_wait_at_most_ten_passes:
  assumes run: "deliver posted reaped_any wk = (flow, wk')" and spins: "wk_drain_spins wk \<le> 10"
  shows "wk_drain_spins wk' \<le> 10 \<and>
    (if wk_completions wk = [] then wk_completions wk' = [] \<and> wk_batches wk' = wk_batches wk
     else if length (wk_completions wk) < 10 \<and> wk_drain_spins wk < 10
     then flow = Loop \<and> wk_completions wk' = wk_completions wk \<and> wk_batches wk' = wk_batches wk
       \<and> wk_drain_spins wk' = Suc (wk_drain_spins wk)
     else wk_completions wk' = [] \<and> wk_batches wk' = wk_batches wk @ [wk_completions wk]
       \<and> wk_drain_spins wk' = 0)
    \<and> (flow \<noteq> Loop \<longrightarrow> idle wk \<and> wk_completions wk' = [] \<and> wk_crc_pending wk' = []
        \<and> concat (wk_jobs wk') = concat (wk_jobs wk) @ wk_crc_pending wk)"
  using run spins
  by (auto simp: deliver_def after_delivery_def should_flush_crc_def submit_crc_batch_def
      TARGET_COMPLETIONS_def Let_def split: if_splits)

section \<open>A worker to run\<close>

definition sample_worker :: "vec_u8 worker" where
  "sample_worker = accept (loopback_config True) (sample_request False)
     ((worker_new loopback_endpoint empty_world)\<lparr>wk_outstanding := 1\<rparr>)"

definition sample_op :: "vec_u8 in_flight" where
  "sample_op = \<lparr>if_caller_context = \<lparr>vec_pointer = 8192, vec_bytes = [10, 20, 30]\<rparr>, if_client_id = 7,
     if_length = 3, if_want_checksum = False, if_buffer_pointer = 8192, if_local_lease = None,
     if_quiesce = Some \<lparr>qr_peer_address = [], qr_remote_key = 5, qr_remote_address = 4098\<rparr>\<rparr>"

lemma sample_worker_state:
  "(wk_boxes sample_worker, wk_by_client sample_worker, wk_pending_removal sample_worker,
    wk_completions sample_worker, wk_quiescing sample_worker, length (wk_pending sample_worker))
   = ([(1, sample_op)], [(7, 1)], [], [], [], 1)"
  by code_simp

lemma sample_worker_simps [simp]:
  "wk_boxes sample_worker = [(1, sample_op)]" "wk_by_client sample_worker = [(7, 1)]"
  "wk_pending_removal sample_worker = []" "wk_completions sample_worker = []" "wk_quiescing sample_worker = []"
  using sample_worker_state by simp_all

text \<open>A fabric whose transmit queue is always full.\<close>

definition stuck_config :: "vec_u8 config" where
  "stuck_config = (loopback_config True)\<lparr>cf_fabric := loopback\<lparr>fi_writemsg := \<lambda>_ _. - 11\<rparr>,
     cf_progress_deadline := 2\<rparr>"

definition stuck_operation :: prepared where
  "stuck_operation = hd (wk_pending sample_worker)"

definition stuck_worker :: "vec_u8 worker" where
  "stuck_worker = sample_worker\<lparr>wk_pending := []\<rparr>"

definition stuck_once :: "vec_u8 worker" where
  "stuck_once = snd (post_one stuck_config stuck_operation stuck_worker)"

definition stuck_attempt :: "nat \<Rightarrow> prepared" where
  "stuck_attempt i = (if i = 0 then stuck_operation else hd (wk_pending stuck_once))"

definition stuck_workers :: "nat \<Rightarrow> vec_u8 worker" where
  "stuck_workers i = (if i = 0 then stuck_worker else stuck_once\<lparr>wk_pending := []\<rparr>)"

definition stuck_retry :: "vec_u8 worker \<Rightarrow> (dma_error, int) result \<times> prepared \<times> vec_u8 worker" where
  "stuck_retry wk = post stuck_config (hd (wk_pending wk)) (wk\<lparr>wk_pending := []\<rparr>)"

definition stuck_post :: "nat \<Rightarrow> (dma_error, int) result \<times> prepared \<times> vec_u8 worker" where
  "stuck_post i = (if i = 0 then stuck_retry sample_worker else stuck_retry stuck_once)"

definition stuck_summary ::
  "(dma_error, int) result \<times> prepared \<times> vec_u8 worker
    \<Rightarrow> (dma_error, int) result \<times> vec_u8 in_flight option \<times> prepared list \<times> vec_u8 completion list \<times> nat"
where
  "stuck_summary x = (fst x, map_of (wk_boxes (snd (snd x))) 1, wk_pending (snd (snd x)),
     wk_completions (snd (snd x)), instant_now loopback (w_log (wk_world (snd (snd x)))))"

lemma stuck_post_state:
  "stuck_summary (stuck_retry sample_worker) = (Inr (- 11), Some sample_op, [], [], 4)"
  "stuck_summary (stuck_retry stuck_once) = (Inr (- 11), Some sample_op, [], [], 9)"
  "(pd_context stuck_operation, pd_stalled_since stuck_operation, length (wk_pending stuck_once)) = (1, None, 1)"
  by code_simp+

lemma stuck_post_run: "post stuck_config (stuck_attempt i) (stuck_workers i) = stuck_post i"
  by (simp add: stuck_post_def stuck_retry_def stuck_attempt_def stuck_workers_def stuck_worker_def
      stuck_operation_def)

theorem stalled_post_fails_at_the_deadline_witness:
  "map cm_outcome (wk_completions (snd (post_one stuck_config (stuck_attempt 1) (stuck_workers 1))))
     = [Inl (no_progress ''no progress posting for '' 2)]"
proof -
  have config: "FI_EAGAIN (cf_fabric stuck_config) = 11" "cf_progress_deadline stuck_config = 2"
    "instant_now (cf_fabric stuck_config) = instant_now loopback"
    by (simp_all add: stuck_config_def loopback_config_def loopback_def)
  let ?wk1 = "\<lambda>i. snd (snd (stuck_post i))"
  note states = stuck_post_state [unfolded stuck_summary_def prod.inject]
  have posts: "post stuck_config (stuck_attempt i) (stuck_workers i)
      = (Inr (- FI_EAGAIN (cf_fabric stuck_config)), fst (snd (stuck_post i)), ?wk1 i)" for i
    using states config by (simp add: stuck_post_run stuck_post_def prod_eq_iff)
  have again: "wk_pending (snd (post_one stuck_config (stuck_attempt i) (stuck_workers i)))
      = wk_pending (?wk1 i) @ [stuck_attempt (Suc i)]" if "i < 1" for i
    using that states
    by (cases "wk_pending stuck_once")
      (auto simp: stuck_attempt_def stuck_workers_def stuck_post_def simp flip: stuck_once_def)
  have "pd_stalled_since (stuck_attempt 0) = None" "pd_context (stuck_attempt 0) = 1"
    using states by (simp_all add: stuck_attempt_def)
  moreover have "map_of (wk_boxes (?wk1 1)) 1 = Some sample_op" "wk_completions (?wk1 1) = []"
    "\<not> instant_now loopback (w_log (wk_world (?wk1 1))) - instant_now loopback (w_log (wk_world (?wk1 0))) < 2"
    using states by (simp_all add: stuck_post_def)
  ultimately show ?thesis
    using stalled_post_fails_at_the_deadline [of 1 stuck_config stuck_attempt stuck_workers
        "\<lambda>i. fst (snd (stuck_post i))" ?wk1 sample_op, OF posts again]
    by (simp add: Let_def config del: One_nat_def)
qed

theorem write_completes_after_its_quiesce_read_witness:
  "wk_completions (dispatch (loopback_config True) (1, Inr ()) sample_worker) = []
   \<and> length (wk_quiescing (dispatch (loopback_config True) (1, Inr ()) sample_worker)) = 1"
  using write_completes_after_its_quiesce_read [of sample_worker 1 sample_op "loopback_config True" "Inr ()"]
  by (simp add: sample_op_def)

theorem peer_removal_waits_for_the_last_operation_witness:
  "wk_world (remove_or_defer 7 sample_worker) = wk_world sample_worker
   \<and> 7 \<in> set (wk_pending_removal (remove_or_defer 7 sample_worker))"
proof -
  have "count_of (wk_by_client sample_worker) 7 = 1" by (simp add: count_of_def)
  then show ?thesis
    using peer_removal_waits_for_the_last_operation [of sample_worker 7 1] by simp
qed

theorem completions_wait_at_most_ten_passes_witness:
  "wk_drain_spins (snd (deliver 0 True sample_worker)) \<le> 10"
proof -
  obtain flow wk where run: "deliver 0 True sample_worker = (flow, wk)"
    by (cases "deliver 0 True sample_worker")
  have "wk_drain_spins sample_worker = 0"
    by (simp add: sample_worker_def accept_def release_outstanding_def worker_new_def Let_def
      split: sum.split prod.split)
  then show ?thesis using completions_wait_at_most_ten_passes [OF run] run by simp
qed

end
