(* ===== verification/Service_Refinement.thy ===== *)
theory Service_Refinement
  imports Service_Properties
begin

text \<open>
  What the service promises its callers, as a specification of three lines: a context given to it
  is owed, and each call of the completion hook settles some of what is owed, once. The theorems
  show that the system of callers, worker, channel, boxes and pool refines it: the abstraction
  forgets everything but the submitted contexts and the batches handed over.
\<close>

section \<open>The promise\<close>

record 't promise =
  pr_owed :: "'t multiset"
  pr_settled :: "'t list list"

definition promise_init :: "'t promise \<Rightarrow> bool" where
  "promise_init a \<longleftrightarrow> a = \<lparr>pr_owed = {#}, pr_settled = []\<rparr>"

definition owe :: "'t \<Rightarrow> 't promise \<Rightarrow> 't promise" where
  "owe x a = a\<lparr>pr_owed := add_mset x (pr_owed a)\<rparr>"

definition settle :: "'t list \<Rightarrow> 't promise \<Rightarrow> 't promise" where
  "settle xs a = a\<lparr>pr_owed := pr_owed a - mset xs, pr_settled := pr_settled a @ [xs]\<rparr>"

inductive promise_step :: "'t promise \<Rightarrow> 't promise \<Rightarrow> bool" where
  owe: "promise_step a (owe x a)"
| settle: "mset xs \<subseteq># pr_owed a \<Longrightarrow> promise_step a (settle xs a)"

text \<open>Nothing is settled that was not owed, and what was owed is settled or still owed.\<close>

definition handed_over :: "('c \<Rightarrow> 't) \<Rightarrow> 'c service \<Rightarrow> 't list list" where
  "handed_over tag s = map (map (tag \<circ> cm_caller_context)) (wk_batches (sv_worker s))"

definition promise_of :: "('c \<Rightarrow> 't) \<Rightarrow> 'c service \<Rightarrow> 't promise" where
  "promise_of tag s = \<lparr>pr_owed = mset (map tag (sv_submitted s)) - mset (concat (handed_over tag s)),
     pr_settled = handed_over tag s\<rparr>"

lemma handed_over_submitted:
  assumes "sinv tag s"
  shows "mset (concat (handed_over tag s)) \<subseteq># mset (map tag (sv_submitted s))"
proof -
  have "mset (map tag (sv_submitted s)) = waiting tag s + tags tag (sv_worker s) {#}"
    by (rule sinv_parts(2) [OF assms])
  moreover have "mset (concat (handed_over tag s))
      = image_mset (\<lambda>c. tag (cm_caller_context c)) (mset (concat (wk_batches (sv_worker s))))"
    by (simp add: handed_over_def comp_def flip: map_concat mset_map)
  ultimately show ?thesis by (simp add: tags_def)
qed

text \<open>A worker that is not running, with nothing queued, owes nothing.\<close>

lemma stopped_owes_nothing:
  assumes inv: "sinv tag s"
    and "halted (sv_mode s)" "sv_channel s = []" "concat (wk_jobs (sv_worker s)) = []"
  shows "mset (map tag (sv_submitted s)) = mset (concat (handed_over tag s))"
proof -
  let ?wk = "sv_worker s"
  note P = sinv_parts [OF inv]
  have quiet: "quiet ?wk" using P(5) assms(2) by simp
  then have "idle ?wk" by (simp add: quiet_def)
  have "winv tag {#} {#} {#} 0 (length (transfers (sv_channel s))) (tags tag ?wk {#}) ?wk"
    using P(1) assms(2) by (cases "sv_mode s") simp_all
  note boxes = idle_boxes [OF this \<open>idle ?wk\<close>]
  have "all_boxes ?wk {#} = {#}" using boxes quiet assms(4) by (simp add: all_boxes_def quiet_def idle_def)
  then show ?thesis
    using P(2) quiet assms(3)
    by (simp add: waiting_def tags_def quiet_def handed_over_def comp_def flip: map_concat mset_map)
qed

section \<open>Each step is a step of the promise\<close>

text \<open>What a step does to the two parts of the abstraction.\<close>

definition quiet_step :: "'c service \<Rightarrow> 'c service \<Rightarrow> bool" where
  "quiet_step s t \<longleftrightarrow> sv_submitted t = sv_submitted s \<and> wk_batches (sv_worker t) = wk_batches (sv_worker s)"

text \<open>A turn hands over at most one batch, when it delivers, and takes no new context.\<close>

lemma turn_effect:
  assumes "sinv tag s"
  shows "sv_submitted (worker_turn C s) = sv_submitted s
    \<and> (wk_batches (sv_worker (worker_turn C s)) = wk_batches (sv_worker s)
       \<or> (\<exists>b. wk_batches (sv_worker (worker_turn C s)) = wk_batches (sv_worker s) @ [b]))"
proof (cases "sv_mode s")
  case Intake
  then show ?thesis using handle_message_replies [of C _ "sv_worker s"]
    by (auto simp: worker_turn_def take_in_def Let_def split: list.split)
next
  case (Posting attempts posted)
  have "frame (snd (post_one C p ((sv_worker s)\<lparr>wk_pending := rest\<rparr>))) = frame (sv_worker s)" for p rest
    by (simp add: frame_simps)
  then show ?thesis
    by (cases attempts) (auto simp: Posting worker_turn_def Let_def split_def frame_def split: list.split)
next
  case (Reaping posted)
  then show ?thesis using frame_reap_entries [of C "sv_worker s"]
    by (auto simp: worker_turn_def reap_turn_def split_def Let_def frame_def)
next
  case (Dispatching es posted any)
  then show ?thesis using frame_dispatch [of C _ "sv_worker s"]
    by (cases es) (auto simp: worker_turn_def frame_def)
next
  case (Quiescing attempts posted any)
  have "frame (snd (quiesce_one C q ((sv_worker s)\<lparr>wk_quiescing := rest\<rparr>))) = frame (sv_worker s)" for q rest
    by (simp add: frame_simps)
  then show ?thesis
    by (cases attempts) (auto simp: Quiescing worker_turn_def Let_def split_def frame_def split: list.split)
next
  case (Delivering posted any)
  then show ?thesis using deliver_frame [of posted any "sv_worker s"]
    by (auto simp: worker_turn_def deliver_turn_def split: prod.split)
next
  case Parked
  then show ?thesis using handle_message_replies [of C _ "sv_worker s"]
    by (auto simp: worker_turn_def run_recv_def split: list.split)
next
  case Leaving
  then have "quiet (sv_worker s)" using sinv_parts(5) [OF assms] by simp
  then have "shutdown C (sv_worker s) = close_endpoint (sv_worker s)"
    by (intro shutdown_idle) (simp_all add: quiet_def idle_def)
  then show ?thesis
    using Leaving frame_close_endpoint [of "sv_worker s"]
    by (simp add: worker_turn_def run_shutdown_def frame_def)
next
  case Gone
  then show ?thesis by (simp add: worker_turn_def)
qed

lemma step_effect:
  assumes "service_step C s t" "sinv tag s"
  shows "quiet_step s t
    \<or> (\<exists>x. sv_submitted t = sv_submitted s @ [x] \<and> wk_batches (sv_worker t) = wk_batches (sv_worker s))
    \<or> (\<exists>b. sv_submitted t = sv_submitted s \<and> wk_batches (sv_worker t) = wk_batches (sv_worker s) @ [b])"
  using assms(1)
proof (cases rule: service_step.cases)
  case (step_submit request r)
  then show ?thesis
    by (auto simp: quiet_step_def submit_def send_message_def add_outstanding_def sub_outstanding_def
        release_outstanding_def split: if_splits)
next
  case (step_register base len r)
  then show ?thesis
    by (auto simp: quiet_step_def register_def request_reply_def send_message_def Let_def
        split: if_splits option.splits sum.splits prod.splits)
next
  case (step_add_peer client address r)
  then show ?thesis
    by (auto simp: quiet_step_def add_peer_def request_reply_def send_message_def Let_def
        split: if_splits sum.splits prod.splits)
next
  case (step_job k)
  then show ?thesis
    using run_crc_job_frame [of C k "sv_worker s"] by (auto simp: quiet_step_def run_job_def)
next
  case step_turn
  then show ?thesis using turn_effect [OF assms(2)] by (auto simp: quiet_step_def)
qed (auto simp: quiet_step_def remove_peer_def send_message_def service_drop_def run_invalidate_def)

lemma add_mset_diff_sub: "B \<subseteq># A \<Longrightarrow> add_mset x A - B = add_mset x (A - B)"
  using subset_mset.add_diff_assoc2 [of B A "{#x#}"] by simp

lemma promise_of_step:
  assumes inv: "sinv tag s" and inv': "sinv tag t" and step: "service_step C s t"
  shows "promise_of tag t = promise_of tag s \<or> promise_step (promise_of tag s) (promise_of tag t)"
  using step_effect [OF step inv]
proof (elim disjE exE conjE)
  show ?thesis if "quiet_step s t"
    using that by (simp add: quiet_step_def promise_of_def handed_over_def)
next
  fix x
  assume x: "sv_submitted t = sv_submitted s @ [x]" "wk_batches (sv_worker t) = wk_batches (sv_worker s)"
  have "handed_over tag t = handed_over tag s" using x by (simp add: handed_over_def)
  then have "promise_of tag t = owe (tag x) (promise_of tag s)"
    using x add_mset_diff_sub [OF handed_over_submitted [OF inv]]
    by (simp add: promise_of_def owe_def)
  then show ?thesis by (simp add: promise_step.owe)
next
  fix b
  assume b: "sv_submitted t = sv_submitted s" "wk_batches (sv_worker t) = wk_batches (sv_worker s) @ [b]"
  let ?xs = "map (tag \<circ> cm_caller_context) b"
  have eq: "promise_of tag t = settle ?xs (promise_of tag s)"
    using b by (simp add: promise_of_def handed_over_def settle_def diff_diff_add)
  have "mset ?xs + mset (concat (handed_over tag s)) \<subseteq># mset (map tag (sv_submitted s))"
    using handed_over_submitted [OF inv'] b by (simp add: handed_over_def add.commute)
  then have "mset ?xs \<subseteq># pr_owed (promise_of tag s)"
    using subset_mset.le_diff_conv2 [OF handed_over_submitted [OF inv]] by (simp add: promise_of_def)
  then show ?thesis unfolding eq by (simp add: promise_step.settle)
qed

lemma promise_of_init: "service_init s \<Longrightarrow> promise_init (promise_of tag s)"
  by (auto simp: service_init_def promise_init_def promise_of_def handed_over_def service_new_def worker_new_def)

lemma submit_effect:
  assumes inv: "sinv tag s"
  obtains (refused) "submit request s = (Inl request, s)"
  | (taken) t where "submit request s = (Inr (), t)" "sv_submitted t = sv_submitted s @ [tr_caller_context request]"
      "wk_batches (sv_worker t) = wk_batches (sv_worker s)" "sinv tag t"
proof (cases "sv_sender s")
  case False
  then show ?thesis using refused by (simp add: submit_def)
next
  case True
  then have "sv_mode s \<noteq> Gone" using sinv_parts(4) [OF inv] by auto
  then have run: "fst (submit request s) = Inr ()"
    "sv_submitted (snd (submit request s)) = sv_submitted s @ [tr_caller_context request]"
    "wk_batches (sv_worker (snd (submit request s))) = wk_batches (sv_worker s)"
    using True by (simp_all add: submit_def send_message_def add_outstanding_def)
  have "submit request s = (Inr (), snd (submit request s))"
    by (rule prod_eqI) (simp_all add: run)
  then show ?thesis using taken run sinv_submit [OF inv] by blast
qed

text \<open>What the steps of callers and worker do to what is owed.\<close>

lemma new_batches:
  assumes "service_step C s t" "sinv tag s" "sv_submitted t = sv_submitted s"
  obtains new where "wk_batches (sv_worker t) = wk_batches (sv_worker s) @ new"
  using step_effect [OF assms(1,2)] assms(3) by (auto simp: quiet_step_def)

lemma owed_after_batches:
  assumes "sinv tag t" "sv_submitted t = sv_submitted s"
    and "wk_batches (sv_worker t) = wk_batches (sv_worker s) @ new"
  shows "pr_owed (promise_of tag s) = pr_owed (promise_of tag t) + mset (map (tag \<circ> cm_caller_context) (concat new))"
proof -
  let ?b = "mset (map (tag \<circ> cm_caller_context) (concat new))"
  have h: "mset (concat (handed_over tag t)) = mset (concat (handed_over tag s)) + ?b"
    using assms(3) by (simp add: handed_over_def map_concat mset_concat)
  have sub: "mset (concat (handed_over tag s)) + ?b \<subseteq># mset (map tag (sv_submitted s))"
    using handed_over_submitted [OF assms(1)] assms(2) unfolding h by simp
  have "mset (concat (handed_over tag s)) \<subseteq># mset (map tag (sv_submitted s))"
    by (rule subset_mset.order_trans [OF mset_subset_eq_add_left sub])
  then have "?b \<subseteq># mset (map tag (sv_submitted s)) - mset (concat (handed_over tag s))"
    using sub by (simp add: subset_mset.le_diff_conv2 add.commute)
  then have "mset (map tag (sv_submitted s)) - mset (concat (handed_over tag s))
      = mset (map tag (sv_submitted s)) - mset (concat (handed_over tag s)) - ?b + ?b"
    by (rule subset_mset.diff_add [symmetric])
  then show ?thesis
    unfolding promise_of_def promise.select_convs h assms(2) diff_diff_add .
qed

lemma owed_after_submit:
  assumes "sinv tag s" "sv_submitted t = sv_submitted s @ [x]"
    and "wk_batches (sv_worker t) = wk_batches (sv_worker s)"
  shows "pr_owed (promise_of tag t) = add_mset (tag x) (pr_owed (promise_of tag s))"
proof -
  have "handed_over tag t = handed_over tag s" using assms(3) by (simp add: handed_over_def)
  then show ?thesis
    using assms(2) add_mset_diff_sub [OF handed_over_submitted [OF assms(1)]] by (simp add: promise_of_def)
qed

lemma owed_initially: "service_init s \<Longrightarrow> pr_owed (promise_of tag s) = {#}"
  using promise_of_init [of s tag] by (simp add: promise_init_def)

sublocale worker_env \<subseteq> promised: refinement service_init "service_step C" "sinv tag" promise_init
    promise_step "promise_of tag"
proof unfold_locales
  fix s t assume "sinv tag s" "service_step C s t"
  then show "promise_of tag t = promise_of tag s \<or> promise_step (promise_of tag s) (promise_of tag t)"
    using promise_of_step [of tag s t C] sinv_step by blast
qed (rule promise_of_init)

context worker_env
begin

lemma history_of_promise:
  "reachable service_init (service_step C) s \<Longrightarrow> reachable promise_init promise_step (promise_of tag s)"
  by (rule promised.reachable_abs)

end

text \<open>
  C11. The service refines its promise. Every step of callers, worker, pool threads and reclaims,
  from any reachable state, is invisible, or makes one more context owed, or settles in one call of
  the completion hook a batch of contexts that were owed; so the history of batches is a history
  of the specification.
\<close>

theorem service_refines_its_promise:
  assumes "environment_ok C tag" "reachable service_init (service_step C) s"
  shows "reachable promise_init promise_step (promise_of tag s)
    \<and> (service_step C s t \<longrightarrow>
        promise_of tag t = promise_of tag s \<or> promise_step (promise_of tag s) (promise_of tag t))"
proof -
  have env: "worker_env C tag" using assms(1) by unfold_locales (auto simp: environment_ok_def)
  have "reachable promise_init promise_step (promise_of tag s)"
    by (rule worker_env.history_of_promise [OF env assms(2)])
  moreover have "sinv tag s" by (rule reachable_sinv [OF assms])
  ultimately show ?thesis
    using promise_of_step [of tag s t C] worker_env.sinv_step [OF env] by blast
qed

text \<open>The job of the sample run settles the transfer it finishes.\<close>

theorem service_refines_its_promise_witness:
  "promise_step (promise_of (\<lambda>_. ()) sample_parked) (promise_of (\<lambda>_. ()) sample_done)"
proof -
  have "service_step (loopback_config True) sample_parked sample_done"
    unfolding sample_done_def by (rule step_job) simp
  then have "promise_of (\<lambda>_. ()) sample_done = promise_of (\<lambda>_. ()) sample_parked
      \<or> promise_step (promise_of (\<lambda>_. ()) sample_parked) (promise_of (\<lambda>_. ()) sample_done)"
    using service_refines_its_promise [OF loopback_environment sample_parked_reachable] by blast
  moreover have "pr_settled (promise_of (\<lambda>_. ()) sample_done) \<noteq> pr_settled (promise_of (\<lambda>_. ()) sample_parked)"
    by (simp add: promise_of_def handed_over_def sample_done_def run_job_def run_crc_job_def split_def Let_def)
  ultimately show ?thesis by auto
qed

end
