(* ===== verification/Asynchronous.thy ===== *)
theory Asynchronous
  imports Service_Refinement
begin

text \<open>
  \<open>asynchronous.rs\<close>: the service whose completion hook resolves futures. Each submitted context
  travels with a shared cell; the future and the hook meet in the cell, under its mutex. The
  system is the service of theory \<open>Service\<close> on wrapped contexts, the cells, the calls of
  \<open>complete_batch\<close> in progress (on the worker's thread and on the pool's) and the futures. A hook
  advances by the parts of \<open>deliver\<close> between which other threads can run: the critical section,
  the drop of its reference to the cell, the wake-up. A waker is the number of the task it wakes.
  \<open>as_resolved\<close> and \<open>as_discarded\<close> are ghosts: what polls returned and which contexts were dropped
  with an abandoned cell.
\<close>

section \<open>The cell, and the contexts that carry it\<close>

type_synonym waker = nat
type_synonym outcome = "(dma_error, transfer_done) result"

record 'u cell =
  ce_outcome :: "(outcome \<times> 'u) option"
  ce_waker :: "waker option"

record 'u awaited =
  aw_user :: 'u
  aw_cell :: arc_id

definition awaited_operands :: "'u operands \<Rightarrow> 'u awaited operands" where
  "awaited_operands ops =
     \<lparr>op_source = (\<lambda>a. op_source ops (aw_user a)),
      op_allocate = (\<lambda>a len. let (slice, user) = op_allocate ops (aw_user a) len in (slice, a\<lparr>aw_user := user\<rparr>)),
      op_cacheable_span = (\<lambda>l a. op_cacheable_span ops l (aw_user a))\<rparr>"

text \<open>The settings of a worker, moved onto the wrapped contexts.\<close>

definition awaited_config :: "'u config \<Rightarrow> 'u awaited config" where
  "awaited_config C = \<lparr>cf_fabric = cf_fabric C, cf_operands = awaited_operands (cf_operands C),
     cf_box_alloc = cf_box_alloc C, cf_quiesce_writes = cf_quiesce_writes C,
     cf_progress_deadline = cf_progress_deadline C, cf_cap = cf_cap C, cf_landing = cf_landing C\<rparr>"

definition map_context :: "('a \<Rightarrow> 'b) \<Rightarrow> 'a transfer_request \<Rightarrow> 'b transfer_request" where
  "map_context f request =
     \<lparr>tr_client_id = tr_client_id request, tr_peer_address = tr_peer_address request,
      tr_remote_key = tr_remote_key request, tr_remote_address = tr_remote_address request,
      tr_direction = tr_direction request, tr_want_checksum = tr_want_checksum request,
      tr_caller_context = f (tr_caller_context request)\<rparr>"

text \<open>A write through the mutex.\<close>

definition set_cell :: "arc_id \<Rightarrow> 'a \<Rightarrow> 'a arcs \<Rightarrow> 'a arcs" where
  "set_cell i v h =
     (case map_of (cells h) i of
        None \<Rightarrow> h
      | Some (_, n) \<Rightarrow> h\<lparr>cells := AList.update i (v, n) (cells h)\<rparr>)"

text \<open>The drop of a reference; the last one drops the outcome in the cell, and its context.\<close>

definition drop_cell :: "arc_id \<Rightarrow> 'u cell arcs \<Rightarrow> 'u list \<times> 'u cell arcs" where
  "drop_cell i h =
     (case arc_drop i h of
        (None, h') \<Rightarrow> ([], h')
      | (Some c, h') \<Rightarrow> (case ce_outcome c of None \<Rightarrow> [] | Some (_, user) \<Rightarrow> [user], h'))"

section \<open>The future\<close>

datatype 'u poll = PollReady outcome 'u | PollPending

definition poll :: "waker \<Rightarrow> arc_id \<Rightarrow> 'u cell arcs \<Rightarrow> 'u poll \<times> 'u cell arcs" where
  "poll waker i h =
     (case arc_value h i of
        None \<Rightarrow> (PollPending, h)
      | Some cell \<Rightarrow>
          (case ce_outcome cell of
             Some (outcome, user) \<Rightarrow> (PollReady outcome user, set_cell i (cell\<lparr>ce_outcome := None\<rparr>) h)
           | None \<Rightarrow>
               (PollPending,
                if ce_waker cell = Some waker then h else set_cell i (cell\<lparr>ce_waker := Some waker\<rparr>) h)))"

definition transfer_drop :: "arc_id \<Rightarrow> 'u cell arcs \<Rightarrow> 'u list \<times> 'u cell arcs" where
  "transfer_drop i h =
     drop_cell i (case arc_value h i of
                    None \<Rightarrow> h
                  | Some cell \<Rightarrow> set_cell i (cell\<lparr>ce_waker := None\<rparr>) h)"

section \<open>The system\<close>

text \<open>Where a call of \<open>complete_batch\<close> is: between two completions, or inside \<open>deliver\<close>.\<close>

datatype delivery = Idle | Filled arc_id "waker option" | Waking waker

type_synonym 'u hook = "'u awaited completion list \<times> delivery"

text \<open>
  A future as its task sees it: to be polled; polled, without a wake-up since; resolved but not
  yet dropped; dropped.
\<close>

datatype future = Runnable | Sleeping waker | Resolved | Given_up

record 'u async =
  as_service :: "'u awaited service"
  as_cells :: "'u cell arcs"
  as_hooks :: "'u hook list"
  as_futures :: "arc_id \<Rightarrow> future option"
  as_resolved :: "(arc_id \<times> outcome \<times> 'u) list"
  as_discarded :: "(arc_id \<times> 'u) list"

definition transfer ::
  "'u transfer_request \<Rightarrow> 'u async \<Rightarrow> ('u transfer_request, arc_id) result \<times> 'u async" where
  "transfer request S =
     (let (cell, h1) = arc_new \<lparr>ce_outcome = None, ce_waker = None\<rparr> (as_cells S);
          h2 = arc_clone cell h1
      in case submit (map_context (\<lambda>user. \<lparr>aw_user = user, aw_cell = cell\<rparr>) request) (as_service S) of
           (Inr _, s) \<Rightarrow>
             (Inr cell, S\<lparr>as_service := s, as_cells := h2, as_futures := (as_futures S)(cell \<mapsto> Runnable)\<rparr>)
         | (Inl refused, s) \<Rightarrow>
             (Inl (map_context aw_user refused),
              S\<lparr>as_service := s, as_cells := snd (drop_cell cell (snd (drop_cell cell h2)))\<rparr>))"

text \<open>The parts of \<open>deliver\<close>.\<close>

definition deliver_fill :: "'u awaited completion \<Rightarrow> 'u cell arcs \<Rightarrow> waker option \<times> 'u cell arcs" where
  "deliver_fill completion h =
     (let a = cm_caller_context completion
      in case arc_value h (aw_cell a) of
           None \<Rightarrow> (None, h)
         | Some cell \<Rightarrow>
             (ce_waker cell,
              set_cell (aw_cell a) \<lparr>ce_outcome = Some (cm_outcome completion, aw_user a), ce_waker = None\<rparr> h))"

definition wake :: "waker \<Rightarrow> (arc_id \<Rightarrow> future option) \<Rightarrow> arc_id \<Rightarrow> future option" where
  "wake waker fs i = (if fs i = Some (Sleeping waker) then Some Runnable else fs i)"

text \<open>One part of the call \<open>k\<close> of \<open>complete_batch\<close>.\<close>

definition run_hook :: "nat \<Rightarrow> 'u async \<Rightarrow> 'u async" where
  "run_hook k S =
     (case as_hooks S ! k of
        ([], Idle) \<Rightarrow> S
      | (c # cs, Idle) \<Rightarrow>
          (let (waker, h) = deliver_fill c (as_cells S)
           in S\<lparr>as_cells := h, as_hooks := (as_hooks S)[k := (cs, Filled (aw_cell (cm_caller_context c)) waker)]\<rparr>)
      | (cs, Filled i waker) \<Rightarrow>
          (let (dropped, h) = drop_cell i (as_cells S)
           in S\<lparr>as_cells := h, as_discarded := as_discarded S @ map (Pair i) dropped,
                as_hooks := (as_hooks S)[k := (cs, case waker of None \<Rightarrow> Idle | Some w \<Rightarrow> Waking w)]\<rparr>)
      | (cs, Waking w) \<Rightarrow>
          S\<lparr>as_futures := wake w (as_futures S), as_hooks := (as_hooks S)[k := (cs, Idle)]\<rparr>)"

definition run_poll :: "waker \<Rightarrow> arc_id \<Rightarrow> 'u async \<Rightarrow> 'u async" where
  "run_poll waker i S =
     (case poll waker i (as_cells S) of
        (PollReady outcome user, h) \<Rightarrow>
          S\<lparr>as_cells := h, as_futures := (as_futures S)(i \<mapsto> Resolved),
            as_resolved := as_resolved S @ [(i, outcome, user)]\<rparr>
      | (PollPending, h) \<Rightarrow> S\<lparr>as_cells := h, as_futures := (as_futures S)(i \<mapsto> Sleeping waker)\<rparr>)"

definition run_drop :: "arc_id \<Rightarrow> 'u async \<Rightarrow> 'u async" where
  "run_drop i S =
     (let (dropped, h) = transfer_drop i (as_cells S)
      in S\<lparr>as_cells := h, as_futures := (as_futures S)(i \<mapsto> Given_up),
           as_discarded := as_discarded S @ map (Pair i) dropped\<rparr>)"

text \<open>A step of the service inside; a batch it hands over starts a call of the hook.\<close>

definition run_inner :: "'u awaited service \<Rightarrow> 'u async \<Rightarrow> 'u async" where
  "run_inner t S =
     S\<lparr>as_service := t,
       as_hooks := as_hooks S @ map (\<lambda>b. (b, Idle))
         (drop (length (wk_batches (sv_worker (as_service S)))) (wk_batches (sv_worker t)))\<rparr>"

inductive async_step :: "'u config \<Rightarrow> 'u async \<Rightarrow> 'u async \<Rightarrow> bool" for C :: "'u config" where
  transfer: "transfer request S = (r, S') \<Longrightarrow> async_step C S S'"
| inner: "service_step (awaited_config C) (as_service S) t \<Longrightarrow>
    sv_submitted t = sv_submitted (as_service S) \<Longrightarrow> async_step C S (run_inner t S)"
| hook: "k < length (as_hooks S) \<Longrightarrow> async_step C S (run_hook k S)"
| poll: "as_futures S i \<in> {Some Runnable, Some (Sleeping w)} \<Longrightarrow> async_step C S (run_poll waker i S)"
| drop: "as_futures S i \<notin> {None, Some Given_up} \<Longrightarrow> async_step C S (run_drop i S)"

inductive_cases async_stepE: "async_step C S T"

definition async_new :: "'u awaited service \<Rightarrow> 'u async" where
  "async_new s = \<lparr>as_service = s, as_cells = no_arcs, as_hooks = [], as_futures = (\<lambda>_. None),
     as_resolved = [], as_discarded = []\<rparr>"

definition async_init :: "'u async \<Rightarrow> bool" where
  "async_init S \<longleftrightarrow> (\<exists>s. service_init s \<and> S = async_new s)"

section \<open>What the operations do to a cell\<close>

lemma arcs_wf_set_cell [simp, intro]: "arcs_wf h \<Longrightarrow> arcs_wf (set_cell i v h)"
  by (auto simp: set_cell_def intro!: arcs_wf_update dest: arcs_wf_lookup split: option.splits)

lemma strong_count_set_cell [simp]: "strong_count (set_cell i v h) = strong_count h"
  by (rule ext) (simp add: set_cell_def strong_count_def update_conv' split: option.splits prod.splits)

lemma next_arc_set_cell [simp]: "next_arc (set_cell i v h) = next_arc h"
  by (simp add: set_cell_def split: option.splits prod.splits)

lemma arc_value_set_cell:
  "arcs_wf h \<Longrightarrow> arc_value (set_cell j v h) i = (if i = j \<and> 0 < strong_count h j then Some v else arc_value h i)"
  by (auto simp: set_cell_def arc_value_def strong_count_def update_conv' dest: arcs_wf_lookup
      split: option.splits prod.splits)

lemma arc_value_alive: "arcs_wf h \<Longrightarrow> 0 < strong_count h i \<longleftrightarrow> (\<exists>v. arc_value h i = Some v)"
  by (auto simp: strong_count_pos_iff arc_value_def)

lemma arc_value_clone_any [simp]: "arc_value (arc_clone j h) i = arc_value h i"
  by (simp add: arc_clone_def arc_value_def update_conv' split: option.splits prod.splits)

lemma arc_value_drop_iff:
  "arc_value (snd (arc_drop j h)) i = (if i = j \<and> strong_count h j \<le> 1 then None else arc_value h i)"
  by (auto simp: arc_drop_def arc_value_def strong_count_def update_conv' delete_conv' split: option.splits)

lemma arc_drop_value:
  "fst (arc_drop j h) = (if strong_count h j \<le> 1 then arc_value h j else None)"
  by (auto simp: arc_drop_def arc_value_def strong_count_def split: option.splits)

text \<open>Whether a cell holds an outcome, as a number.\<close>

definition ready :: "'u cell arcs \<Rightarrow> arc_id \<Rightarrow> nat" where
  "ready h i = (case arc_value h i of Some c \<Rightarrow> if ce_outcome c = None then 0 else 1 | None \<Rightarrow> 0)"

lemma ready_le: "ready h i \<le> 1"
  by (simp add: ready_def split: option.splits)

lemma drop_cell_snd: "snd (drop_cell i h) = snd (arc_drop i h)"
  by (simp add: drop_cell_def split: prod.splits option.splits)

lemma drop_cell_length:
  "length (fst (drop_cell i h)) = (if strong_count h i \<le> 1 then ready h i else 0)"
proof -
  obtain v h' where run: "arc_drop i h = (v, h')" by (cases "arc_drop i h")
  then have "v = (if strong_count h i \<le> 1 then arc_value h i else None)" using arc_drop_value [of i h] by simp
  then show ?thesis by (cases "arc_value h i") (auto simp: drop_cell_def run ready_def)
qed

lemma ready_drop:
  "ready (snd (drop_cell j h)) i = (if i = j \<and> strong_count h j \<le> 1 then 0 else ready h i)"
  by (simp add: ready_def drop_cell_snd arc_value_drop_iff)

lemma fresh_cell: "arcs_wf h \<Longrightarrow> arc_value h (next_arc h) = None \<and> strong_count h (next_arc h) = 0"
  using arcs_wf_fresh [of h] by (simp add: arc_value_def strong_count_def)

section \<open>Where a transfer is\<close>

text \<open>
  The cell of each transfer is in exactly one place: owed by the service, in a batch that a hook
  is going through, or delivered; a delivered outcome is in the cell, or was returned by a poll, or
  was dropped. Each place is counted per cell.
\<close>

definition owed :: "'u async \<Rightarrow> arc_id \<Rightarrow> nat" where
  "owed S i = count (pr_owed (promise_of aw_cell (as_service S))) i"

definition taken :: "'u async \<Rightarrow> arc_id \<Rightarrow> nat" where
  "taken S i = count (mset (map aw_cell (sv_submitted (as_service S)))) i"

definition handed :: "'u async \<Rightarrow> arc_id \<Rightarrow> nat" where
  "handed S i = count (mset (concat (handed_over aw_cell (as_service S)))) i"

definition left_in :: "arc_id \<Rightarrow> 'u hook \<Rightarrow> nat" where
  "left_in i hk = count (mset (map (aw_cell \<circ> cm_caller_context) (fst hk))) i"

definition filled_in :: "arc_id \<Rightarrow> 'u hook \<Rightarrow> nat" where
  "filled_in i hk = (case snd hk of Filled j _ \<Rightarrow> if i = j then 1 else 0 | _ \<Rightarrow> 0)"

definition total :: "('u hook \<Rightarrow> nat) \<Rightarrow> 'u async \<Rightarrow> nat" where
  "total f S = sum_list (map f (as_hooks S))"

definition resolved :: "'u async \<Rightarrow> arc_id \<Rightarrow> nat" where
  "resolved S i = count (mset (map fst (as_resolved S))) i"

definition discarded :: "'u async \<Rightarrow> arc_id \<Rightarrow> nat" where
  "discarded S i = count (mset (map fst (as_discarded S))) i"

definition has_handle :: "future option \<Rightarrow> nat" where
  "has_handle f = (if f \<in> {None, Some Given_up} then 0 else 1)"

text \<open>A wake-up of the waker is still to come.\<close>

fun will_wake :: "waker \<Rightarrow> delivery \<Rightarrow> bool" where
  "will_wake w (Waking v) = (w = v)"
| "will_wake w (Filled _ v) = (v = Some w)"
| "will_wake w Idle = False"

definition waking :: "'u async \<Rightarrow> waker \<Rightarrow> bool" where
  "waking S w \<longleftrightarrow> (\<exists>hk \<in> set (as_hooks S). will_wake w (snd hk))"

text \<open>The state of one cell: its counts, its references, and what its future may be.\<close>

definition cell_ok :: "'u async \<Rightarrow> arc_id \<Rightarrow> bool" where
  "cell_ok S i \<longleftrightarrow>
     taken S i = (if as_futures S i = None then 0 else 1)
   \<and> handed S i = total (left_in i) S + ready (as_cells S) i + resolved S i + discarded S i
   \<and> strong_count (as_cells S) i
       = has_handle (as_futures S i) + owed S i + total (left_in i) S + total (filled_in i) S
   \<and> (0 < resolved S i \<longrightarrow> as_futures S i \<in> {Some Resolved, Some Given_up})
   \<and> (as_futures S i = Some Resolved \<longrightarrow> 0 < resolved S i)
   \<and> (0 < discarded S i \<longrightarrow> as_futures S i = Some Given_up)
   \<and> (\<forall>w. as_futures S i = Some (Sleeping w) \<longrightarrow>
        (if 0 < ready (as_cells S) i then waking S w
         else map_option ce_waker (arc_value (as_cells S) i) = Some (Some w)))"

definition async_inv :: "'u async \<Rightarrow> bool" where
  "async_inv S \<longleftrightarrow> sinv aw_cell (as_service S) \<and> arcs_wf (as_cells S)
     \<and> (\<forall>i. as_futures S i \<noteq> None \<longrightarrow> i < next_arc (as_cells S)) \<and> (\<forall>i. cell_ok S i)"

lemma taken_split: "sinv aw_cell (as_service S) \<Longrightarrow> taken S i = owed S i + handed S i"
  using mset_subset_eqD handed_over_submitted [of aw_cell "as_service S"]
  by (simp add: taken_def owed_def handed_def promise_of_def count_diff mset_subset_eq_count)

lemma total_update:
  assumes "k < length (as_hooks S)" "as_hooks T = (as_hooks S)[k := hk]"
  shows "total f T + f (as_hooks S ! k) = total f S + f hk"
  using assms sum_list_exchange [of k "as_hooks S" f hk] by (simp add: total_def)

lemma waking_update:
  assumes "as_hooks T = (as_hooks S)[k := hk]" "waking S w"
    and "will_wake w (snd (as_hooks S ! k)) \<Longrightarrow> will_wake w (snd hk)" "k < length (as_hooks S)"
  shows "waking T w"
proof -
  obtain j where j: "j < length (as_hooks S)" "will_wake w (snd (as_hooks S ! j))"
    using assms(2) by (auto simp: waking_def in_set_conv_nth)
  then have "will_wake w (snd (as_hooks T ! j))" "j < length (as_hooks T)"
    using assms by (auto simp: nth_list_update)
  then show ?thesis by (auto simp: waking_def)
qed

section \<open>Every step keeps the accounts\<close>

lemma cell_ok_fresh:
  assumes inv: "async_inv S" and fresh: "next_arc (as_cells S) \<le> i"
  shows "as_futures S i = None" "taken S i = 0" "owed S i = 0" "handed S i = 0" "total (left_in i) S = 0"
    "total (filled_in i) S = 0" "resolved S i = 0" "discarded S i = 0" "arc_value (as_cells S) i = None"
proof -
  have wf: "arcs_wf (as_cells S)" and ok: "cell_ok S i" and sv: "sinv aw_cell (as_service S)"
    using inv by (simp_all add: async_inv_def)
  show f: "as_futures S i = None" using inv fresh by (auto simp: async_inv_def dest: not_le_imp_less)
  show v: "arc_value (as_cells S) i = None"
    using arc_value_alive [OF wf, of i] strong_count_bound [OF wf fresh] by (cases "arc_value (as_cells S) i") auto
  show "taken S i = 0" "owed S i = 0" "handed S i = 0" "total (left_in i) S = 0" "total (filled_in i) S = 0"
    "resolved S i = 0" "discarded S i = 0"
    using ok f taken_split [OF sv, of i] strong_count_bound [OF wf fresh] by (auto simp: cell_ok_def)
qed

lemma cell_pair:
  fixes v :: 'a
  assumes wf: "arcs_wf h"
  defines "n \<equiv> next_arc h"
  defines "h2 \<equiv> arc_clone n (snd (arc_new v h))"
  shows "arcs_wf h2" "next_arc h2 = Suc n" "strong_count h2 i = (if i = n then 2 else strong_count h i)"
    "arc_value h2 i = (if i = n then Some v else arc_value h i)"
    "arcs_wf (snd (arc_drop n (snd (arc_drop n h2))))" "next_arc (snd (arc_drop n (snd (arc_drop n h2)))) = Suc n"
    "strong_count (snd (arc_drop n (snd (arc_drop n h2)))) i = strong_count h i"
    "arc_value (snd (arc_drop n (snd (arc_drop n h2)))) i = arc_value h i"
proof -
  show wf2: "arcs_wf h2" using wf by (simp add: h2_def)
  show n2: "next_arc h2 = Suc n" by (simp add: h2_def n_def arc_new_def)
  show sc: "strong_count h2 i = (if i = n then 2 else strong_count h i)" for i
    using wf by (simp add: h2_def n_def strong_count_clone strong_count_new)
  show val: "arc_value h2 i = (if i = n then Some v else arc_value h i)"
    by (simp add: h2_def n_def arc_value_new)
  show "arcs_wf (snd (arc_drop n (snd (arc_drop n h2))))" using wf2 by simp
  show "next_arc (snd (arc_drop n (snd (arc_drop n h2)))) = Suc n" using n2 by simp
  show "strong_count (snd (arc_drop n (snd (arc_drop n h2)))) i = strong_count h i"
    using wf2 sc fresh_cell [OF wf] by (simp add: strong_count_drop n_def)
  show "arc_value (snd (arc_drop n (snd (arc_drop n h2)))) i = arc_value h i"
    using wf2 sc fresh_cell [OF wf] val by (simp add: arc_value_drop_iff strong_count_drop n_def)
qed

lemma inv_transfer:
  assumes inv: "async_inv S" and run: "transfer request S = (r, T)"
  shows "async_inv T"
proof -
  let ?h = "as_cells S" and ?v = "\<lparr>ce_outcome = None, ce_waker = None\<rparr>"
  let ?n = "next_arc ?h"
  let ?h2 = "arc_clone ?n (snd (arc_new ?v ?h))"
  let ?req = "map_context (\<lambda>user. \<lparr>aw_user = user, aw_cell = ?n\<rparr>) request"
  have sv: "sinv aw_cell (as_service S)" and wf: "arcs_wf ?h" and ok: "cell_ok S i" for i
    using inv by (simp_all add: async_inv_def)
  note fresh = cell_ok_fresh [OF inv order_refl]
  note pair = cell_pair [OF wf, of ?v]
  have new: "arc_new ?v ?h = (?n, snd (arc_new ?v ?h))" by (simp add: arc_new_def)
  show ?thesis
  proof (cases rule: submit_effect [OF sv, of ?req, case_names refused taken])
    case refused
    then have T: "T = S\<lparr>as_cells := snd (arc_drop ?n (snd (arc_drop ?n ?h2)))\<rparr>"
      using run new by (auto simp: transfer_def Let_def drop_cell_snd split: prod.splits)
    have same: "total f T = total f S" "waking T w = waking S w" "resolved T i = resolved S i"
      "discarded T i = discarded S i" "taken T i = taken S i" "handed T i = handed S i" "owed T i = owed S i"
      "as_futures T i = as_futures S i" for f w i
      by (simp_all add: T total_def waking_def resolved_def discarded_def taken_def handed_def owed_def)
    have "strong_count (as_cells T) i = strong_count ?h i" "arc_value (as_cells T) i = arc_value ?h i" for i
      by (simp_all add: T pair)
    then have "cell_ok T i" for i
      using ok [of i] unfolding cell_ok_def same ready_def by simp
    moreover have "as_futures T i \<noteq> None \<longrightarrow> i < next_arc (as_cells T)" for i
      using inv pair by (auto simp: T async_inv_def less_Suc_eq)
    ultimately show ?thesis using sv pair by (simp add: async_inv_def T)
  next
    case (taken t)
    then have T: "T = S\<lparr>as_service := t, as_cells := ?h2, as_futures := (as_futures S)(?n \<mapsto> Runnable)\<rparr>"
      using run new by (auto simp: transfer_def Let_def split: prod.splits)
    have tk: "taken T i = taken S i + (if i = ?n then 1 else 0)" for i
      by (simp add: taken_def T taken map_context_def)
    have hd: "handed T i = handed S i" for i
      by (simp add: handed_def T handed_over_def taken)
    have ow: "owed T i = owed S i + (if i = ?n then 1 else 0)" for i
      using taken_split [OF sv, of i] taken_split [of T i] taken(4) tk [of i] hd [of i] by (simp add: T)
    have same: "total f T = total f S" "waking T w = waking S w" "resolved T i = resolved S i"
      "discarded T i = discarded S i" for f w i
      by (simp_all add: T total_def waking_def resolved_def discarded_def)
    have cells: "strong_count (as_cells T) i = (if i = ?n then 2 else strong_count ?h i)"
      "arc_value (as_cells T) i = (if i = ?n then Some ?v else arc_value ?h i)" for i
      by (simp_all add: T pair arc_value_new)
    have "cell_ok T i" for i
    proof (cases "i = ?n")
      case True
      have "as_futures T i = Some Runnable" by (simp add: T True)
      then show ?thesis
        unfolding cell_ok_def tk hd ow same ready_def cells by (simp add: True fresh has_handle_def)
    next
      case False
      then have "as_futures T i = as_futures S i" by (simp add: T)
      then show ?thesis
        using ok [of i] False unfolding cell_ok_def tk hd ow same ready_def cells by simp
    qed
    moreover have "as_futures T i \<noteq> None \<longrightarrow> i < next_arc (as_cells T)" for i
      using inv pair by (auto simp: T async_inv_def less_Suc_eq)
    ultimately show ?thesis using pair taken by (simp add: async_inv_def T)
  qed
qed

lemma inv_inner:
  assumes inv: "async_inv S" and inv': "sinv aw_cell t"
    and step: "service_step C (as_service S) t" and sub: "sv_submitted t = sv_submitted (as_service S)"
  shows "async_inv (run_inner t S)"
proof -
  let ?T = "run_inner t S" and ?old = "wk_batches (sv_worker (as_service S))"
  have sv: "sinv aw_cell (as_service S)" using inv by (simp add: async_inv_def)
  obtain new where new: "wk_batches (sv_worker t) = ?old @ new"
    using step_effect [OF step sv] sub by (auto simp: quiet_step_def)
  have hooks: "as_hooks ?T = as_hooks S @ map (\<lambda>b. (b, Idle)) new" by (simp add: run_inner_def new)
  have tk: "taken ?T i = taken S i" for i by (simp add: taken_def run_inner_def sub)
  have left: "total (left_in i) ?T = total (left_in i) S
      + count (mset (map (aw_cell \<circ> cm_caller_context) (concat new))) i" for i
    by (simp add: total_def hooks, induction new) (simp_all add: left_in_def comp_def)
  have hd: "handed ?T i = handed S i + count (mset (map (aw_cell \<circ> cm_caller_context) (concat new))) i" for i
    by (simp add: handed_def handed_over_def run_inner_def new map_concat mset_concat)
  have fill: "total (filled_in i) ?T = total (filled_in i) S" for i
    by (simp add: total_def hooks, induction new) (simp_all add: filled_in_def)
  have wk: "waking ?T w = waking S w" for w by (auto simp: waking_def hooks)
  have "owed S i + handed S i = owed ?T i + handed ?T i" for i
    using taken_split [OF sv, of i] taken_split [of ?T i] inv' tk [of i] by (simp add: run_inner_def)
  moreover have "resolved ?T i = resolved S i" "discarded ?T i = discarded S i" "as_cells ?T = as_cells S"
    "as_futures ?T = as_futures S" for i
    by (simp_all add: resolved_def discarded_def run_inner_def)
  moreover have "cell_ok S i" for i using inv by (simp add: async_inv_def)
  ultimately have "cell_ok ?T i" for i
    unfolding cell_ok_def tk hd left fill wk by (smt (verit) add.assoc add.commute add_left_cancel)
  then show ?thesis using inv inv' by (simp add: async_inv_def run_inner_def)
qed

text \<open>The other steps leave the service alone.\<close>

lemma same_service:
  assumes "as_service T = as_service S"
  shows "taken T i = taken S i" "handed T i = handed S i" "owed T i = owed S i"
  using assms by (simp_all add: taken_def handed_def owed_def)

lemma cell_bounds:
  assumes "async_inv S"
  shows "owed S i + total (left_in i) S + ready (as_cells S) i + resolved S i + discarded S i \<le> 1"
proof -
  have "cell_ok S i" "sinv aw_cell (as_service S)" using assms by (simp_all add: async_inv_def)
  then show ?thesis using taken_split [of S i] by (auto simp: cell_ok_def split: if_splits)
qed

lemma left_total: "k < length (as_hooks S) \<Longrightarrow> left_in i (as_hooks S ! k) \<le> total (left_in i) S"
  unfolding total_def by (rule sum_list_member)

lemma filled_total: "k < length (as_hooks S) \<Longrightarrow> filled_in i (as_hooks S ! k) \<le> total (filled_in i) S"
  unfolding total_def by (rule sum_list_member)

lemma inv_fill:
  assumes inv: "async_inv S" and k: "k < length (as_hooks S)" and hk: "as_hooks S ! k = (c # cs, Idle)"
  shows "async_inv (run_hook k S)"
proof -
  let ?T = "run_hook k S" and ?h = "as_cells S" and ?j = "aw_cell (cm_caller_context c)"
  have wf: "arcs_wf ?h" and ok: "cell_ok S i" for i using inv by (simp_all add: async_inv_def)
  have "0 < total (left_in ?j) S" using left_total [OF k, of ?j] hk by (simp add: left_in_def)
  then have alive: "0 < strong_count ?h ?j" and one: "total (left_in ?j) S = 1" "ready ?h ?j = 0"
    "resolved S ?j = 0" "discarded S ?j = 0"
    using ok [of ?j] cell_bounds [OF inv, of ?j] by (auto simp: cell_ok_def)
  obtain cell where cell: "arc_value ?h ?j = Some cell" using alive arc_value_alive [OF wf] by blast
  let ?new = "\<lparr>ce_outcome = Some (cm_outcome c, aw_user (cm_caller_context c)), ce_waker = None\<rparr>"
  let ?hk = "(cs, Filled ?j (ce_waker cell))"
  have T: "?T = S\<lparr>as_cells := set_cell ?j ?new ?h, as_hooks := (as_hooks S)[k := ?hk]\<rparr>"
    by (simp add: run_hook_def hk deliver_fill_def Let_def cell)
  have hooks: "as_hooks ?T = (as_hooks S)[k := ?hk]" by (simp add: T)
  have left: "total (left_in i) ?T + (if i = ?j then 1 else 0) = total (left_in i) S" for i
    using total_update [OF k hooks, of "left_in i"] by (auto simp: hk left_in_def split: if_splits)
  have fill: "total (filled_in i) ?T = total (filled_in i) S + (if i = ?j then 1 else 0)" for i
    using total_update [OF k hooks, of "filled_in i"] by (simp add: hk filled_in_def)
  have val: "arc_value (as_cells ?T) i = (if i = ?j then Some ?new else arc_value ?h i)" for i
    by (simp add: T arc_value_set_cell [OF wf] alive)
  have rdy: "ready (as_cells ?T) i = (if i = ?j then 1 else ready ?h i)" for i
    by (simp add: ready_def val)
  have same: "resolved ?T i = resolved S i" "discarded ?T i = discarded S i" "as_futures ?T = as_futures S"
    "strong_count (as_cells ?T) = strong_count ?h" for i
    by (simp_all add: T resolved_def discarded_def)
  have sv: "as_service ?T = as_service S" by (simp add: T)
  have wk: "waking ?T w" if "waking S w" for w
    by (rule waking_update [OF hooks that _ k]) (simp add: hk)
  have "cell_ok ?T i" for i
  proof (cases "i = ?j")
    case True
    have "waking ?T w" if "as_futures S ?j = Some (Sleeping w)" for w
    proof -
      have "ce_waker cell = Some w" using ok [of ?j] that one(2) cell by (auto simp: cell_ok_def)
      then have "?hk \<in> set (as_hooks ?T)" "will_wake w (snd ?hk)" using k by (auto simp: hooks set_update_memI)
      then show ?thesis unfolding waking_def by blast
    qed
    then show ?thesis
      using ok [of ?j] left [of ?j] fill [of ?j] one unfolding cell_ok_def same same_service [OF sv] rdy True by auto
  next
    case False
    then show ?thesis
      using ok [of i] left [of i] fill [of i] wk unfolding cell_ok_def same same_service [OF sv] rdy val by auto
  qed
  then show ?thesis using inv by (simp add: async_inv_def T)
qed

lemma inv_release:
  assumes inv: "async_inv S" and k: "k < length (as_hooks S)" and hk: "as_hooks S ! k = (cs, Filled j waker)"
  shows "async_inv (run_hook k S)"
proof -
  let ?T = "run_hook k S" and ?h = "as_cells S"
  have wf: "arcs_wf ?h" and ok: "cell_ok S i" for i using inv by (simp_all add: async_inv_def)
  let ?hk = "(cs, case waker of None \<Rightarrow> Idle | Some w \<Rightarrow> Waking w)"
  have T: "?T = S\<lparr>as_cells := snd (drop_cell j ?h), as_discarded := as_discarded S @ map (Pair j) (fst (drop_cell j ?h)),
      as_hooks := (as_hooks S)[k := ?hk]\<rparr>"
    by (cases cs) (simp_all add: run_hook_def hk split_def Let_def)
  have hooks: "as_hooks ?T = (as_hooks S)[k := ?hk]" by (simp add: T)
  have "1 \<le> total (filled_in j) S" using filled_total [OF k, of j] by (simp add: hk filled_in_def)
  then have alive: "0 < strong_count ?h j" using ok [of j] by (simp add: cell_ok_def)
  have left: "total (left_in i) ?T = total (left_in i) S" for i
    using total_update [OF k hooks, of "left_in i"] by (simp add: hk left_in_def)
  have fill: "total (filled_in i) ?T + (if i = j then 1 else 0) = total (filled_in i) S" for i
    using total_update [OF k hooks, of "filled_in i"] by (simp add: hk filled_in_def split: option.splits)
  have val: "arc_value (as_cells ?T) i = (if i = j \<and> strong_count ?h j = 1 then None else arc_value ?h i)" for i
    using alive by (auto simp: T drop_cell_snd arc_value_drop_iff)
  have rdy: "ready (as_cells ?T) i = (if i = j \<and> strong_count ?h j = 1 then 0 else ready ?h i)" for i
    by (simp add: ready_def val)
  have sc: "strong_count (as_cells ?T) i = (if i = j then strong_count ?h i - 1 else strong_count ?h i)" for i
    by (simp add: T drop_cell_snd strong_count_drop wf)
  have "map fst (map (Pair j) xs) = replicate (length xs) j" for xs :: "'a list" by (induction xs) auto
  then have disc: "discarded ?T i = discarded S i + (if i = j \<and> strong_count ?h j = 1 then ready ?h j else 0)" for i
    using alive by (auto simp: discarded_def T drop_cell_length comp_def simp del: map_map)
  have same: "resolved ?T i = resolved S i" "as_futures ?T = as_futures S" for i
    by (simp_all add: T resolved_def)
  have sv: "as_service ?T = as_service S" by (simp add: T)
  have wk: "waking ?T w" if "waking S w" for w
    by (rule waking_update [OF hooks that _ k]) (auto simp: hk split: option.splits)
  have "cell_ok ?T i" for i
  proof (cases "i = j \<and> strong_count ?h j = 1")
    case True
    then have "has_handle (as_futures S j) = 0" using ok [of j] \<open>1 \<le> total (filled_in j) S\<close> by (simp add: cell_ok_def)
    then have dead: "as_futures S j \<in> {None, Some Given_up}" by (simp add: has_handle_def split: if_splits)
    have "taken S j = 0 \<Longrightarrow> ready ?h j = 0" using ok [of j] taken_split [of S j] inv
      by (simp add: cell_ok_def async_inv_def)
    then have given: "0 < ready ?h j \<Longrightarrow> as_futures S j = Some Given_up" using ok [of j] dead by (auto simp: cell_ok_def)
    show ?thesis
      using ok [of j] left [of j] fill [of j] True dead given alive
      unfolding cell_ok_def same same_service [OF sv] rdy sc disc by (auto split: if_splits)
  next
    case False
    then show ?thesis
      using ok [of i] left [of i] fill [of i] wk alive unfolding cell_ok_def same same_service [OF sv] rdy val sc disc
      by (auto split: if_splits)
  qed
  moreover have "arcs_wf (as_cells ?T)" "next_arc (as_cells ?T) = next_arc ?h" using wf by (simp_all add: T drop_cell_snd)
  ultimately show ?thesis using inv by (simp add: async_inv_def T)
qed

lemma inv_wake:
  assumes inv: "async_inv S" and k: "k < length (as_hooks S)" and hk: "as_hooks S ! k = (cs, Waking v)"
  shows "async_inv (run_hook k S)"
proof -
  let ?T = "run_hook k S"
  have ok: "cell_ok S i" for i using inv by (simp add: async_inv_def)
  have T: "?T = S\<lparr>as_futures := wake v (as_futures S), as_hooks := (as_hooks S)[k := (cs, Idle)]\<rparr>"
    by (cases cs) (simp_all add: run_hook_def hk)
  have hooks: "as_hooks ?T = (as_hooks S)[k := (cs, Idle)]" by (simp add: T)
  have left: "total (left_in i) ?T = total (left_in i) S" for i
    using total_update [OF k hooks, of "left_in i"] by (simp add: hk left_in_def)
  have fill: "total (filled_in i) ?T = total (filled_in i) S" for i
    using total_update [OF k hooks, of "filled_in i"] by (simp add: hk filled_in_def)
  have same: "resolved ?T i = resolved S i" "discarded ?T i = discarded S i" "as_cells ?T = as_cells S" for i
    by (simp_all add: T resolved_def discarded_def)
  have sv: "as_service ?T = as_service S" by (simp add: T)
  have fut: "as_futures ?T i = (if as_futures S i = Some (Sleeping v) then Some Runnable else as_futures S i)" for i
    by (simp add: T wake_def)
  have wk: "waking ?T w" if "waking S w" "w \<noteq> v" for w
    by (rule waking_update [OF hooks that(1) _ k]) (use that in \<open>simp add: hk\<close>)
  have "cell_ok ?T i" for i
    using ok [of i] unfolding cell_ok_def left fill same same_service [OF sv] fut
    by (auto simp: has_handle_def intro: wk)
  then show ?thesis using inv by (auto simp: async_inv_def T wake_def)
qed

lemma inv_hook: "async_inv S \<Longrightarrow> k < length (as_hooks S) \<Longrightarrow> async_inv (run_hook k S)"
proof -
  assume inv: "async_inv S" and k: "k < length (as_hooks S)"
  obtain cs d where hk: "as_hooks S ! k = (cs, d)" by (cases "as_hooks S ! k")
  show ?thesis
  proof (cases d)
    case Idle
    show ?thesis
    proof (cases cs)
      case Nil
      then show ?thesis using inv hk Idle by (simp add: run_hook_def)
    qed (use inv_fill [OF inv k] hk Idle in simp)
  next
    case (Filled j waker)
    then show ?thesis using inv_release [OF inv k] hk by simp
  next
    case (Waking v)
    then show ?thesis using inv_wake [OF inv k] hk by simp
  qed
qed

lemma hooks_same: "as_hooks T = as_hooks S \<Longrightarrow> total f T = total f S \<and> waking T w = waking S w"
  by (simp add: total_def waking_def)

lemma inv_poll:
  assumes inv: "async_inv S" and live: "as_futures S j \<in> {Some Runnable, Some (Sleeping v)}"
  shows "async_inv (run_poll waker j S)"
proof -
  let ?T = "run_poll waker j S" and ?h = "as_cells S"
  have wf: "arcs_wf ?h" and ok: "cell_ok S i" for i using inv by (simp_all add: async_inv_def)
  have handle: "has_handle (as_futures S j) = 1" using live by (auto simp: has_handle_def)
  then have alive: "0 < strong_count ?h j" using ok [of j] by (simp add: cell_ok_def)
  obtain cell where cell: "arc_value ?h j = Some cell" using alive arc_value_alive [OF wf] by blast
  have none: "resolved S j = 0" "discarded S j = 0" using ok [of j] live by (auto simp: cell_ok_def)
  show ?thesis
  proof (cases "ce_outcome cell")
    case None
    let ?new = "cell\<lparr>ce_waker := Some waker\<rparr>"
    let ?h' = "if ce_waker cell = Some waker then ?h else set_cell j ?new ?h"
    have T: "?T = S\<lparr>as_cells := ?h', as_futures := (as_futures S)(j \<mapsto> Sleeping waker)\<rparr>"
      by (simp add: run_poll_def poll_def cell None)
    have val: "arc_value (as_cells ?T) i = (if i = j then Some ?new else arc_value ?h i)" for i
      by (simp add: T arc_value_set_cell [OF wf] alive cell)
    have rdy: "ready (as_cells ?T) i = ready ?h i" for i by (simp add: ready_def val None cell)
    have "ready ?h j = 0" by (simp add: ready_def cell None)
    have same: "resolved ?T i = resolved S i" "discarded ?T i = discarded S i"
      "strong_count (as_cells ?T) = strong_count ?h" for i
      by (simp_all add: T resolved_def discarded_def)
    have fut: "as_futures ?T i = (if i = j then Some (Sleeping waker) else as_futures S i)" for i by (simp add: T)
    have sv: "as_service ?T = as_service S" and hooks: "as_hooks ?T = as_hooks S" by (simp_all add: T)
    note hs = conjunct1 [OF hooks_same [OF hooks]] conjunct2 [OF hooks_same [OF hooks]]
    have "cell_ok ?T i" for i
      using ok [of i] handle none live \<open>ready ?h j = 0\<close>
      unfolding cell_ok_def same same_service [OF sv] rdy val fut hs
      by (cases "i = j") (auto simp: has_handle_def)
    then show ?thesis using inv live by (auto simp: async_inv_def T)
  next
    case (Some o_u)
    obtain oc user where ou: "o_u = (oc, user)" by (cases o_u)
    let ?new = "cell\<lparr>ce_outcome := None\<rparr>"
    have T: "?T = S\<lparr>as_cells := set_cell j ?new ?h, as_futures := (as_futures S)(j \<mapsto> Resolved),
        as_resolved := as_resolved S @ [(j, oc, user)]\<rparr>"
      by (simp add: run_poll_def poll_def cell Some ou)
    have val: "arc_value (as_cells ?T) i = (if i = j then Some ?new else arc_value ?h i)" for i
      by (simp add: T arc_value_set_cell [OF wf] alive)
    have rdy: "ready (as_cells ?T) i = (if i = j then 0 else ready ?h i)" for i by (simp add: ready_def val)
    have was: "ready ?h j = 1" by (simp add: ready_def cell Some)
    have same: "resolved ?T i = resolved S i + (if i = j then 1 else 0)" "discarded ?T i = discarded S i"
      "strong_count (as_cells ?T) = strong_count ?h" for i
      by (simp_all add: T resolved_def discarded_def)
    have fut: "as_futures ?T i = (if i = j then Some Resolved else as_futures S i)" for i by (simp add: T)
    have sv: "as_service ?T = as_service S" and hooks: "as_hooks ?T = as_hooks S" by (simp_all add: T)
    note hs = conjunct1 [OF hooks_same [OF hooks]] conjunct2 [OF hooks_same [OF hooks]]
    have "cell_ok ?T i" for i
      using ok [of i] handle none live was
      unfolding cell_ok_def same same_service [OF sv] rdy val fut hs
      by (cases "i = j") (auto simp: has_handle_def)
    then show ?thesis using inv live by (auto simp: async_inv_def T)
  qed
qed

lemma inv_drop:
  assumes inv: "async_inv S" and live: "as_futures S j \<notin> {None, Some Given_up}"
  shows "async_inv (run_drop j S)"
proof -
  let ?T = "run_drop j S" and ?h = "as_cells S"
  have wf: "arcs_wf ?h" and ok: "cell_ok S i" for i using inv by (simp_all add: async_inv_def)
  have handle: "has_handle (as_futures S j) = 1" using live by (auto simp: has_handle_def)
  then have alive: "0 < strong_count ?h j" using ok [of j] by (simp add: cell_ok_def)
  obtain cell where cell: "arc_value ?h j = Some cell" using alive arc_value_alive [OF wf] by blast
  let ?h1 = "set_cell j (cell\<lparr>ce_waker := None\<rparr>) ?h"
  have T: "?T = S\<lparr>as_cells := snd (drop_cell j ?h1), as_futures := (as_futures S)(j \<mapsto> Given_up),
      as_discarded := as_discarded S @ map (Pair j) (fst (drop_cell j ?h1))\<rparr>"
    by (simp add: run_drop_def transfer_drop_def cell split_def Let_def)
  have wf1: "arcs_wf ?h1" using wf by simp
  have r1: "ready ?h1 i = ready ?h i" for i by (simp add: ready_def arc_value_set_cell [OF wf] alive cell)
  have rdy: "ready (as_cells ?T) i = (if i = j \<and> strong_count ?h j = 1 then 0 else ready ?h i)" for i
    using alive by (auto simp: T ready_drop r1)
  have val: "arc_value (as_cells ?T) i = arc_value ?h i" if "i \<noteq> j" for i
    using that by (simp add: T drop_cell_snd arc_value_drop_iff arc_value_set_cell [OF wf])
  have sc: "strong_count (as_cells ?T) i = (if i = j then strong_count ?h i - 1 else strong_count ?h i)" for i
    by (simp add: T drop_cell_snd strong_count_drop wf1)
  have "map fst (map (Pair j) xs) = replicate (length xs) j" for xs :: "'a list" by (induction xs) auto
  then have disc: "discarded ?T i = discarded S i + (if i = j \<and> strong_count ?h j = 1 then ready ?h j else 0)" for i
    using alive by (auto simp: discarded_def T drop_cell_length r1 comp_def simp del: map_map)
  have same: "resolved ?T i = resolved S i" for i by (simp add: T resolved_def)
  have fut: "as_futures ?T i = (if i = j then Some Given_up else as_futures S i)" for i by (simp add: T)
  have sv: "as_service ?T = as_service S" and hooks: "as_hooks ?T = as_hooks S" by (simp_all add: T)
  note hs = conjunct1 [OF hooks_same [OF hooks]] conjunct2 [OF hooks_same [OF hooks]]
  have "cell_ok ?T i" for i
  proof (cases "i = j")
    case True
    then show ?thesis
      using ok [of j] handle live alive
      unfolding cell_ok_def same same_service [OF sv] rdy sc disc fut hs by (auto simp: has_handle_def)
  next
    case False
    then show ?thesis
      using ok [of i] unfolding cell_ok_def same same_service [OF sv] rdy val [OF False] sc disc fut hs by simp
  qed
  moreover have "arcs_wf (as_cells ?T)" "next_arc (as_cells ?T) = next_arc ?h"
    using wf1 by (simp_all add: T drop_cell_snd)
  ultimately show ?thesis using inv live by (auto simp: async_inv_def T)
qed

text \<open>What is delivered is what the service handed over.\<close>

definition of_batch :: "'u awaited service \<Rightarrow> arc_id \<Rightarrow> outcome \<Rightarrow> 'u \<Rightarrow> bool" where
  "of_batch s i oc user \<longleftrightarrow>
     \<lparr>cm_caller_context = \<lparr>aw_user = user, aw_cell = i\<rparr>, cm_outcome = oc\<rparr> \<in> set (concat (wk_batches (sv_worker s)))"

definition values_ok :: "'u async \<Rightarrow> bool" where
  "values_ok S \<longleftrightarrow>
     (\<forall>hk \<in> set (as_hooks S). set (fst hk) \<subseteq> set (concat (wk_batches (sv_worker (as_service S)))))
   \<and> (\<forall>i c oc user. arc_value (as_cells S) i = Some c \<longrightarrow> ce_outcome c = Some (oc, user) \<longrightarrow>
        of_batch (as_service S) i oc user)
   \<and> (\<forall>(i, oc, user) \<in> set (as_resolved S). of_batch (as_service S) i oc user)"

lemma values_parts:
  assumes "values_ok S"
  shows "hk \<in> set (as_hooks S) \<Longrightarrow> set (fst hk) \<subseteq> set (concat (wk_batches (sv_worker (as_service S))))"
    and "arc_value (as_cells S) i = Some c \<Longrightarrow> ce_outcome c = Some (oc, user) \<Longrightarrow> of_batch (as_service S) i oc user"
    and "(i, oc, user) \<in> set (as_resolved S) \<Longrightarrow> of_batch (as_service S) i oc user"
  using assms by (auto simp: values_ok_def)

lemma of_batch_mono:
  "wk_batches (sv_worker t) = wk_batches (sv_worker s) @ new \<Longrightarrow> of_batch s i oc user \<Longrightarrow> of_batch t i oc user"
  by (simp add: of_batch_def)

lemma values_transfer:
  assumes inv: "async_inv S" and v: "values_ok S" and run: "transfer request S = (r, T)"
  shows "values_ok T"
proof -
  let ?h = "as_cells S" and ?v = "\<lparr>ce_outcome = None, ce_waker = None\<rparr>"
  let ?n = "next_arc ?h"
  let ?req = "map_context (\<lambda>user. \<lparr>aw_user = user, aw_cell = ?n\<rparr>) request"
  have sv: "sinv aw_cell (as_service S)" and wf: "arcs_wf ?h" using inv by (simp_all add: async_inv_def)
  note pair = cell_pair [OF wf, of ?v]
  have new: "arc_new ?v ?h = (?n, snd (arc_new ?v ?h))" by (simp add: arc_new_def)
  show ?thesis
  proof (cases rule: submit_effect [OF sv, of ?req, case_names refused taken])
    case refused
    then have T: "as_cells T = snd (arc_drop ?n (snd (arc_drop ?n (arc_clone ?n (snd (arc_new ?v ?h))))))"
      "as_service T = as_service S" "as_hooks T = as_hooks S" "as_resolved T = as_resolved S"
      using run new by (auto simp: transfer_def Let_def drop_cell_snd split: prod.splits)
    show ?thesis using v unfolding values_ok_def T pair by blast
  next
    case (taken t)
    then have T: "as_cells T = arc_clone ?n (snd (arc_new ?v ?h))" "as_service T = t"
      "as_hooks T = as_hooks S" "as_resolved T = as_resolved S"
      using run new by (auto simp: transfer_def Let_def split: prod.splits)
    have same: "of_batch t = of_batch (as_service S)"
      by (intro ext) (simp add: of_batch_def taken(3))
    have "ce_outcome c = Some (oc, user) \<Longrightarrow> arc_value (as_cells T) i = Some c \<Longrightarrow> arc_value ?h i = Some c" for c oc user i
      by (auto simp: T arc_value_new split: if_splits)
    then show ?thesis using v unfolding values_ok_def T(2-4) same taken(3) by blast
  qed
qed

lemma values_hook:
  assumes inv: "async_inv S" and v: "values_ok S" and k: "k < length (as_hooks S)"
  shows "values_ok (run_hook k S)"
proof -
  let ?h = "as_cells S" and ?bs = "set (concat (wk_batches (sv_worker (as_service S))))"
  have wf: "arcs_wf ?h" using inv by (simp add: async_inv_def)
  have hook: "set (fst (as_hooks S ! k)) \<subseteq> ?bs" using values_parts(1) [OF v] k by simp
  have upd: "\<forall>hk' \<in> set ((as_hooks S)[k := hk]). set (fst hk') \<subseteq> ?bs" if "set (fst hk) \<subseteq> ?bs" for hk
  proof
    fix hk' assume "hk' \<in> set ((as_hooks S)[k := hk])"
    then have "hk' = hk \<or> hk' \<in> set (as_hooks S)"
      using set_update_subset_insert [of "as_hooks S" k hk] by blast
    then show "set (fst hk') \<subseteq> ?bs" using that values_parts(1) [OF v] by metis
  qed
  obtain cs d where hk: "as_hooks S ! k = (cs, d)" by (cases "as_hooks S ! k")
  show ?thesis
  proof (cases d)
    case Idle
    show ?thesis
    proof (cases cs)
      case Nil
      then show ?thesis using v hk Idle by (simp add: run_hook_def)
    next
      case (Cons c rest)
      let ?a = "cm_caller_context c"
      obtain w h where f: "deliver_fill c ?h = (w, h)" by (cases "deliver_fill c ?h")
      have T: "run_hook k S = S\<lparr>as_cells := h, as_hooks := (as_hooks S)[k := (rest, Filled (aw_cell ?a) w)]\<rparr>"
        by (simp add: run_hook_def hk Cons Idle f)
      have eta: "\<lparr>cm_caller_context = \<lparr>aw_user = aw_user ?a, aw_cell = aw_cell ?a\<rparr>, cm_outcome = cm_outcome c\<rparr> = c"
        by simp
      have "c \<in> ?bs" using hook hk Cons by auto
      then have "of_batch (as_service S) (aw_cell ?a) (cm_outcome c) (aw_user ?a)"
        unfolding of_batch_def eta .
      moreover have "h = ?h \<or> h = set_cell (aw_cell ?a) \<lparr>ce_outcome = Some (cm_outcome c, aw_user ?a), ce_waker = None\<rparr> ?h"
        using f by (auto simp: deliver_fill_def Let_def split: option.splits)
      ultimately have "of_batch (as_service S) i oc user"
        if "arc_value h i = Some e" "ce_outcome e = Some (oc, user)" for i e oc user
        using that values_parts(2) [OF v] by (auto simp: arc_value_set_cell [OF wf] split: if_splits)
      then show ?thesis
        using upd [of "(rest, Filled (aw_cell ?a) w)"] hook hk Cons values_parts(3) [OF v]
        by (auto simp: values_ok_def T)
    qed
  next
    case (Filled j waker)
    let ?hk = "(cs, case waker of None \<Rightarrow> Idle | Some w \<Rightarrow> Waking w)"
    have T: "as_cells (run_hook k S) = snd (drop_cell j ?h)" "as_hooks (run_hook k S) = (as_hooks S)[k := ?hk]"
      "as_service (run_hook k S) = as_service S" "as_resolved (run_hook k S) = as_resolved S"
      by (cases cs; simp add: run_hook_def hk Filled split_def Let_def)+
    have "arc_value (as_cells (run_hook k S)) i = Some e \<Longrightarrow> arc_value ?h i = Some e" for i e
      by (auto simp: T drop_cell_snd arc_value_drop_iff split: if_splits)
    then show ?thesis
      using upd [of ?hk] hook hk v unfolding values_ok_def T(2-4) by (metis fst_conv)
  next
    case (Waking w)
    then have T: "run_hook k S = S\<lparr>as_futures := wake w (as_futures S), as_hooks := (as_hooks S)[k := (cs, Idle)]\<rparr>"
      by (cases cs) (simp_all add: run_hook_def hk)
    show ?thesis using upd [of "(cs, Idle)"] hook hk v by (simp add: values_ok_def T)
  qed
qed

lemma values_poll:
  assumes inv: "async_inv S" and v: "values_ok S"
  shows "values_ok (run_poll waker j S)"
proof -
  let ?h = "as_cells S" and ?T = "run_poll waker j S"
  have wf: "arcs_wf ?h" using inv by (simp add: async_inv_def)
  obtain r h where p: "poll waker j ?h = (r, h)" by (cases "poll waker j ?h")
  have keep: "arc_value ?h i = Some e' \<and> ce_outcome e' = Some (oc, user)"
    if "arc_value h i = Some e" "ce_outcome e = Some (oc, user)" "arc_value ?h i = Some e'" for i e e' oc user
    using p that by (auto simp: poll_def arc_value_set_cell [OF wf] split: option.splits if_splits)
  have some: "\<exists>e'. arc_value ?h i = Some e'" if "arc_value h i = Some e" for i e
    using p that by (auto simp: poll_def arc_value_set_cell [OF wf] split: option.splits if_splits)
  have T: "as_cells ?T = h" "as_service ?T = as_service S" "as_hooks ?T = as_hooks S"
    "as_resolved ?T = as_resolved S @ (case r of PollReady oc user \<Rightarrow> [(j, oc, user)] | PollPending \<Rightarrow> [])"
    by (simp_all add: run_poll_def p split: poll.split)
  have "r = PollReady oc user \<Longrightarrow> of_batch (as_service S) j oc user" for oc user
    using p values_parts(2) [OF v, of j] by (auto simp: poll_def split: option.splits)
  then have "\<forall>(i, oc, user) \<in> set (as_resolved ?T). of_batch (as_service S) i oc user"
    using values_parts(3) [OF v] by (auto simp: T split: poll.splits)
  moreover have "\<forall>i e oc user. arc_value h i = Some e \<longrightarrow> ce_outcome e = Some (oc, user) \<longrightarrow>
      of_batch (as_service S) i oc user"
    using keep some values_parts(2) [OF v] by blast
  ultimately show ?thesis using v unfolding values_ok_def T(1-3) by blast
qed

lemma values_drop:
  assumes inv: "async_inv S" and v: "values_ok S"
  shows "values_ok (run_drop j S)"
proof -
  let ?h = "as_cells S" and ?T = "run_drop j S"
  have wf: "arcs_wf ?h" using inv by (simp add: async_inv_def)
  have T: "as_service ?T = as_service S" "as_hooks ?T = as_hooks S" "as_resolved ?T = as_resolved S"
    "as_cells ?T = snd (transfer_drop j ?h)"
    by (simp_all add: run_drop_def split_def Let_def)
  have "\<exists>e'. arc_value ?h i = Some e' \<and> ce_outcome e' = ce_outcome e" if "arc_value (as_cells ?T) i = Some e" for i e
    using that by (auto simp: T transfer_drop_def drop_cell_snd arc_value_drop_iff arc_value_set_cell [OF wf]
        split: option.splits if_splits)
  then have "\<forall>i e oc user. arc_value (as_cells ?T) i = Some e \<longrightarrow> ce_outcome e = Some (oc, user) \<longrightarrow>
      of_batch (as_service S) i oc user"
    using values_parts(2) [OF v] by metis
  then show ?thesis using v unfolding values_ok_def T(1-3) by blast
qed

lemma values_inner:
  assumes inv: "async_inv S" and v: "values_ok S"
    and step: "service_step C (as_service S) t" and sub: "sv_submitted t = sv_submitted (as_service S)"
  shows "values_ok (run_inner t S)"
proof -
  have sv: "sinv aw_cell (as_service S)" using inv by (simp add: async_inv_def)
  obtain new where new: "wk_batches (sv_worker t) = wk_batches (sv_worker (as_service S)) @ new"
    using step_effect [OF step sv] sub by (auto simp: quiet_step_def)
  show ?thesis
    using v of_batch_mono [OF new] by (fastforce simp: values_ok_def run_inner_def new)
qed

section \<open>Transfers resolve once, and their tasks are woken\<close>

text \<open>The environment of a service of futures is that of the service on the user's contexts.\<close>

locale async_env = worker_env C "\<lambda>_. ()" for C :: "'u config"

sublocale async_env \<subseteq> awaited: worker_env "awaited_config C" aw_cell
  using fresh contract by unfold_locales (auto simp: awaited_config_def awaited_operands_def split: prod.split)

context async_env
begin

lemma step_ok:
  assumes "async_inv S \<and> values_ok S" and step: "async_step C S T"
  shows "async_inv T \<and> values_ok T"
proof -
  have inv: "async_inv S" and v: "values_ok S" using assms by auto
  show ?thesis
    using step
  proof (cases rule: async_step.cases)
    case (inner t)
    have "sinv aw_cell (as_service S)" using inv by (simp add: async_inv_def)
    then have "sinv aw_cell t" using inner(2) by (rule awaited.sinv_step)
    then show ?thesis using inner inv_inner [OF inv] values_inner [OF inv v] by auto
  next
    case (transfer request r)
    then show ?thesis using inv_transfer [OF inv] values_transfer [OF inv v] by blast
  next
    case (hook k)
    then show ?thesis using inv_hook [OF inv] values_hook [OF inv v] by blast
  next
    case (poll i w waker)
    then show ?thesis using inv_poll [OF inv] values_poll [OF inv v] by blast
  next
    case (drop i)
    then show ?thesis using inv_drop [OF inv] values_drop [OF inv v] by blast
  qed
qed

end

sublocale async_env \<subseteq> futures: step_invariant async_init "async_step C" "\<lambda>S. async_inv S \<and> values_ok S"
proof unfold_locales
  fix S :: "'a async"
  assume "async_init S"
  then obtain s where s: "service_init s" "S = async_new s" by (auto simp: async_init_def)
  have "sinv aw_cell s" by (rule sinv_init [OF s(1)])
  moreover have "cell_ok S i" for i
    using s by (auto simp: cell_ok_def async_new_def taken_def handed_def owed_def total_def resolved_def
        discarded_def ready_def has_handle_def promise_of_def handed_over_def service_init_def service_new_def
        worker_new_def arc_value_def)
      (simp_all add: no_arcs_def)
  ultimately show "async_inv S \<and> values_ok S"
    by (simp add: async_inv_def values_ok_def s async_new_def) (simp add: arc_value_def no_arcs_def)
qed (use step_ok in blast)

interpretation byte_futures: async_env "loopback_config quiesce" for quiesce ..

context async_env
begin

lemma reachable_ok: "reachable async_init (async_step C) S \<Longrightarrow> async_inv S \<and> values_ok S"
  by (rule futures.reachable_inv)

end

lemma reachable_async:
  assumes "environment_ok C (\<lambda>_. ())" "reachable async_init (async_step C) S"
  shows "async_inv S" "values_ok S"
proof -
  have "async_env C" using assms(1) by unfold_locales (auto simp: environment_ok_def)
  then show "async_inv S" "values_ok S" using async_env.reachable_ok [OF _ assms(2)] by blast+
qed

text \<open>
  C9. A transfer resolves exactly once. In every interleaving of tasks, hooks, worker and pool: a
  transfer that was accepted is in exactly one place, owed by the service, in a batch being
  delivered, with its outcome in its cell, returned by a poll, or dropped; only an abandoned future
  has its context dropped; and what a poll returned is the outcome and the context of a completion
  of this very transfer.
\<close>

theorem transfers_resolve_exactly_once:
  assumes "environment_ok C (\<lambda>_. ())" "reachable async_init (async_step C) S"
  shows "owed S i + total (left_in i) S + ready (as_cells S) i + resolved S i + discarded S i
      = (if as_futures S i = None then 0 else 1)
    \<and> (0 < resolved S i \<longrightarrow> as_futures S i \<in> {Some Resolved, Some Given_up})
    \<and> (0 < discarded S i \<longrightarrow> as_futures S i = Some Given_up)
    \<and> ((i, oc, user) \<in> set (as_resolved S) \<longrightarrow> of_batch (as_service S) i oc user)"
proof -
  have "cell_ok S i" "sinv aw_cell (as_service S)" "values_ok S"
    using reachable_async [OF assms] by (simp_all add: async_inv_def)
  then show ?thesis using taken_split [of S i] values_parts(3) by (auto simp: cell_ok_def)
qed

text \<open>A transfer with a checksum, polled, served and delivered.\<close>

definition sample_polled :: "vec_u8 async" where
  "sample_polled = run_poll 3 0 (snd (transfer (sample_request True)
     (async_new (service_new loopback_endpoint empty_world))))"

definition serve :: "('u awaited service \<Rightarrow> 'u awaited service) \<Rightarrow> 'u async \<Rightarrow> 'u async" where
  "serve f S = run_inner (f (as_service S)) S"

primrec serve_turns :: "'u config \<Rightarrow> nat \<Rightarrow> 'u async \<Rightarrow> 'u async" where
  "serve_turns C 0 S = S"
| "serve_turns C (Suc n) S = serve_turns C n (serve (worker_turn (awaited_config C)) S)"

definition sample_served :: "vec_u8 async" where
  "sample_served = serve (run_job (awaited_config (loopback_config True)) 0)
     (serve_turns (loopback_config True) 17 sample_polled)"

definition sample_delivered :: "vec_u8 async" where
  "sample_delivered = run_hook 0 (run_hook 0 (run_hook 0 sample_served))"

lemma loopback_env_unit: "environment_ok (loopback_config True) (\<lambda>_. ())"
  by (rule loopback_environment)

lemma sample_polled_reachable: "reachable async_init (async_step C) sample_polled"
proof -
  let ?S = "async_new (service_new loopback_endpoint empty_world) :: vec_u8 async"
  have "service_init (service_new loopback_endpoint empty_world :: vec_u8 awaited service)"
  proof -
    have "endpoint_ok {#} loopback_endpoint empty_world"
      using peers_init_inv [of "(peers_new Opaque, empty_world)"]
      by (auto simp: endpoint_ok_def loopback_endpoint_def peers_init_def peers_state_inv_def)
    then show ?thesis unfolding service_init_def by (intro exI conjI) (auto simp: empty_world_def)
  qed
  then have a: "reachable async_init (async_step C) ?S" by (intro reach_init) (auto simp: async_init_def)
  have b: "reachable async_init (async_step C) (snd (transfer (sample_request True) ?S))"
    by (rule reach_step [OF a async_step.transfer]) (rule prod.collapse [symmetric])
  have "as_futures (snd (transfer (sample_request True) ?S)) 0 = Some Runnable" by code_simp
  then show ?thesis unfolding sample_polled_def by (intro reach_step [OF b] async_step.poll) simp
qed

lemma serve_reachable:
  assumes "reachable async_init (async_step C) S" "service_step (awaited_config C) (as_service S) (f (as_service S))"
    and "sv_submitted (f (as_service S)) = sv_submitted (as_service S)"
  shows "reachable async_init (async_step C) (serve f S)"
  unfolding serve_def by (rule reach_step [OF assms(1) async_step.inner]) (rule assms(2,3))+

lemma submitted_turn: "sv_submitted (worker_turn C s) = sv_submitted s"
proof -
  have "sv_submitted (post_turn C n k s) = sv_submitted s" for n k
    by (cases n) (auto simp: Let_def split: list.split prod.split)
  moreover have "sv_submitted (quiesce_turn C n k any s) = sv_submitted s" for n k any
    by (cases n) (auto simp: Let_def split: list.split prod.split)
  moreover have "sv_submitted (dispatch_turn C es k any s) = sv_submitted s" for es k any
    by (cases es) simp_all
  ultimately show ?thesis
    by (auto simp: worker_turn_def take_in_def reap_turn_def deliver_turn_def run_recv_def run_shutdown_def Let_def
        split: mode.split list.split prod.split)
qed

lemma serve_turns_reachable:
  "reachable async_init (async_step C) S \<Longrightarrow> reachable async_init (async_step C) (serve_turns C n S)"
proof (induction n arbitrary: S)
  case (Suc n)
  have "reachable async_init (async_step C) (serve (worker_turn (awaited_config C)) S)"
    by (rule serve_reachable [OF Suc.prems]) (simp_all add: step_turn submitted_turn)
  then show ?case using Suc.IH by simp
qed simp

lemma submitted_job [simp]: "sv_submitted (run_job C k s) = sv_submitted s"
  by (simp add: run_job_def)

lemma sample_served_reachable: "reachable async_init (async_step (loopback_config True)) sample_served"
proof -
  let ?S = "serve_turns (loopback_config True) 17 sample_polled"
  have job: "0 < length (wk_jobs (sv_worker (as_service ?S)))" by code_simp
  have "reachable async_init (async_step (loopback_config True)) ?S"
    by (rule serve_turns_reachable [OF sample_polled_reachable])
  then show ?thesis
    unfolding sample_served_def by (rule serve_reachable) (simp_all only: step_job [OF job] submitted_job)
qed

lemma sample_delivered_reachable: "reachable async_init (async_step (loopback_config True)) sample_delivered"
proof -
  have one: "length (as_hooks sample_served) = 1" by code_simp
  have keep: "length (as_hooks (run_hook k S)) = length (as_hooks S)" for k and S :: "vec_u8 async"
    by (auto simp: run_hook_def split_def Let_def split: delivery.split list.split prod.split)
  have more: "reachable async_init (async_step (loopback_config True)) (run_hook 0 S)"
    if "reachable async_init (async_step (loopback_config True)) S" "length (as_hooks S) = 1" for S :: "vec_u8 async"
    by (rule reach_step [OF that(1) async_step.hook]) (simp add: that(2))
  show ?thesis unfolding sample_delivered_def by (intro more sample_served_reachable) (simp_all add: keep one)
qed

theorem transfers_resolve_exactly_once_witness:
  "ready (as_cells sample_delivered) 0 = 1 \<and> owed sample_delivered 0 = 0"
proof -
  have "ready (as_cells sample_delivered) 0 = 1" "as_futures sample_delivered 0 \<noteq> None" by code_simp+
  then show ?thesis
    using transfers_resolve_exactly_once [OF loopback_env_unit sample_delivered_reachable, of 0] by auto
qed

text \<open>
  C10. No wake-up is lost. A future whose last poll was pending either still waits for its outcome,
  with the waker of that poll in its cell, or the outcome has arrived and the call of the hook
  that stored it is still going to wake exactly that waker. When the service has stopped and the
  hooks are through, no future is asleep and the next poll of each resolves.
\<close>

theorem no_wake_up_is_lost:
  assumes "environment_ok C (\<lambda>_. ())" "reachable async_init (async_step C) S"
  shows "(as_futures S i = Some (Sleeping w) \<longrightarrow>
      (if ready (as_cells S) i = 1 then waking S w
       else map_option ce_waker (arc_value (as_cells S) i) = Some (Some w)))
    \<and> (halted (sv_mode (as_service S)) \<and> sv_channel (as_service S) = []
        \<and> concat (wk_jobs (sv_worker (as_service S))) = [] \<and> set (as_hooks S) \<subseteq> {([], Idle)} \<longrightarrow>
        as_futures S i \<in> {None, Some Runnable, Some Resolved, Some Given_up}
        \<and> (as_futures S i = Some Runnable \<longrightarrow> fst (poll w i (as_cells S)) \<noteq> PollPending))"
proof -
  have inv: "async_inv S" by (rule reachable_async(1) [OF assms])
  then have ok: "cell_ok S i" and sv: "sinv aw_cell (as_service S)" by (simp_all add: async_inv_def)
  have bound: "ready (as_cells S) i \<le> 1" by (rule ready_le)
  have "owed S i = 0 \<and> total (left_in i) S = 0 \<and> \<not> waking S v"
    if stopped: "halted (sv_mode (as_service S))" "sv_channel (as_service S) = []"
      "concat (wk_jobs (sv_worker (as_service S))) = []" "set (as_hooks S) \<subseteq> {([], Idle)}" for v
  proof -
    have "promise_of aw_cell (as_service S) = \<lparr>pr_owed = {#}, pr_settled = handed_over aw_cell (as_service S)\<rparr>"
      using stopped_owes_nothing [OF sv stopped(1-3)] by (simp add: promise_of_def)
    moreover have "total (left_in i) S = 0" using stopped(4) by (auto simp: total_def left_in_def sum_list_eq_0_iff)
    ultimately show ?thesis using stopped(4) by (auto simp: owed_def waking_def)
  qed
  then have "as_futures S i \<in> {None, Some Runnable, Some Resolved, Some Given_up}
      \<and> (as_futures S i = Some Runnable \<longrightarrow> ready (as_cells S) i = 1)"
    if "halted (sv_mode (as_service S))" "sv_channel (as_service S) = []"
      "concat (wk_jobs (sv_worker (as_service S))) = []" "set (as_hooks S) \<subseteq> {([], Idle)}"
    using ok that taken_split [OF sv, of i]
    by (cases "as_futures S i"; cases "the (as_futures S i)") (auto simp: cell_ok_def)
  moreover have "fst (poll w i (as_cells S)) \<noteq> PollPending" if "ready (as_cells S) i = 1"
    using that by (auto simp: ready_def poll_def split: option.splits if_splits)
  ultimately show ?thesis using ok bound by (auto simp: cell_ok_def split: if_splits)
qed

theorem no_wake_up_is_lost_witness:
  "as_futures sample_served 0 = Some (Sleeping 3)
   \<and> map_option ce_waker (arc_value (as_cells sample_served) 0) = Some (Some 3)
   \<and> fst (poll 4 0 (as_cells sample_delivered)) \<noteq> PollPending"
proof -
  have before: "as_futures sample_served 0 = Some (Sleeping 3)" "ready (as_cells sample_served) 0 \<noteq> 1"
    by code_simp+
  have after: "halted (sv_mode (as_service sample_delivered))" "sv_channel (as_service sample_delivered) = []"
    "concat (wk_jobs (sv_worker (as_service sample_delivered))) = []" "as_futures sample_delivered 0 = Some Runnable"
    by code_simp+
  have "list_all (\<lambda>hk. fst hk = [] \<and> snd hk = Idle) (as_hooks sample_delivered)" by code_simp
  then have "set (as_hooks sample_delivered) \<subseteq> {([], Idle)}" by (auto simp: list_all_iff)
  then show ?thesis
    using before no_wake_up_is_lost [OF loopback_env_unit sample_served_reachable, of 0 3]
      after no_wake_up_is_lost [OF loopback_env_unit sample_delivered_reachable, of 0 4] by simp
qed

end
