(* ===== verification/Reply.thy ===== *)
theory Reply
  imports Vdma_Prelude
begin

text \<open>
  \<open>reply.rs\<close>: the one-shot answer from the worker to a waiting caller, a mutex and a condition
  variable. The two threads are program counters; each step is what one thread does between two
  points where the other can run: a critical section, the notification after it, or a wake-up,
  which may be spurious. \<open>so_sent\<close> is a ghost: what \<open>send\<close> was given.
\<close>

section \<open>The slot and its two ends\<close>

datatype 'v slot_state = Pending | Answered 'v | Abandoned

text \<open>The worker's end: alive; between \<open>settle\<close>'s store and its notification; to be dropped; dropped.\<close>

datatype answer_end = Holding | Notifying | Spent | Dropped

text \<open>The caller's end: about to take the lock in \<open>wait\<close>; blocked on the condition; returned.\<close>

datatype 'v waiting_end = Checking | Blocked | Returned "'v option"

record 'v slot =
  so_state :: "'v slot_state"
  so_answer :: answer_end
  so_waiting :: "'v waiting_end"
  so_sent :: "'v option"

definition reply :: "'v slot" where
  "reply = \<lparr>so_state = Pending, so_answer = Holding, so_waiting = Checking, so_sent = None\<rparr>"

definition notify_one :: "'v slot \<Rightarrow> 'v slot" where
  "notify_one s = (if so_waiting s = Blocked then s\<lparr>so_waiting := Checking\<rparr> else s)"

text \<open>\<open>send\<close> consumes the answer: the store, the notification, then the drop of the answer.\<close>

definition answer_send :: "'v \<Rightarrow> 'v slot \<Rightarrow> 'v slot" where
  "answer_send v s = s\<lparr>so_state := Answered v, so_answer := Notifying, so_sent := Some v\<rparr>"

definition answer_notify :: "'v slot \<Rightarrow> 'v slot" where
  "answer_notify s = notify_one (s\<lparr>so_answer := Spent\<rparr>)"

text \<open>\<open>Drop\<close> of the answer, after a \<open>send\<close> or instead of one, under the lock.\<close>

definition answer_drop :: "'v slot \<Rightarrow> 'v slot" where
  "answer_drop s =
     (case so_state s of
        Pending \<Rightarrow> notify_one (s\<lparr>so_state := Abandoned, so_answer := Dropped\<rparr>)
      | _ \<Rightarrow> s\<lparr>so_answer := Dropped\<rparr>)"

text \<open>One turn of the loop in \<open>wait\<close>, under the lock; blocking gives the lock up in the same step.\<close>

definition wait_turn :: "'v slot \<Rightarrow> 'v slot" where
  "wait_turn s =
     (let s1 = s\<lparr>so_state := Pending\<rparr>
      in case so_state s of
           Answered v \<Rightarrow> s1\<lparr>so_waiting := Returned (Some v)\<rparr>
         | Abandoned \<Rightarrow> s1\<lparr>so_waiting := Returned None\<rparr>
         | Pending \<Rightarrow> s1\<lparr>so_waiting := Blocked\<rparr>)"

inductive reply_step :: "'v slot \<Rightarrow> 'v slot \<Rightarrow> bool" where
  send: "so_answer s = Holding \<Longrightarrow> reply_step s (answer_send v s)"
| notify: "so_answer s = Notifying \<Longrightarrow> reply_step s (answer_notify s)"
| drop_answer: "so_answer s \<in> {Holding, Spent} \<Longrightarrow> reply_step s (answer_drop s)"
| turn: "so_waiting s = Checking \<Longrightarrow> reply_step s (wait_turn s)"
| spurious: "so_waiting s = Blocked \<Longrightarrow> reply_step s (s\<lparr>so_waiting := Checking\<rparr>)"

inductive_cases reply_stepE: "reply_step s t"

lemmas reply_defs = reply_def notify_one_def answer_send_def answer_notify_def answer_drop_def
  wait_turn_def

section \<open>No wake-up is lost\<close>

text \<open>
  As long as the caller has not returned, the slot shows what the worker's end has done, and the
  caller is blocked only while a notification is still to come.
\<close>

definition reply_inv :: "'v slot \<Rightarrow> bool" where
  "reply_inv s \<longleftrightarrow>
     (so_answer s = Holding \<longrightarrow> so_sent s = None)
   \<and> (so_answer s \<in> {Notifying, Spent} \<longrightarrow> so_sent s \<noteq> None)
   \<and> (case so_waiting s of
        Returned r \<Rightarrow> r = so_sent s \<and> so_answer s \<noteq> Holding \<and> so_state s \<noteq> Answered (the r)
          \<and> (r = None \<longrightarrow> so_answer s = Dropped)
      | w \<Rightarrow> so_state s = (case so_sent s of Some v \<Rightarrow> Answered v
             | None \<Rightarrow> if so_answer s = Holding then Pending else Abandoned)
          \<and> (w = Blocked \<longrightarrow> so_answer s \<in> {Holding, Notifying}))"

interpretation reply_system: step_invariant "\<lambda>s. s = reply" reply_step reply_inv
proof
  fix s :: "'v slot" and t
  show "reply_inv s" if "s = reply" using that by (simp add: reply_inv_def reply_def)
  show "reply_inv t" if "reply_inv s" "reply_step s t"
    using that(2,1)
    by (cases rule: reply_step.cases)
      (cases "so_answer s"; auto simp: reply_inv_def reply_defs Let_def split: waiting_end.splits slot_state.splits option.splits if_splits)+
qed

text \<open>
  C39. A caller is never left blocked, and hears the truth. In every interleaving of the two
  threads: once the worker's end is gone (an answer sent and notified, or the end dropped), the
  caller is not blocked and its next look at the slot returns; what it returns is the answer that
  was sent, and \<open>None\<close> exactly when none was.
\<close>

theorem reply_never_strands_the_caller:
  assumes "reachable (\<lambda>s. s = reply) reply_step s"
  shows "(so_answer s \<in> {Spent, Dropped} \<longrightarrow> so_waiting s \<noteq> Blocked
      \<and> (so_waiting s = Checking \<longrightarrow> so_waiting (wait_turn s) = Returned (so_sent s)))
    \<and> (\<forall>r. so_waiting s = Returned r \<longrightarrow> r = so_sent s \<and> so_answer s \<noteq> Holding)"
  using reply_system.reachable_inv [OF assms]
  by (auto simp: reply_inv_def wait_turn_def Let_def split: waiting_end.splits option.splits if_splits)

text \<open>The caller blocks first; the worker is dropped without answering.\<close>

theorem reply_never_strands_the_caller_witness:
  "so_waiting (answer_drop (wait_turn reply) :: nat slot) = Checking
   \<and> so_waiting (wait_turn (answer_drop (wait_turn reply)) :: nat slot) = Returned None"
proof -
  let ?s = "answer_drop (wait_turn reply) :: nat slot"
  have a: "reachable (\<lambda>s. s = reply) reply_step (wait_turn reply :: nat slot)"
  proof (rule reach_step)
    show "reachable (\<lambda>s. s = reply) reply_step (reply :: nat slot)" by (rule reach_init) simp
    show "reply_step (reply :: nat slot) (wait_turn reply)" by (rule turn) (simp add: reply_def)
  qed
  have "reachable (\<lambda>s. s = reply) reply_step ?s"
    by (rule reach_step [OF a drop_answer]) (simp add: reply_defs)
  note safe = reply_never_strands_the_caller [OF this]
  have "so_answer ?s = Dropped" "so_waiting ?s = Checking" "so_sent ?s = None" by (simp_all add: reply_defs)
  then show ?thesis using safe by simp
qed

end
