(* ===== verification/Pool.thy ===== *)
theory Pool
  imports Vdma_Prelude
begin

text \<open>
  \<open>pool.rs\<close>: a fixed set of threads, each draining its own channel, onto which \<open>submit\<close> deals jobs in
  turn. The counter is an atomic machine integer and wraps. The pool is shared by the workers of all
  devices, so a submit is two steps: it takes a turn from the counter, and then sends on the channel
  of that turn; between the two others may take theirs and send. A job that panics is caught, so
  for the pool every job runs to an end.
\<close>

section \<open>The pool\<close>

text \<open>
  \<open>po_dealing\<close> are the submits between their two steps, each with the thread it was dealt. Two
  ghosts: the jobs in the order of their turns, and what the channels were sent, in that order.
\<close>

record 'j pool =
  po_queues :: "'j list list"
  po_next :: usize
  po_open :: bool
  po_done :: "'j list list"
  po_dealing :: "(nat \<times> 'j) list"
  po_taken :: "'j list"
  po_sent :: "(nat \<times> 'j) list"

text \<open>\<open>new\<close>: \<open>spawned i\<close> tells whether the thread \<open>i\<close> could be started.\<close>

definition pool_new :: "(nat \<Rightarrow> (string, unit) result) \<Rightarrow> nat \<Rightarrow> (string, 'j pool) result" where
  "pool_new spawned threads =
     (let n = max threads 1
      in case find (\<lambda>i. isl (spawned i)) [0..<n] of
           Some i \<Rightarrow> Inl (projl (spawned i))
         | None \<Rightarrow> Inr \<lparr>po_queues = replicate n [], po_next = 0, po_open = True,
             po_done = replicate n [], po_dealing = [], po_taken = [], po_sent = []\<rparr>)"

text \<open>The two steps of \<open>submit\<close>: \<open>fetch_add\<close>, and the send of the submit at \<open>k\<close>.\<close>

definition take_turn :: "'j \<Rightarrow> 'j pool \<Rightarrow> 'j pool" where
  "take_turn j p =
     (let i = unat (po_next p) mod length (po_queues p)
      in p\<lparr>po_next := po_next p + 1, po_dealing := po_dealing p @ [(i, j)], po_taken := po_taken p @ [j]\<rparr>)"

definition send_job :: "nat \<Rightarrow> 'j pool \<Rightarrow> 'j pool" where
  "send_job k p =
     (let (i, j) = po_dealing p ! k
      in p\<lparr>po_dealing := take k (po_dealing p) @ drop (Suc k) (po_dealing p),
           po_queues := (po_queues p)[i := po_queues p ! i @ [j]], po_sent := po_sent p @ [(i, j)]\<rparr>)"

text \<open>A submit that nobody comes between.\<close>

definition submit_job :: "'j \<Rightarrow> 'j pool \<Rightarrow> 'j pool" where
  "submit_job j p = send_job (length (po_dealing p)) (take_turn j p)"

text \<open>A thread takes the next job of its channel and runs it.\<close>

definition run_next :: "nat \<Rightarrow> 'j pool \<Rightarrow> 'j pool" where
  "run_next i p =
     (case po_queues p ! i of
        [] \<Rightarrow> p
      | j # js \<Rightarrow> p\<lparr>po_queues := (po_queues p)[i := js], po_done := (po_done p)[i := po_done p ! i @ [j]]\<rparr>)"

text \<open>
  \<open>Drop\<close> closes every channel, then joins: each thread ends when its channel is empty. It has the
  pool to itself, so no submit is under way.
\<close>

definition close_pool :: "'j pool \<Rightarrow> 'j pool" where
  "close_pool p = p\<lparr>po_open := False\<rparr>"

definition joined :: "'j pool \<Rightarrow> bool" where
  "joined p \<longleftrightarrow> \<not> po_open p \<and> (\<forall>q \<in> set (po_queues p). q = [])"

inductive pool_step :: "'j pool \<Rightarrow> 'j pool \<Rightarrow> bool" where
  take_turn: "po_open p \<Longrightarrow> pool_step p (take_turn j p)"
| send: "k < length (po_dealing p) \<Longrightarrow> pool_step p (send_job k p)"
| run: "i < length (po_queues p) \<Longrightarrow> pool_step p (run_next i p)"
| close: "po_dealing p = [] \<Longrightarrow> pool_step p (close_pool p)"

definition pool_init :: "nat \<Rightarrow> 'j pool \<Rightarrow> bool" where
  "pool_init threads p \<longleftrightarrow> (\<exists>spawned. pool_new spawned threads = Inr p)"

section \<open>Dealing in turn\<close>

text \<open>The jobs dealt to thread \<open>i\<close> of \<open>n\<close>: every \<open>n\<close>-th one, the counter starting over at \<open>2 ^ 64\<close>.\<close>

definition dealt :: "nat \<Rightarrow> nat \<Rightarrow> 'j list \<Rightarrow> 'j list" where
  "dealt n i js = map snd (filter (\<lambda>(k, _). k mod 2 ^ 64 mod n = i) (zip [0..<length js] js))"

lemma dealt_snoc:
  "dealt n i (js @ [j]) = dealt n i js @ (if length js mod 2 ^ 64 mod n = i then [j] else [])"
  by (simp add: dealt_def)

text \<open>The jobs of a list of dealt jobs that are for thread \<open>i\<close>.\<close>

definition share :: "nat \<Rightarrow> (nat \<times> 'j) list \<Rightarrow> 'j list" where
  "share i xs = map snd (filter (\<lambda>(t, _). t = i) xs)"

lemma share_simps [simp]:
  "share i [] = []" "share i (x # xs) = (if fst x = i then [snd x] else []) @ share i xs"
  "share i (xs @ ys) = share i xs @ share i ys"
  by (auto simp: share_def)

lemma share_taken_out:
  assumes "k < length xs"
  shows "mset (share i xs) = mset (share i (take k xs @ drop (Suc k) xs)) + mset (share i [xs ! k])"
  by (subst id_take_nth_drop [OF assms]) simp

definition pool_inv :: "nat \<Rightarrow> 'j pool \<Rightarrow> bool" where
  "pool_inv threads p \<longleftrightarrow>
     (let n = max threads 1
      in length (po_queues p) = n \<and> length (po_done p) = n \<and> po_next p = word_of_nat (length (po_taken p))
       \<and> (\<forall>i < n. po_done p ! i @ po_queues p ! i = share i (po_sent p)
            \<and> mset (share i (po_sent p)) + mset (share i (po_dealing p)) = mset (dealt n i (po_taken p)))
       \<and> (\<forall>d \<in> set (po_dealing p). fst d < n) \<and> (\<not> po_open p \<longrightarrow> po_dealing p = []))"

interpretation pool_system: step_invariant "pool_init threads" pool_step "pool_inv threads" for threads
proof
  fix s :: "'j pool" and t
  let ?n = "max threads 1"
  show "pool_inv threads s" if init: "pool_init threads s"
  proof -
    obtain spawned where "pool_new spawned threads = Inr s" using init by (auto simp: pool_init_def)
    then have "s = \<lparr>po_queues = replicate ?n [], po_next = 0, po_open = True,
        po_done = replicate ?n [], po_dealing = [], po_taken = [], po_sent = []\<rparr>"
      by (auto simp: pool_new_def Let_def split: option.splits)
    then show ?thesis by (simp add: pool_inv_def dealt_def Let_def)
  qed
  show "pool_inv threads t" if inv: "pool_inv threads s" and st: "pool_step s t"
    using st inv
  proof (cases rule: pool_step.cases)
    case (take_turn j)
    have n: "unat (po_next s) = length (po_taken s) mod 2 ^ 64" "length (po_queues s) = ?n"
      using inv by (simp_all add: pool_inv_def Let_def unat_of_nat)
    then show ?thesis
      using inv take_turn by (auto simp: pool_inv_def take_turn_def Let_def dealt_snoc simp flip: add.assoc)
  next
    case (send k)
    obtain i j where d: "po_dealing s ! k = (i, j)" by (cases "po_dealing s ! k")
    then have "(i, j) \<in> set (po_dealing s)" using nth_mem [OF send(2)] by simp
    then have i: "i < ?n" "po_open s" using inv by (fastforce simp: pool_inv_def Let_def)+
    have left: "set (take k (po_dealing s) @ drop (Suc k) (po_dealing s)) \<subseteq> set (po_dealing s)"
      by (auto dest: in_set_takeD in_set_dropD)
    show ?thesis
      using inv i left share_taken_out [OF send(2)] unfolding send(1)
      by (auto simp: pool_inv_def send_job_def Let_def d nth_list_update simp flip: append_assoc)
  next
    case (run i)
    then show ?thesis
      using inv by (auto simp: pool_inv_def run_next_def Let_def nth_list_update split: list.split)
  next
    case close
    then show ?thesis using inv by (simp add: pool_inv_def close_pool_def Let_def)
  qed
qed

text \<open>
  C40. Every job given to the pool runs exactly once, whatever the submits of the workers that share it
  do to each other. There is always a thread to deal to; each thread runs what its channel was
  sent, in that order; those jobs, with the ones whose submit has not sent yet, are exactly the
  share that the turns of the counter deal to the thread; and when the dropped pool has been
  joined, each thread has run the whole of its share.
\<close>

theorem pool_runs_every_job_once:
  assumes "reachable (pool_init threads) pool_step p"
  defines "n \<equiv> length (po_queues p)"
  shows "0 < n \<and> (i < n \<longrightarrow> po_done p ! i @ po_queues p ! i = share i (po_sent p)
    \<and> mset (po_done p ! i) + mset (po_queues p ! i) + mset (share i (po_dealing p)) = mset (dealt n i (po_taken p))
    \<and> (joined p \<longrightarrow> mset (po_done p ! i) = mset (dealt n i (po_taken p))))"
proof -
  have inv: "pool_inv threads p" by (rule pool_system.reachable_inv [OF assms(1)])
  then have n: "n = max threads 1" by (simp add: n_def pool_inv_def Let_def)
  have all: "po_done p ! i @ po_queues p ! i = share i (po_sent p)"
      "mset (share i (po_sent p)) + mset (share i (po_dealing p)) = mset (dealt n i (po_taken p))"
    if "i < n" using inv that n by (simp_all add: pool_inv_def Let_def)
  have "po_queues p ! i = [] \<and> po_dealing p = []" if "joined p" "i < n"
    using that inv by (simp add: joined_def n_def pool_inv_def Let_def)
  then show ?thesis using all n by (auto simp flip: mset_append)
qed

text \<open>Two workers take their turns, and the second sends first; both jobs are for the one thread.\<close>

definition one_thread :: "nat pool" where
  "one_thread = \<lparr>po_queues = [[]], po_next = 0, po_open = True, po_done = [[]], po_dealing = [],
     po_taken = [], po_sent = []\<rparr>"

definition sample_pool :: "nat pool" where
  "sample_pool = run_next 0 (send_job 0 (send_job 1 (take_turn 11 (take_turn 10 one_thread))))"

lemmas run_sample = one_thread_def take_turn_def send_job_def run_next_def Let_def

theorem pool_runs_every_job_once_witness:
  "po_done sample_pool ! 0 @ po_queues sample_pool ! 0 = [11, 10]
   \<and> mset (po_done sample_pool ! 0) + mset (po_queues sample_pool ! 0) = {#10, 11#}"
proof -
  have "pool_init 1 one_thread"
    unfolding pool_init_def by (rule exI [of _ "\<lambda>_. Inr ()"]) (simp add: pool_new_def one_thread_def)
  then have "reachable (pool_init 1) pool_step one_thread" by (rule reach_init)
  moreover have "pool_step one_thread (take_turn 10 one_thread)"
    by (rule pool_step.take_turn) (simp add: run_sample)
  ultimately have "reachable (pool_init 1) pool_step (take_turn 10 one_thread)" by (rule reach_step)
  moreover have "pool_step (take_turn 10 one_thread) (take_turn 11 (take_turn 10 one_thread))"
    by (rule pool_step.take_turn) (simp add: run_sample)
  ultimately have "reachable (pool_init 1) pool_step (take_turn 11 (take_turn 10 one_thread))" by (rule reach_step)
  moreover have "pool_step (take_turn 11 (take_turn 10 one_thread))
      (send_job 1 (take_turn 11 (take_turn 10 one_thread)))"
    by (rule pool_step.send) (simp add: run_sample)
  ultimately have "reachable (pool_init 1) pool_step (send_job 1 (take_turn 11 (take_turn 10 one_thread)))"
    by (rule reach_step)
  moreover have "pool_step (send_job 1 (take_turn 11 (take_turn 10 one_thread)))
      (send_job 0 (send_job 1 (take_turn 11 (take_turn 10 one_thread))))"
    by (rule pool_step.send) (simp add: run_sample)
  ultimately have "reachable (pool_init 1) pool_step (send_job 0 (send_job 1 (take_turn 11 (take_turn 10 one_thread))))"
    by (rule reach_step)
  moreover have "pool_step (send_job 0 (send_job 1 (take_turn 11 (take_turn 10 one_thread)))) sample_pool"
    unfolding sample_pool_def by (rule pool_step.run) (simp add: run_sample)
  ultimately have "reachable (pool_init 1) pool_step sample_pool" by (rule reach_step)
  note once = pool_runs_every_job_once [OF this, of 0]
  have "length (po_queues sample_pool) = 1" "po_sent sample_pool = [(0, 11), (0, 10)]"
    "po_dealing sample_pool = []" "po_taken sample_pool = [10, 11]"
    by (simp_all add: sample_pool_def run_sample)
  then show ?thesis using once by (simp add: dealt_def upt_rec)
qed

end
