(* ===== verification/Memory.thy ===== *)
theory Memory
  imports Local_Regions "HOL-Library.Code_Target_Numeral"
begin

text \<open>
  \<open>memory/jemalloc.rs\<close>, \<open>memory/huge_arena.rs\<close> and \<open>memory/extent_hooks.rs\<close> of the module: the
  hooks through which the allocator reports the pages it reclaims, and the rule that nothing is
  cached in an arena without them. jemalloc is a record of parameters; its calls are recorded in
  the log of the world, so what it answers may depend on everything before. The last section is the
  system of operands being registered and jemalloc reclaiming pages.
\<close>

section \<open>jemalloc: \<open>jemalloc.rs\<close>\<close>

text \<open>
  jemalloc's table of hooks, over the type of a hook: a function pointer with zero for none in its
  own tables, a \<open>hook\<close> in the table the module installs.
\<close>

record 'h extent_hooks =
  eh_alloc :: 'h
  eh_dalloc :: 'h
  eh_destroy :: 'h
  eh_commit :: 'h
  eh_decommit :: 'h
  eh_purge_lazy :: 'h
  eh_purge_forced :: 'h
  eh_split :: 'h
  eh_merge :: 'h

text \<open>
  What \<open>dlsym\<close> finds and what the functions do. A value passed through \<open>mallctl\<close> is its size and
  its bits. \<open>je_whole\<close> and \<open>je_range\<close> are calls of a default hook, given its pointer: on a whole
  extent (address, size, committed, arena), or on a part of one (address, size, offset, length,
  arena).
\<close>

type_synonym mvalue = "nat \<times> u64"

record jemalloc_lib =
  je_mallctl_symbol :: ptr
  je_malloc_symbol :: ptr
  je_free_symbol :: ptr
  je_mallctl :: "log \<Rightarrow> string \<Rightarrow> mvalue option \<Rightarrow> int \<times> mvalue option"
  je_malloc :: "log \<Rightarrow> usize \<Rightarrow> ptr"
  je_table :: "ptr \<Rightarrow> ptr extent_hooks"
  je_whole :: "log \<Rightarrow> ptr \<Rightarrow> usize \<Rightarrow> usize \<Rightarrow> bool \<Rightarrow> u32 \<Rightarrow> bool"
  je_range :: "log \<Rightarrow> ptr \<Rightarrow> usize \<Rightarrow> usize \<Rightarrow> usize \<Rightarrow> usize \<Rightarrow> u32 \<Rightarrow> bool"
  je_wrapped_address :: ptr

definition jemalloc_present :: "jemalloc_lib \<Rightarrow> bool" where
  "jemalloc_present J \<longleftrightarrow> \<not> (je_mallctl_symbol J = 0 \<or> je_malloc_symbol J = 0 \<or> je_free_symbol J = 0)"

definition mallctl :: "jemalloc_lib \<Rightarrow> string \<Rightarrow> mvalue option \<Rightarrow> log \<Rightarrow> int \<times> mvalue option \<times> log" where
  "mallctl J name new l =
     (if jemalloc_present J
      then (let (code, old) = je_mallctl J l name new in (code, old, Mallctl name code # l))
      else (- 1, None, l))"

definition allocation_new :: "jemalloc_lib \<Rightarrow> usize \<Rightarrow> log \<Rightarrow> ptr option \<times> log" where
  "allocation_new J sz l =
     (if jemalloc_present J
      then (let p = je_malloc J l sz in (if p \<noteq> 0 then Some p else None, JeMalloc sz p # l))
      else (None, l))"

definition allocation_drop :: "jemalloc_lib \<Rightarrow> ptr \<Rightarrow> log \<Rightarrow> log" where
  "allocation_drop J p l = (if jemalloc_present J then JeFree p # l else l)"

definition arena_of :: "jemalloc_lib \<Rightarrow> ptr \<Rightarrow> log \<Rightarrow> u32 option \<times> log" where
  "arena_of J p l =
     (let (code, old, l') = mallctl J ''arenas.lookup'' (Some (8, p)) l
      in (if 0 = code then Some (case old of None \<Rightarrow> 0 | Some (_, bits) \<Rightarrow> ucast bits) else None, l'))"

definition mallctl_write :: "jemalloc_lib \<Rightarrow> string \<Rightarrow> mvalue \<Rightarrow> log \<Rightarrow> bool \<times> log" where
  "mallctl_write J name v l = (let (code, _, l') = mallctl J name (Some v) l in (0 = code, l'))"

definition mallctl_read :: "jemalloc_lib \<Rightarrow> nat \<Rightarrow> string \<Rightarrow> log \<Rightarrow> u64 option \<times> log" where
  "mallctl_read J size_of name l =
     (let (code, old, l') = mallctl J name None l
      in (case old of
            Some (sz, bits) \<Rightarrow> if 0 = code \<and> size_of = sz then Some bits else None
          | None \<Rightarrow> None, l'))"

definition arena_key :: "u32 \<Rightarrow> string \<Rightarrow> string" where
  "arena_key index field = ''arena.'' @ show_nat (unat index) @ ''.'' @ field"

section \<open>The huge arena: \<open>huge_arena.rs\<close>\<close>

definition OVERSIZE_NUDGE :: usize where
  "OVERSIZE_NUDGE = 16 * 1024 * 1024"

definition tune :: "jemalloc_lib \<Rightarrow> int \<Rightarrow> usize \<Rightarrow> log \<Rightarrow> u32 option \<times> log" where
  "tune J decay_ms oversize_threshold l =
     (case allocation_new J OVERSIZE_NUDGE l of
        (None, l1) \<Rightarrow> (None, l1)
      | (Some p, l1) \<Rightarrow>
          (case arena_of J p l1 of
             (None, l2) \<Rightarrow> (None, allocation_drop J p l2)
           | (Some arena, l2) \<Rightarrow>
               (let (_, l3) = mallctl_write J (arena_key arena ''dirty_decay_ms'') (8, word_of_int decay_ms) l2;
                    (_, l4) = mallctl_write J (arena_key arena ''muzzy_decay_ms'') (8, word_of_int decay_ms) l3;
                    (_, l5) = mallctl_write J (arena_key arena ''oversize_threshold'') (8, oversize_threshold) l4
                in (Some arena, allocation_drop J p l5))))"

section \<open>The hooks: \<open>extent_hooks.rs\<close>\<close>

datatype hook =
    Foreign ptr
  | WrappedDalloc
  | WrappedDestroy
  | WrappedDecommit
  | WrappedPurgeLazy
  | WrappedPurgeForced

definition DEFAULT :: "ptr extent_hooks" where
  "DEFAULT = \<lparr>eh_alloc = 0, eh_dalloc = 0, eh_destroy = 0, eh_commit = 0, eh_decommit = 0,
     eh_purge_lazy = 0, eh_purge_forced = 0, eh_split = 0, eh_merge = 0\<rparr>"

definition WRAPPED :: "hook extent_hooks" where
  "WRAPPED = \<lparr>eh_alloc = Foreign 0, eh_dalloc = WrappedDalloc, eh_destroy = WrappedDestroy,
     eh_commit = Foreign 0, eh_decommit = WrappedDecommit, eh_purge_lazy = WrappedPurgeLazy,
     eh_purge_forced = WrappedPurgeForced, eh_split = Foreign 0, eh_merge = Foreign 0\<rparr>"

text \<open>The three statics.\<close>

record hooks =
  hs_default :: "ptr extent_hooks"
  hs_wrapped :: "hook extent_hooks"
  hs_armed :: bool

definition hooks_initial :: hooks where
  "hooks_initial = \<lparr>hs_default = DEFAULT, hs_wrapped = WRAPPED, hs_armed = False\<rparr>"

datatype region_mode = Cached | PerOperation

record region_hooks_report =
  rr_mode :: region_mode
  rr_huge_arena :: "u32 option"
  rr_huge_arena_decay_ms :: int
  rr_huge_arena_oversize_threshold :: usize

definition read_extent_hooks :: "jemalloc_lib \<Rightarrow> u32 \<Rightarrow> log \<Rightarrow> ptr extent_hooks option \<times> log" where
  "read_extent_hooks J arena l =
     (case mallctl_read J 8 (arena_key arena ''extent_hooks'') l of
        (None, l') \<Rightarrow> (None, l')
      | (Some table, l') \<Rightarrow> (if table \<noteq> 0 then Some (je_table J table) else None, l'))"

definition write_extent_hooks :: "jemalloc_lib \<Rightarrow> u32 \<Rightarrow> log \<Rightarrow> bool \<times> log" where
  "write_extent_hooks J arena l =
     mallctl_write J (arena_key arena ''extent_hooks'') (8, je_wrapped_address J) l"

definition install ::
  "jemalloc_lib \<Rightarrow> int \<Rightarrow> usize \<Rightarrow> hooks \<Rightarrow> log \<Rightarrow> region_hooks_report \<times> hooks \<times> log" where
  "install J decay_ms oversize_threshold H l =
     (case read_extent_hooks J 0 l of
        (None, l1) \<Rightarrow>
          (\<lparr>rr_mode = PerOperation, rr_huge_arena = None, rr_huge_arena_decay_ms = decay_ms,
            rr_huge_arena_oversize_threshold = oversize_threshold\<rparr>, H, l1)
      | (Some defaults, l1) \<Rightarrow>
          (let H1 = H\<lparr>hs_default := defaults,
                 hs_wrapped := (hs_wrapped H)\<lparr>eh_alloc := Foreign (eh_alloc defaults),
                   eh_commit := Foreign (eh_commit defaults), eh_split := Foreign (eh_split defaults),
                   eh_merge := Foreign (eh_merge defaults)\<rparr>\<rparr>;
               (huge, l2) = tune J decay_ms oversize_threshold l1
           in (\<lparr>rr_mode = Cached, rr_huge_arena = huge, rr_huge_arena_decay_ms = decay_ms,
                 rr_huge_arena_oversize_threshold = oversize_threshold\<rparr>,
               H1\<lparr>hs_armed := True\<rparr>, l2)))"

definition ensure_covered :: "jemalloc_lib \<Rightarrow> hooks \<Rightarrow> ptr \<Rightarrow> log \<Rightarrow> bool \<times> log" where
  "ensure_covered J H p l =
     (if hs_armed H
      then (case arena_of J p l of
              (None, l1) \<Rightarrow> (False, l1)
            | (Some arena, l1) \<Rightarrow> write_extent_hooks J arena l1)
      else (False, l))"

text \<open>The span of an operand that is cacheable when its arena is hooked (\<open>transfer.rs\<close>).\<close>

definition covered_span :: "jemalloc_lib \<Rightarrow> hooks \<Rightarrow> ptr \<Rightarrow> usize \<Rightarrow> log \<Rightarrow> cacheable_span option" where
  "covered_span J H p len l = (if fst (ensure_covered J H p l) then span_new p len else None)"

text \<open>Chaining to a default hook, recorded in the log of the world it finds.\<close>

definition wrapped_dalloc ::
  "jemalloc_lib \<Rightarrow> hooks \<Rightarrow> usize \<Rightarrow> usize \<Rightarrow> bool \<Rightarrow> u32 \<Rightarrow> world \<Rightarrow> bool \<times> world" where
  "wrapped_dalloc J H addr sz committed arena w =
     (let w1 = invalidate addr (addr + sz) w
      in if eh_dalloc (hs_default H) \<noteq> 0
         then (let r = je_whole J (w_log w1) (eh_dalloc (hs_default H)) addr sz committed arena
               in (r, log_call (Reclaim ''dalloc'' addr sz r) w1))
         else (True, w1))"

definition wrapped_destroy ::
  "jemalloc_lib \<Rightarrow> hooks \<Rightarrow> usize \<Rightarrow> usize \<Rightarrow> bool \<Rightarrow> u32 \<Rightarrow> world \<Rightarrow> world" where
  "wrapped_destroy J H addr sz committed arena w =
     (let w1 = invalidate addr (addr + sz) w
      in if eh_destroy (hs_default H) \<noteq> 0
         then log_call (Reclaim ''destroy'' addr sz
                (je_whole J (w_log w1) (eh_destroy (hs_default H)) addr sz committed arena)) w1
         else w1)"

definition reclaim_range ::
  "jemalloc_lib \<Rightarrow> string \<Rightarrow> ptr \<Rightarrow> usize \<Rightarrow> usize \<Rightarrow> usize \<Rightarrow> usize \<Rightarrow> u32 \<Rightarrow> world \<Rightarrow> bool \<times> world" where
  "reclaim_range J what defaults addr sz offset len arena w =
     (let sub_start = addr + offset;
          w1 = invalidate sub_start (sub_start + len) w
      in if defaults \<noteq> 0
         then (let r = je_range J (w_log w1) defaults addr sz offset len arena
               in (r, log_call (Reclaim what sub_start len r) w1))
         else (True, w1))"

definition wrapped_decommit ::
  "jemalloc_lib \<Rightarrow> hooks \<Rightarrow> usize \<Rightarrow> usize \<Rightarrow> usize \<Rightarrow> usize \<Rightarrow> u32 \<Rightarrow> world \<Rightarrow> bool \<times> world" where
  "wrapped_decommit J H = reclaim_range J ''decommit'' (eh_decommit (hs_default H))"

definition wrapped_purge_lazy ::
  "jemalloc_lib \<Rightarrow> hooks \<Rightarrow> usize \<Rightarrow> usize \<Rightarrow> usize \<Rightarrow> usize \<Rightarrow> u32 \<Rightarrow> world \<Rightarrow> bool \<times> world" where
  "wrapped_purge_lazy J H = reclaim_range J ''purge_lazy'' (eh_purge_lazy (hs_default H))"

definition wrapped_purge_forced ::
  "jemalloc_lib \<Rightarrow> hooks \<Rightarrow> usize \<Rightarrow> usize \<Rightarrow> usize \<Rightarrow> usize \<Rightarrow> u32 \<Rightarrow> world \<Rightarrow> bool \<times> world" where
  "wrapped_purge_forced J H = reclaim_range J ''purge_forced'' (eh_purge_forced (hs_default H))"

section \<open>jemalloc reclaiming pages\<close>

text \<open>
  The five ways in which jemalloc gives pages back, with the extent and, for the last three, the
  part of it. A hooked arena calls through the installed table, any other through its default.
\<close>

datatype reclaim_kind = Dalloc bool | Destroy bool | Decommit | PurgeLazy | PurgeForced

record reclaim_request =
  rq_kind :: reclaim_kind
  rq_arena :: u32
  rq_addr :: usize
  rq_size :: usize
  rq_offset :: usize
  rq_length :: usize

definition rq_start :: "reclaim_request \<Rightarrow> usize" where
  "rq_start q = (case rq_kind q of Dalloc _ \<Rightarrow> rq_addr q | Destroy _ \<Rightarrow> rq_addr q | _ \<Rightarrow> rq_addr q + rq_offset q)"

definition rq_end :: "reclaim_request \<Rightarrow> usize" where
  "rq_end q = (case rq_kind q of Dalloc _ \<Rightarrow> rq_addr q + rq_size q | Destroy _ \<Rightarrow> rq_addr q + rq_size q
     | _ \<Rightarrow> rq_addr q + rq_offset q + rq_length q)"

definition table_hook :: "'h extent_hooks \<Rightarrow> reclaim_kind \<Rightarrow> 'h" where
  "table_hook t kind = (case kind of Dalloc _ \<Rightarrow> eh_dalloc t | Destroy _ \<Rightarrow> eh_destroy t
     | Decommit \<Rightarrow> eh_decommit t | PurgeLazy \<Rightarrow> eh_purge_lazy t | PurgeForced \<Rightarrow> eh_purge_forced t)"

fun committed :: "reclaim_kind \<Rightarrow> bool" where
  "committed (Dalloc c) = c"
| "committed (Destroy c) = c"
| "committed _ = True"

fun call_hook :: "jemalloc_lib \<Rightarrow> hooks \<Rightarrow> hook \<Rightarrow> reclaim_request \<Rightarrow> world \<Rightarrow> world" where
  "call_hook J H (Foreign p) q w = w"
| "call_hook J H WrappedDalloc q w =
     snd (wrapped_dalloc J H (rq_addr q) (rq_size q) (committed (rq_kind q)) (rq_arena q) w)"
| "call_hook J H WrappedDestroy q w =
     wrapped_destroy J H (rq_addr q) (rq_size q) (committed (rq_kind q)) (rq_arena q) w"
| "call_hook J H WrappedDecommit q w =
     snd (wrapped_decommit J H (rq_addr q) (rq_size q) (rq_offset q) (rq_length q) (rq_arena q) w)"
| "call_hook J H WrappedPurgeLazy q w =
     snd (wrapped_purge_lazy J H (rq_addr q) (rq_size q) (rq_offset q) (rq_length q) (rq_arena q) w)"
| "call_hook J H WrappedPurgeForced q w =
     snd (wrapped_purge_forced J H (rq_addr q) (rq_size q) (rq_offset q) (rq_length q) (rq_arena q) w)"

text \<open>
  The pages of every arena, the hooks, and the arenas whose table is the installed one. An operand
  is registered as \<open>LocalRegions::operand\<close> does it with the span above; its arena is hooked when the
  span is asked for, that is on a miss.
\<close>

record memory =
  me_world :: world
  me_hooks :: hooks
  me_hooked :: "u32 set"

definition serve_operand ::
  "jemalloc_lib \<Rightarrow> fabric \<Rightarrow> usize \<Rightarrow> ptr \<Rightarrow> usize \<Rightarrow> memory \<Rightarrow> (dma_error, local_operand) result \<times> memory" where
  "serve_operand J F domain p len M =
     (let w = me_world M; H = me_hooks M;
          (r, w') = operand_of F domain p len (covered_span J H p len) w;
          asked = (checked_add p len \<noteq> None \<and> covering_entry p (p + len) domain (w_registry w) = None);
          hooked = (if asked \<and> fst (ensure_covered J H p (w_log w))
            then insert (the (fst (arena_of J p (w_log w)))) (me_hooked M) else me_hooked M)
      in (r, M\<lparr>me_world := w', me_hooked := hooked\<rparr>))"

definition reclaim_pages :: "jemalloc_lib \<Rightarrow> reclaim_request \<Rightarrow> memory \<Rightarrow> memory" where
  "reclaim_pages J q M =
     (if rq_arena q \<in> me_hooked M
      then M\<lparr>me_world := call_hook J (me_hooks M) (table_hook (hs_wrapped (me_hooks M)) (rq_kind q)) q (me_world M)\<rparr>
      else M)"

text \<open>What is assumed of jemalloc: a lookup that succeeds names the arena that owns the address.\<close>

definition allocator_ok :: "jemalloc_lib \<Rightarrow> (usize \<Rightarrow> u32) \<Rightarrow> bool" where
  "allocator_ok J owner \<longleftrightarrow>
     (\<forall>l p old. je_mallctl J l ''arenas.lookup'' (Some (8, p)) = (0, old) \<longrightarrow>
        (\<exists>sz. old = Some (sz, ucast (owner p))))"

inductive memory_step :: "jemalloc_lib \<Rightarrow> fabric \<Rightarrow> (usize \<Rightarrow> u32) \<Rightarrow> memory \<Rightarrow> memory \<Rightarrow> bool"
  for J :: jemalloc_lib and F :: fabric and owner :: "usize \<Rightarrow> u32"
where
  operand: "\<forall>x. p \<le> x \<and> x < p + len \<longrightarrow> owner x = owner p \<Longrightarrow>
    memory_step J F owner M (snd (serve_operand J F domain p len M))"
| reclaim: "\<forall>x. rq_start q \<le> x \<and> x < rq_end q \<longrightarrow> owner x = rq_arena q \<Longrightarrow>
    memory_step J F owner M (reclaim_pages J q M)"
| lease: "memory_step J F owner M (M\<lparr>me_world := registration_drop i (me_world M)\<rparr>)"
| clear: "memory_step J F owner M (M\<lparr>me_world := clear_domain domain (me_world M)\<rparr>)"

inductive_cases memory_stepE: "memory_step J F owner M N"

definition memory_init :: "jemalloc_lib \<Rightarrow> memory \<Rightarrow> bool" where
  "memory_init J M \<longleftrightarrow> (\<exists>decay threshold l report H l'.
     install J decay threshold hooks_initial l = (report, H, l')
     \<and> M = \<lparr>me_world = \<lparr>w_log = l', w_registry = [], w_regs = no_arcs\<rparr>, me_hooks = H, me_hooked = {}\<rparr>)"

section \<open>Only hooked memory is cached\<close>

text \<open>What an operand adds to the cache: at most the span it was promised.\<close>

lemma operand_of_entries:
  assumes wf: "registry_wf (w_registry w)"
    and run: "operand_of F domain p len (\<lambda>l. if ok l then span_new p len else None) w = (r, w')"
  shows "registry_wf (w_registry w')"
    and "entry_at (w_registry w') d b = Some e \<Longrightarrow> entry_at (w_registry w) d b = Some e
      \<or> (b = p \<and> re_end e = p + len \<and> unat p + unat len < 2 ^ 64 \<and> ok (w_log w)
         \<and> covering_entry p (p + len) domain (w_registry w) = None)"
proof -
  have reg: "registry_wf (w_registry w') \<and> (entry_at (w_registry w') d b = Some e \<longrightarrow>
      entry_at (w_registry w) d b = Some e
      \<or> (b = p \<and> re_end e = p + len \<and> unat p + unat len < 2 ^ 64 \<and> ok (w_log w)
         \<and> covering_entry p (p + len) domain (w_registry w) = None))"
  proof (cases "unat p + unat len < 2 ^ 64")
    case False
    then have "checked_add p len = None" by (simp add: checked_add_def)
    then show ?thesis using run wf by (simp add: operand_of_def)
  next
    case True
    then have sum: "checked_add p len = Some (p + len)" by (simp add: checked_add_def)
    show ?thesis
    proof (cases "covering_entry p (p + len) domain (w_registry w)")
      case (Some i)
      then show ?thesis using run wf sum by (auto simp: operand_of_def covering_def)
    next
      case None
      have eq: "operand_of F domain p len (\<lambda>l. if ok l then span_new p len else None) w =
          (case widened_register F domain (p, p + len) p len (p + len) w of
             (Inl error, w2) \<Rightarrow> (Inl error, w2)
           | (Inr (base, limit, mr), w2) \<Rightarrow>
               (let (lease, w3) = registration_new mr w2;
                    w4 = (if ok (w_log w) then track base limit domain lease w3 else w3)
                in (Inr \<lparr>lo_descriptor = fi_mr_desc F mr, lo_lease = Some lease\<rparr>, w4)))"
        by (cases "ok (w_log w)")
          (simp_all add: operand_of_def sum covering_def None span_new_def span_contains_def Let_def split: sum.split prod.split)
      obtain res w2 where reg: "widened_register F domain (p, p + len) p len (p + len) w = (res, w2)"
        by (cases "widened_register F domain (p, p + len) p len (p + len) w")
      have w2: "w_registry w2 = w_registry w" "\<And>base limit mr. res = Inr (base, limit, mr) \<Longrightarrow> base = p \<and> limit = p + len"
        using reg by (auto simp: widened_register_def register_region_def Let_def split_def split: sum.splits prod.splits)
      show ?thesis
      proof (cases res)
        case (Inl error)
        then show ?thesis
          using run wf w2(1) reg unfolding eq by simp
      next
        case (Inr blm)
        obtain mr where blm: "blm = (p, p + len, mr)" using w2(2) Inr by (cases blm) auto
        obtain lease w3 where new: "registration_new mr w2 = (lease, w3)" by (cases "registration_new mr w2")
        then have w3: "w_registry w3 = w_registry w" using w2(1) by (auto simp: registration_new_def Let_def split: prod.splits)
        have "w' = (if ok (w_log w) then track p (p + len) domain lease w3 else w3)"
          using run reg Inr blm new unfolding eq by simp
        then show ?thesis
          using wf None True w3
          by (auto simp: registry_track registry_wf_track entry_at_track split: if_splits)
      qed
    qed
  qed
  then show "registry_wf (w_registry w')" by blast
  show "entry_at (w_registry w') d b = Some e \<Longrightarrow> entry_at (w_registry w) d b = Some e
      \<or> (b = p \<and> re_end e = p + len \<and> unat p + unat len < 2 ^ 64 \<and> ok (w_log w)
         \<and> covering_entry p (p + len) domain (w_registry w) = None)"
    using reg by blast
qed

text \<open>Whatever the hook, it invalidates the reclaimed range first and leaves the registry at that.\<close>

lemma call_hook_registry:
  assumes "hs_wrapped H = wr" "eh_dalloc wr = WrappedDalloc" "eh_destroy wr = WrappedDestroy"
    "eh_decommit wr = WrappedDecommit" "eh_purge_lazy wr = WrappedPurgeLazy" "eh_purge_forced wr = WrappedPurgeForced"
  shows "w_registry (call_hook J H (table_hook wr (rq_kind q)) q w) = w_registry (invalidate (rq_start q) (rq_end q) w)"
    and "table_hook (hs_default H) (rq_kind q) \<noteq> 0 \<Longrightarrow>
      \<exists>what len r. w_log (call_hook J H (table_hook wr (rq_kind q)) q w)
        = Reclaim what (rq_start q) len r # w_log (invalidate (rq_start q) (rq_end q) w)"
  using assms
  by (cases "rq_kind q"; simp add: table_hook_def wrapped_dalloc_def wrapped_destroy_def wrapped_decommit_def
      wrapped_purge_lazy_def wrapped_purge_forced_def reclaim_range_def Let_def rq_start_def rq_end_def
      log_call_def add.assoc)+

definition hooked_table :: "hook extent_hooks \<Rightarrow> bool" where
  "hooked_table t \<longleftrightarrow> eh_dalloc t = WrappedDalloc \<and> eh_destroy t = WrappedDestroy \<and> eh_decommit t = WrappedDecommit
     \<and> eh_purge_lazy t = WrappedPurgeLazy \<and> eh_purge_forced t = WrappedPurgeForced"

definition within :: "usize \<Rightarrow> region_entry \<Rightarrow> usize \<Rightarrow> bool" where
  "within base e x \<longleftrightarrow> base \<le> x \<and> x < re_end e"

definition memory_inv :: "(usize \<Rightarrow> u32) \<Rightarrow> memory \<Rightarrow> bool" where
  "memory_inv owner M \<longleftrightarrow> registry_wf (w_registry (me_world M)) \<and> hooked_table (hs_wrapped (me_hooks M))
     \<and> (\<not> hs_armed (me_hooks M) \<longrightarrow> (\<forall>d b. entry_at (w_registry (me_world M)) d b = None))
     \<and> (\<forall>d b e x. entry_at (w_registry (me_world M)) d b = Some e \<longrightarrow> within b e x \<longrightarrow> owner x \<in> me_hooked M)"

lemma memory_inv_sub:
  assumes "memory_inv owner M" "registry_wf (w_registry w)"
    and "\<And>d b e. entry_at (w_registry w) d b = Some e \<Longrightarrow> entry_at (w_registry (me_world M)) d b = Some e"
  shows "memory_inv owner (M\<lparr>me_world := w\<rparr>)"
proof -
  have "entry_at (w_registry w) d b = None" if "\<not> hs_armed (me_hooks M)" for d b
    using assms that by (cases "entry_at (w_registry w) d b") (auto simp: memory_inv_def)
  then show ?thesis using assms by (fastforce simp: memory_inv_def)
qed

lemma install_hooks:
  "install J decay threshold hooks_initial l = (report, H, l') \<Longrightarrow>
     hooked_table (hs_wrapped H) \<and> (hs_armed H \<longleftrightarrow> rr_mode report = Cached)"
  by (auto simp: install_def hooks_initial_def WRAPPED_def hooked_table_def Let_def split_def
      split: option.splits prod.splits)

lemma index_round_trip: "(ucast (ucast (k :: u32) :: u64) :: u32) = k"
  by transfer simp

lemma ensure_covered_arena:
  assumes ok: "allocator_ok J owner" and cov: "fst (ensure_covered J H p l)"
  shows "hs_armed H" "fst (arena_of J p l) = Some (owner p)"
proof -
  show "hs_armed H" using cov by (simp add: ensure_covered_def split: if_splits)
  obtain k where k: "fst (arena_of J p l) = Some k"
    using cov by (auto simp: ensure_covered_def split: if_splits prod.splits option.splits)
  obtain code old where call: "je_mallctl J l ''arenas.lookup'' (Some (8, p)) = (code, old)"
    by (cases "je_mallctl J l ''arenas.lookup'' (Some (8, p))")
  have zero: "code = 0" and kv: "k = (case old of None \<Rightarrow> 0 | Some (_, bits) \<Rightarrow> ucast bits)"
    using k call by (auto simp: arena_of_def mallctl_def Let_def split: if_splits option.splits)
  have "\<exists>sz. old = Some (sz, ucast (owner p))" using ok call zero unfolding allocator_ok_def by metis
  then show "fst (arena_of J p l) = Some (owner p)" using k kv by (auto simp: index_round_trip)
qed

lemma memory_step_inv:
  assumes ok: "allocator_ok J owner" and inv: "memory_inv owner M" and step: "memory_step J F owner M N"
  shows "memory_inv owner N"
proof -
  have wf: "registry_wf (w_registry (me_world M))" and tab: "hooked_table (hs_wrapped (me_hooks M))"
    using inv by (simp_all add: memory_inv_def)
  show ?thesis
    using step
  proof (cases rule: memory_step.cases)
    case (operand p len domain)
    let ?cov = "\<lambda>l. fst (ensure_covered J (me_hooks M) p l)"
    obtain r w' where run: "operand_of F domain p len (\<lambda>l. if ?cov l then span_new p len else None) (me_world M) = (r, w')"
      by (cases "operand_of F domain p len (\<lambda>l. if ?cov l then span_new p len else None) (me_world M)")
    have "covered_span J (me_hooks M) p len = (\<lambda>l. if ?cov l then span_new p len else None)"
      by (intro ext) (simp add: covered_span_def)
    then have N: "me_world N = w'" "me_hooks N = me_hooks M" "me_hooked M \<subseteq> me_hooked N"
      "checked_add p len \<noteq> None \<Longrightarrow> covering_entry p (p + len) domain (w_registry (me_world M)) = None \<Longrightarrow>
        ?cov (w_log (me_world M)) \<Longrightarrow> the (fst (arena_of J p (w_log (me_world M)))) \<in> me_hooked N"
      using run by (auto simp: operand(1) serve_operand_def Let_def split: prod.splits)
    note entries = operand_of_entries [OF wf run]
    have new: "owner p \<in> me_hooked N \<and> hs_armed (me_hooks M)"
      if "?cov (w_log (me_world M))" "unat p + unat len < 2 ^ 64"
        "covering_entry p (p + len) domain (w_registry (me_world M)) = None"
    proof -
      have "checked_add p len \<noteq> None" using that(2) by (simp add: checked_add_def)
      then show ?thesis using N(4) that ensure_covered_arena [OF ok that(1)] by simp
    qed
    have "owner x \<in> me_hooked N" if "entry_at (w_registry w') d b = Some e" "within b e x" for d b e x
      using entries(2) [OF that(1)]
    proof
      assume "entry_at (w_registry (me_world M)) d b = Some e"
      then have "owner x \<in> me_hooked M" using inv that(2) by (auto simp: memory_inv_def)
      then show ?thesis using N(3) by blast
    next
      assume fresh: "b = p \<and> re_end e = p + len \<and> unat p + unat len < 2 ^ 64 \<and> ?cov (w_log (me_world M))
        \<and> covering_entry p (p + len) domain (w_registry (me_world M)) = None"
      then have "owner x = owner p" using operand(2) that(2) by (simp add: within_def)
      then show ?thesis using new fresh by simp
    qed
    moreover have "entry_at (w_registry w') d b = None" if "\<not> hs_armed (me_hooks M)" for d b
      using entries(2) [of d b] new inv that by (cases "entry_at (w_registry w') d b") (auto simp: memory_inv_def)
    ultimately show ?thesis using entries(1) tab N by (auto simp: memory_inv_def)
  next
    case (reclaim q)
    show ?thesis
    proof (cases "rq_arena q \<in> me_hooked M")
      case True
      let ?w = "call_hook J (me_hooks M) (table_hook (hs_wrapped (me_hooks M)) (rq_kind q)) q (me_world M)"
      have reg: "w_registry ?w = snd (invalidate_registry (rq_start q) (rq_end q) (w_registry (me_world M)))"
        using call_hook_registry(1) [of "me_hooks M", OF refl] tab by (simp add: hooked_table_def registry_invalidate)
      have "memory_inv owner (M\<lparr>me_world := ?w\<rparr>)"
        by (rule memory_inv_sub [OF inv])
          (auto simp: reg registry_wf_invalidate [OF wf] entry_at_invalidate [OF wf] split: option.splits if_splits)
      then show ?thesis using reclaim True by (simp add: reclaim_pages_def)
    next
      case False
      then show ?thesis using reclaim inv by (simp add: reclaim_pages_def)
    qed
  next
    case (lease i)
    show ?thesis unfolding lease by (rule memory_inv_sub [OF inv]) (simp_all add: wf)
  next
    case (clear domain)
    show ?thesis
      unfolding clear
      by (rule memory_inv_sub [OF inv])
        (auto simp: registry_clear registry_wf_take [OF wf] entry_at_take [OF wf] split: if_splits)
  qed
qed

section \<open>Reclaimed memory is not registered\<close>

locale owning_allocator =
  fixes J :: jemalloc_lib and owner :: "usize \<Rightarrow> u32"
  assumes lookups: "allocator_ok J owner"

sublocale owning_allocator \<subseteq> memory: step_invariant "memory_init J" "memory_step J F owner" "memory_inv owner" for F
proof unfold_locales
  fix M assume "memory_init J M"
  then obtain decay threshold l report H l' where i: "install J decay threshold hooks_initial l = (report, H, l')"
    and M: "M = \<lparr>me_world = \<lparr>w_log = l', w_registry = [], w_regs = no_arcs\<rparr>, me_hooks = H, me_hooked = {}\<rparr>"
    by (auto simp: memory_init_def)
  show "memory_inv owner M"
    using install_hooks [OF i] by (simp add: M memory_inv_def entry_at_def bt.get_empty)
qed (rule memory_step_inv [OF lookups])

text \<open>An allocator of a single arena whose every call succeeds; its default hooks are not null.\<close>

definition sample_allocator :: jemalloc_lib where
  "sample_allocator = \<lparr>je_mallctl_symbol = 1, je_malloc_symbol = 2, je_free_symbol = 3,
     je_mallctl = (\<lambda>_ name _. if name = ''arenas.lookup'' then (0, Some (4, 0)) else (0, Some (8, 77))),
     je_malloc = (\<lambda>_ _. 4096),
     je_table = (\<lambda>_. \<lparr>eh_alloc = 1, eh_dalloc = 2, eh_destroy = 3, eh_commit = 4, eh_decommit = 5,
       eh_purge_lazy = 6, eh_purge_forced = 7, eh_split = 8, eh_merge = 9\<rparr>),
     je_whole = (\<lambda>_ _ _ _ _ _. False), je_range = (\<lambda>_ _ _ _ _ _ _. False), je_wrapped_address = 512\<rparr>"

interpretation one_arena: owning_allocator sample_allocator "\<lambda>_. 0"
  by unfold_locales (simp add: allocator_ok_def sample_allocator_def)

context owning_allocator
begin

lemma reachable_memory: "reachable (memory_init J) (memory_step J F owner) M \<Longrightarrow> memory_inv owner M"
  by (rule memory.reachable_inv)

end

text \<open>
  C6. Reclaimed memory is not registered. Whatever operands were registered before and wherever they
  lie, when jemalloc has reclaimed a range of pages of an arena, through the hooks or, in an arena
  that was never hooked, without them, no cached registration overlaps the range; in a hooked arena
  the registrations were retired before jemalloc's own hook ran; and without hooks (no jemalloc)
  nothing is cached at all.
\<close>

theorem reclaimed_memory_is_not_registered:
  assumes "allocator_ok J owner" "reachable (memory_init J) (memory_step J F owner) M"
    and "\<forall>x. rq_start q \<le> x \<and> x < rq_end q \<longrightarrow> owner x = rq_arena q"
    and "start < rq_end q" "rq_start q < end" "start < end" "rq_start q < rq_end q"
  shows "fst (covering start end domain (me_world (reclaim_pages J q M))) = None
    \<and> (rq_arena q \<in> me_hooked M \<and> table_hook (hs_default (me_hooks M)) (rq_kind q) \<noteq> 0 \<longrightarrow>
        (\<exists>what len r. w_log (me_world (reclaim_pages J q M))
          = Reclaim what (rq_start q) len r # w_log (invalidate (rq_start q) (rq_end q) (me_world M))))
    \<and> (\<not> hs_armed (me_hooks M) \<longrightarrow> fst (covering start end domain (me_world M)) = None)"
proof -
  have "owning_allocator J owner" using assms(1) by unfold_locales
  then have inv: "memory_inv owner M" by (rule owning_allocator.reachable_memory) (rule assms(2))
  then have wf: "registry_wf (w_registry (me_world M))" and tab: "hooked_table (hs_wrapped (me_hooks M))"
    by (simp_all add: memory_inv_def)
  note hook = call_hook_registry [of "me_hooks M", OF refl, where J = J and q = q and w = "me_world M"]
  have miss: "fst (covering start end domain w) = None"
    if "covering_entry start end domain (w_registry w) = None" for w
    using that by (simp add: covering_def)
  show ?thesis
  proof (intro conjI impI)
    show "fst (covering start end domain (me_world (reclaim_pages J q M))) = None"
    proof (cases "rq_arena q \<in> me_hooked M")
      case True
      then show ?thesis
        using covering_after_invalidate [OF wf assms(4-7)] hook(1) tab
        by (intro miss) (simp add: reclaim_pages_def hooked_table_def registry_invalidate)
    next
      case False
      have "covering_entry start end domain (w_registry (me_world M)) = None"
      proof (rule ccontr)
        assume "covering_entry start end domain (w_registry (me_world M)) \<noteq> None"
        then obtain base e where e: "entry_at (w_registry (me_world M)) domain base = Some e"
          "base \<le> start" "end \<le> re_end e"
          using covering_entry_iff [OF wf] by blast
        let ?x = "max start (rq_start q)"
        have "within base e ?x" using e(2,3) assms(5,6) by (auto simp: within_def max_def)
        then have "owner ?x \<in> me_hooked M" using inv e(1) by (auto simp: memory_inv_def)
        moreover have "owner ?x = rq_arena q" using assms(3,4,7) by (simp add: max_def)
        ultimately show False using False by simp
      qed
      then show ?thesis by (intro miss) (simp add: reclaim_pages_def False)
    qed
  next
    assume "rq_arena q \<in> me_hooked M \<and> table_hook (hs_default (me_hooks M)) (rq_kind q) \<noteq> 0"
    then show "\<exists>what len r. w_log (me_world (reclaim_pages J q M))
        = Reclaim what (rq_start q) len r # w_log (invalidate (rq_start q) (rq_end q) (me_world M))"
      using hook(2) tab by (simp add: reclaim_pages_def hooked_table_def)
  next
    assume "\<not> hs_armed (me_hooks M)"
    then have none: "entry_at (w_registry (me_world M)) domain b = None" for b using inv by (simp add: memory_inv_def)
    have "covering_entry start end domain (w_registry (me_world M)) = None"
      using covering_entry_iff [OF wf, of start "end" domain] none by (cases "covering_entry start end domain (w_registry (me_world M))") auto
    then show "fst (covering start end domain (me_world M)) = None" by (rule miss)
  qed
qed

text \<open>An operand of the single arena is registered and cached, and its page purged.\<close>

definition sample_memory :: memory where
  "sample_memory = (case install sample_allocator 1000 536870912 hooks_initial [] of
     (report, H, l) \<Rightarrow> snd (serve_operand sample_allocator loopback 1 8192 100
       \<lparr>me_world = \<lparr>w_log = l, w_registry = [], w_regs = no_arcs\<rparr>, me_hooks = H, me_hooked = {}\<rparr>))"

definition sample_purge :: reclaim_request where
  "sample_purge = \<lparr>rq_kind = PurgeLazy, rq_arena = 0, rq_addr = 4096, rq_size = 65536, rq_offset = 4096, rq_length = 4096\<rparr>"

text \<open>On the sample allocator every lookup and write succeeds, so an operand is cached.\<close>

lemmas sample_defs = sample_allocator_def mallctl_def mallctl_read_def mallctl_write_def jemalloc_present_def

lemma sample_calls:
  "arena_of sample_allocator p l = (Some 0, Mallctl ''arenas.lookup'' 0 # l)"
  "mallctl_write sample_allocator name v l = (True, Mallctl name 0 # l)"
  "mallctl_read sample_allocator 8 (arena_key k f) l = (Some 77, Mallctl (arena_key k f) 0 # l)"
  by (simp_all add: arena_of_def sample_defs arena_key_def)

lemma sample_covered: "hs_armed H \<Longrightarrow> fst (ensure_covered sample_allocator H p l)"
  by (simp add: ensure_covered_def write_extent_hooks_def sample_calls)

lemma sample_armed: "install sample_allocator d t hooks_initial l = (report, H, l') \<Longrightarrow> hs_armed H"
  by (auto simp: install_def read_extent_hooks_def sample_calls Let_def split: prod.splits)

lemma sample_registry: "w_registry (me_world sample_memory)
    = [\<lparr>dr_domain = 1, dr_regions = [(8192, \<lparr>re_end = 8292, re_registration = 0\<rparr>)]\<rparr>]"
proof -
  obtain report H l where i: "install sample_allocator 1000 536870912 hooks_initial [] = (report, H, l)"
    by (cases "install sample_allocator 1000 536870912 hooks_initial []")
  show ?thesis
    using sample_armed [OF i]
    by (simp add: sample_memory_def i serve_operand_def operand_of_def covered_span_def sample_covered
        checked_add_def covering_def covering_entry_def span_new_def span_contains_def widened_register_def
        register_region_def loopback_def check_def log_call_def registration_new_def arc_new_def no_arcs_def
        registry_track Let_def)
qed

theorem reclaimed_memory_is_not_registered_witness:
  "fst (covering 8192 8292 1 (me_world sample_memory)) \<noteq> None
   \<and> fst (covering 8192 8292 1 (me_world (reclaim_pages sample_allocator sample_purge sample_memory))) = None"
proof -
  obtain report H l where i: "install sample_allocator 1000 536870912 hooks_initial [] = (report, H, l)"
    by (cases "install sample_allocator 1000 536870912 hooks_initial []")
  let ?M0 = "\<lparr>me_world = \<lparr>w_log = l, w_registry = [], w_regs = no_arcs\<rparr>, me_hooks = H, me_hooked = {}\<rparr>"
  have a: "reachable (memory_init sample_allocator) (memory_step sample_allocator loopback (\<lambda>_. 0)) ?M0"
    by (rule reach_init) (use i in \<open>auto simp: memory_init_def\<close>)
  have r: "reachable (memory_init sample_allocator) (memory_step sample_allocator loopback (\<lambda>_. 0)) sample_memory"
    unfolding sample_memory_def i prod.case by (rule reach_step [OF a memory_step.operand]) simp
  have "fst (covering 8192 8292 1 (me_world sample_memory)) \<noteq> None"
    by (simp add: covering_def covering_entry_def sample_registry bt_last_le_def)
  moreover have "fst (covering 8192 8292 1 (me_world (reclaim_pages sample_allocator sample_purge sample_memory))) = None"
    using reclaimed_memory_is_not_registered [OF one_arena.lookups r, of sample_purge 8192 8292 1]
    by (simp add: sample_purge_def rq_start_def rq_end_def)
  ultimately show ?thesis by simp
qed

end
