(* ===== verification/Commands.thy ===== *)
theory Commands
  imports Memory Endpoint_Setup
begin

text \<open>
  \<open>entry.rs\<close>, \<open>session.rs\<close>, \<open>static_state.rs\<close>, \<open>valkey_error.rs\<close> and \<open>valkey_logger.rs\<close> of the module:
  its start, its statics, the parsing of the arguments of \<open>DMA.SET\<close> and \<open>DMA.GET\<close>, and \<open>DMA.INFO\<close>.
  An argument or a key is its bytes. Lines written to valkey's log are a list of notices, newest
  last. The file system and the parser of TOML text are parameters.
\<close>

section \<open>Replies and errors: \<open>valkey_error.rs\<close>\<close>

datatype valkey_error = ErrString string | ErrStr string | WrongArity

datatype valkey_value = Array "valkey_value list" | IntegerValue int | SimpleString string | Null | NoReply

type_synonym valkey_result = "(valkey_error, valkey_value) result"

definition command_error :: "string \<Rightarrow> valkey_error" where
  "command_error shown = ErrString (''ERR '' @ shown)"

section \<open>Lines for the operator: \<open>valkey_logger.rs\<close>\<close>

datatype notice = LogNotice string | LogWarning string

definition lifecycle :: "string \<Rightarrow> notice list \<Rightarrow> notice list" where
  "lifecycle message out = out @ [LogNotice message]"

definition fatal :: "string \<Rightarrow> notice list \<Rightarrow> notice list" where
  "fatal message out = out @ [LogWarning message]"

definition log_warning :: "string \<Rightarrow> notice list \<Rightarrow> notice list" where
  "log_warning message out = out @ [LogWarning message]"

section \<open>Global state: \<open>static_state.rs\<close>\<close>

record statics =
  st_config_file :: string
  st_configuration :: "configuration option"

definition config_file_path :: "statics \<Rightarrow> string option" where
  "config_file_path st = (if st_config_file st = '''' then None else Some (st_config_file st))"

definition set_configuration :: "configuration \<Rightarrow> statics \<Rightarrow> statics" where
  "set_configuration c st =
     (case st_configuration st of None \<Rightarrow> st\<lparr>st_configuration := Some c\<rparr> | Some _ \<Rightarrow> st)"

definition active_configuration :: "statics \<Rightarrow> configuration" where
  "active_configuration st = (case st_configuration st of Some c \<Rightarrow> c | None \<Rightarrow> default_configuration)"

section \<open>The start of the module: \<open>entry.rs\<close>\<close>

definition em_dash :: string where
  "em_dash = [char_of (226::nat), char_of (128::nat), char_of (148::nat)]"

definition configure_allocator ::
  "jemalloc_lib \<Rightarrow> int \<Rightarrow> usize \<Rightarrow> hooks \<Rightarrow> log \<Rightarrow> notice list \<Rightarrow> hooks \<times> log \<times> notice list" where
  "configure_allocator J decay_ms oversize_threshold H l out =
     (let (report, H1, l1) = install J decay_ms oversize_threshold H l
      in if rr_mode report = PerOperation
         then (H1, l1, log_warning (''valkey-dma: no jemalloc in the host, so RMA operands are registered per transfer and ''
             @ ''deregistered on completion. Correct, but fi_mr_reg runs on the fabric worker for every ''
             @ ''transfer '' @ em_dash @ '' expect far lower throughput. Run against a jemalloc build for production.'') out)
         else (H1, l1, lifecycle (''valkey-dma: tuned huge arena ''
             @ (case rr_huge_arena report of None \<Rightarrow> ''none'' | Some index \<Rightarrow> show_nat (unat index))
             @ '' '' @ em_dash @ '' decay window '' @ show_int (rr_huge_arena_decay_ms report)
             @ ''ms, oversize_threshold ''
             @ show_nat (unat (rr_huge_arena_oversize_threshold report) div (1024 * 1024)) @ '' MiB; ''
             @ ''arenas are hooked lazily per registration (decay stays ON '' @ em_dash
             @ '' hooks deregister covered pages before purge; freed values below the threshold recycle in place)'') out))"

text \<open>
  \<open>load_configuration\<close>. \<open>read_file\<close> is the file system, with its errors as shown; \<open>parse\<close> is the
  configuration's \<open>from_toml\<close> on the text of the document.
\<close>

definition load_configuration ::
  "(string \<Rightarrow> (string, string) result) \<Rightarrow> (string \<Rightarrow> (configuration_error, configuration) result)
    \<Rightarrow> statics \<Rightarrow> (string, configuration) result" where
  "load_configuration read_file parse st =
     (case config_file_path st of
        Some path \<Rightarrow>
          (case read_file path of
             Inl e \<Rightarrow> Inl (''reading '' @ path @ '': '' @ e)
           | Inr document \<Rightarrow>
               (case parse document of
                  Inl e \<Rightarrow> Inl (configuration_error_display e)
                | Inr c \<Rightarrow> Inr c))
      | None \<Rightarrow> Inr default_configuration)"

datatype status = StatusOk | StatusErr

fun show_provider :: "provider \<Rightarrow> string" where
  "show_provider Tcp = ''Tcp''"
| "show_provider EfaDirect = ''EfaDirect''"

definition module_init ::
  "string \<Rightarrow> (string \<Rightarrow> (string, string) result) \<Rightarrow> (string \<Rightarrow> (configuration_error, configuration) result)
    \<Rightarrow> jemalloc_lib \<Rightarrow> statics \<Rightarrow> hooks \<Rightarrow> log \<Rightarrow> notice list
    \<Rightarrow> status \<times> statics \<times> hooks \<times> log \<times> notice list" where
  "module_init build read_file parse J st H l out =
     (let out1 = lifecycle (''valkey-dma module starting, build '' @ build) out
      in case load_configuration read_file parse st of
           Inl e \<Rightarrow> (StatusErr, st, H, l, fatal (''failed to load configuration: '' @ e) out1)
         | Inr c \<Rightarrow>
             (let (H1, l1, out2) = configure_allocator J (jc_huge_arena_decay_ms (root_jemalloc c))
                    (word_of_nat (jc_huge_arena_oversize_threshold (root_jemalloc c))) H l out1;
                  st1 = set_configuration c st;
                  active = active_configuration st1
              in (StatusOk, st1, H1, l1,
                  lifecycle (''valkey-dma configuration loaded: dma-libfabric providers [''
                    @ join '', '' (map show_provider (lc_providers (root_libfabric active))) @ '']'') out2)))"

section \<open>Arguments of the data commands\<close>

record data_args =
  da_advertisement :: advertisement
  da_length :: usize
  da_key :: "u8 list"
  da_crc :: "u8 list option"

definition parse_length :: "u8 list \<Rightarrow> (valkey_error, usize) result" where
  "parse_length raw =
     (case parse_ascii raw of
        None \<Rightarrow> Inl (ErrStr ''ERR length is not an integer or out of range'')
      | Some n \<Rightarrow> Inr n)"

definition parse_crc :: "u8 list \<Rightarrow> (valkey_error, u32) result" where
  "parse_crc raw =
     (case parse_ascii raw of
        None \<Rightarrow> Inl (ErrStr ''ERR crc is not an integer or out of range'')
      | Some n \<Rightarrow> Inr n)"

definition parse_data_args :: "u8 list list \<Rightarrow> (valkey_error, data_args) result" where
  "parse_data_args args =
     (let base = 3 + ARG_COUNT
      in if length args \<noteq> base \<and> length args \<noteq> base + 1 then Inl WrongArity
         else case from_fields [args ! 1, args ! 2, args ! 3] of
                Inl e \<Rightarrow> Inl (command_error (advertisement_error_display e))
              | Inr advertisement \<Rightarrow>
                  (case parse_length (args ! (base - 2)) of
                     Inl e \<Rightarrow> Inl e
                   | Inr len \<Rightarrow>
                       Inr \<lparr>da_advertisement = advertisement, da_length = len, da_key = args ! (base - 1),
                         da_crc = (if base < length args then Some (args ! base) else None)\<rparr>))"

text \<open>The arguments as \<open>dma_set_command\<close> and \<open>dma_get_command\<close> hand them on.\<close>

definition set_arguments :: "u8 list list \<Rightarrow> (valkey_error, data_args \<times> u32 option) result" where
  "set_arguments args =
     (case parse_data_args args of
        Inl e \<Rightarrow> Inl e
      | Inr parsed \<Rightarrow>
          (case da_crc parsed of
             None \<Rightarrow> Inr (parsed, None)
           | Some raw \<Rightarrow>
               (case parse_crc raw of Inl e \<Rightarrow> Inl e | Inr crc \<Rightarrow> Inr (parsed, Some crc))))"

section \<open>The endpoint of \<open>DMA.INFO\<close>: \<open>session.rs\<close>\<close>

definition with_endpoint ::
  "fi_library \<Rightarrow> fabric \<Rightarrow> configuration \<Rightarrow> (lib_endpoint \<Rightarrow> (dma_error, 'r) result)
    \<Rightarrow> lib_endpoint option \<Rightarrow> setup_log \<Rightarrow> world
    \<Rightarrow> (dma_error, 'r) result \<times> lib_endpoint option \<times> setup_log \<times> world" where
  "with_endpoint S F c body cell l w =
     (case cell of
        Some le \<Rightarrow> (body le, cell, l, w)
      | None \<Rightarrow>
          (case open_endpoint S F (root_libfabric c) (lc_bind (root_libfabric c)) l w of
             (Inl e, l', w') \<Rightarrow> (Inl e, None, l', w')
           | (Inr le, l', w') \<Rightarrow> (body le, Some le, l', w')))"

definition session_endpoint_info ::
  "fi_library \<Rightarrow> fabric \<Rightarrow> configuration \<Rightarrow> lib_endpoint option \<Rightarrow> setup_log \<Rightarrow> world
    \<Rightarrow> (dma_error, endpoint_info) result \<times> lib_endpoint option \<times> setup_log \<times> world" where
  "session_endpoint_info S F c = with_endpoint S F c (\<lambda>le. Inr (describe le))"

definition dma_info_command ::
  "fi_library \<Rightarrow> fabric \<Rightarrow> statics \<Rightarrow> lib_endpoint option \<Rightarrow> setup_log \<Rightarrow> world
    \<Rightarrow> valkey_result \<times> lib_endpoint option \<times> setup_log \<times> world" where
  "dma_info_command S F st cell l w =
     (case session_endpoint_info S F (active_configuration st) cell l w of
        (Inr info, cell', l', w') \<Rightarrow>
          (Inr (Array (map SimpleString (info_lines (su_constants S) info))), cell', l', w')
      | (Inl e, cell', l', w') \<Rightarrow> (Inl (command_error (dma_error_display e)), cell', l', w'))"

section \<open>The parsing is exact\<close>

lemma six_elements: "length args = 6 \<longleftrightarrow> (\<exists>c a k r n key. args = [c, a, k, r, n, key])"
  by (auto simp: numeral_eq_Suc length_Suc_conv)

lemma seven_elements: "length args = 7 \<longleftrightarrow> (\<exists>c a k r n key crc. args = [c, a, k, r, n, key, crc])"
  by (auto simp: numeral_eq_Suc length_Suc_conv)

text \<open>Before the checksum is read, its bytes are taken as they are.\<close>

lemma parse_data_args_exact:
  "(parse_data_args args = Inr d \<longleftrightarrow>
     (\<exists>c a k r n rest. args = [c, a, k, r, n, da_key d] @ rest \<and> length rest \<le> 1
        \<and> from_fields [a, k, r] = Inr (da_advertisement d) \<and> parse_ascii n = Some (da_length d)
        \<and> da_crc d = (case rest of [] \<Rightarrow> None | crc # _ \<Rightarrow> Some crc)))
   \<and> (parse_data_args args = Inl WrongArity \<longleftrightarrow> length args \<notin> {6, 7})"
proof -
  have accepted: "parse_data_args ([c, a, k, r, n, key] @ rest) = Inr d \<longleftrightarrow>
      from_fields [a, k, r] = Inr (da_advertisement d) \<and> parse_ascii n = Some (da_length d) \<and> da_key d = key
      \<and> da_crc d = (case rest of [] \<Rightarrow> None | crc # _ \<Rightarrow> Some crc)"
    if "length rest \<le> 1" for c a k r n key rest
    using that
    by (cases rest) (auto simp: parse_data_args_def ARG_COUNT_def parse_length_def split: sum.splits option.splits)
  have shape: "length args \<in> {6, 7} \<longleftrightarrow> (\<exists>c a k r n key rest. args = [c, a, k, r, n, key] @ rest \<and> length rest \<le> 1)"
  proof
    assume "length args \<in> {6, 7}"
    then consider "length args = 6" | "length args = 7" by auto
    then show "\<exists>c a k r n key rest. args = [c, a, k, r, n, key] @ rest \<and> length rest \<le> 1"
    proof cases
      case 2
      then obtain c a k r n key crc where "args = [c, a, k, r, n, key] @ [crc]" by (auto simp: seven_elements)
      then show ?thesis by force
    qed (force simp: six_elements)
  qed (auto simp: le_Suc_eq length_Suc_conv)
  have refused: "length args \<notin> {6, 7} \<longleftrightarrow> parse_data_args args = Inl WrongArity"
    by (auto simp: parse_data_args_def ARG_COUNT_def parse_length_def command_error_def split: sum.splits option.splits)
  show ?thesis
  proof (intro conjI)
    show "parse_data_args args = Inl WrongArity \<longleftrightarrow> length args \<notin> {6, 7}" using refused by blast
    show "parse_data_args args = Inr d \<longleftrightarrow>
       (\<exists>c a k r n rest. args = [c, a, k, r, n, da_key d] @ rest \<and> length rest \<le> 1
          \<and> from_fields [a, k, r] = Inr (da_advertisement d) \<and> parse_ascii n = Some (da_length d)
          \<and> da_crc d = (case rest of [] \<Rightarrow> None | crc # _ \<Rightarrow> Some crc))"
    proof
      assume parsed: "parse_data_args args = Inr d"
      then have "length args \<in> {6, 7}" using refused by auto
      then obtain c a k r n key rest where args: "args = [c, a, k, r, n, key] @ rest" "length rest \<le> 1"
        using shape by auto
      with parsed accepted [OF args(2), of c a k r n key]
      show "\<exists>c a k r n rest. args = [c, a, k, r, n, da_key d] @ rest \<and> length rest \<le> 1
          \<and> from_fields [a, k, r] = Inr (da_advertisement d) \<and> parse_ascii n = Some (da_length d)
          \<and> da_crc d = (case rest of [] \<Rightarrow> None | crc # _ \<Rightarrow> Some crc)"
        by blast
    next
      assume "\<exists>c a k r n rest. args = [c, a, k, r, n, da_key d] @ rest \<and> length rest \<le> 1
          \<and> from_fields [a, k, r] = Inr (da_advertisement d) \<and> parse_ascii n = Some (da_length d)
          \<and> da_crc d = (case rest of [] \<Rightarrow> None | crc # _ \<Rightarrow> Some crc)"
      then show "parse_data_args args = Inr d" using accepted by blast
    qed
  qed
qed

text \<open>
  C18. A data command is accepted exactly when its arguments are a command, an advertisement, a length, a
  key and at most a checksum, each well formed; then every field comes from its own position, the
  key is taken as it is, and the checksum that \<open>DMA.SET\<close> verifies is the number its argument says, and
  none without the argument. \<open>DMA.GET\<close> takes the presence of the last argument alone. A wrong number of
  arguments is always an arity error, never a panic on a missing argument.
\<close>

theorem data_arguments_are_parsed_exactly:
  "(set_arguments args = Inr (d, crc) \<longleftrightarrow>
     (\<exists>c a k r n rest. args = [c, a, k, r, n, da_key d] @ rest \<and> length rest \<le> 1
        \<and> from_fields [a, k, r] = Inr (da_advertisement d) \<and> parse_ascii n = Some (da_length d)
        \<and> (case rest of [] \<Rightarrow> da_crc d = None \<and> crc = None
           | raw # _ \<Rightarrow> da_crc d = Some raw \<and> crc \<noteq> None \<and> parse_ascii raw = crc)))
   \<and> (parse_data_args args = Inr d \<longleftrightarrow>
     (\<exists>c a k r n rest. args = [c, a, k, r, n, da_key d] @ rest \<and> length rest \<le> 1
        \<and> from_fields [a, k, r] = Inr (da_advertisement d) \<and> parse_ascii n = Some (da_length d)
        \<and> da_crc d = (case rest of [] \<Rightarrow> None | raw # _ \<Rightarrow> Some raw)))
   \<and> (set_arguments args = Inl WrongArity \<longleftrightarrow> length args \<notin> {6, 7})
   \<and> (parse_data_args args = Inl WrongArity \<longleftrightarrow> length args \<notin> {6, 7})"
proof -
  have crc: "set_arguments args = Inr (d, crc) \<longleftrightarrow> parse_data_args args = Inr d
      \<and> (case da_crc d of None \<Rightarrow> crc = None | Some raw \<Rightarrow> crc \<noteq> None \<and> parse_ascii raw = crc)"
    by (auto simp: set_arguments_def parse_crc_def split: sum.splits option.splits)
  have arity: "set_arguments args = Inl WrongArity \<longleftrightarrow> parse_data_args args = Inl WrongArity"
    by (auto simp: set_arguments_def parse_crc_def split: sum.splits option.splits)
  have last: "v = (case rest of [] \<Rightarrow> None | raw # _ \<Rightarrow> Some raw)
        \<and> (case v of None \<Rightarrow> crc = None | Some raw \<Rightarrow> crc \<noteq> None \<and> parse_ascii raw = crc)
      \<longleftrightarrow> (case rest of [] \<Rightarrow> v = None \<and> crc = None | raw # _ \<Rightarrow> v = Some raw \<and> crc \<noteq> None \<and> parse_ascii raw = crc)"
    for v and rest :: "u8 list list"
    by (cases rest; cases v) auto
  have "set_arguments args = Inr (d, crc) \<longleftrightarrow>
     (\<exists>c a k r n rest. args = [c, a, k, r, n, da_key d] @ rest \<and> length rest \<le> 1
        \<and> from_fields [a, k, r] = Inr (da_advertisement d) \<and> parse_ascii n = Some (da_length d)
        \<and> (case rest of [] \<Rightarrow> da_crc d = None \<and> crc = None
           | raw # _ \<Rightarrow> da_crc d = Some raw \<and> crc \<noteq> None \<and> parse_ascii raw = crc))"
    (is "_ \<longleftrightarrow> ?given")
  proof
    assume "set_arguments args = Inr (d, crc)"
    then obtain c a k r n rest where at: "args = [c, a, k, r, n, da_key d] @ rest" "length rest \<le> 1"
        "from_fields [a, k, r] = Inr (da_advertisement d)" "parse_ascii n = Some (da_length d)"
      and v: "da_crc d = (case rest of [] \<Rightarrow> None | raw # _ \<Rightarrow> Some raw)"
        "case da_crc d of None \<Rightarrow> crc = None | Some raw \<Rightarrow> crc \<noteq> None \<and> parse_ascii raw = crc"
      unfolding crc parse_data_args_exact [THEN conjunct1] by blast
    with last [of "da_crc d" rest] show ?given by blast
  next
    assume ?given
    then obtain c a k r n rest where at: "args = [c, a, k, r, n, da_key d] @ rest" "length rest \<le> 1"
        "from_fields [a, k, r] = Inr (da_advertisement d)" "parse_ascii n = Some (da_length d)"
      and v: "case rest of [] \<Rightarrow> da_crc d = None \<and> crc = None
        | raw # _ \<Rightarrow> da_crc d = Some raw \<and> crc \<noteq> None \<and> parse_ascii raw = crc" by blast
    with last [of "da_crc d" rest] show "set_arguments args = Inr (d, crc)"
      unfolding crc parse_data_args_exact [THEN conjunct1] by blast
  qed
  moreover note parse_data_args_exact [of args d]
  ultimately show ?thesis unfolding arity by (elim conjE, intro conjI)
qed

end
