(* ===== verification/Transfers.thy ===== *)
theory Transfers
  imports Commands Service_Refinement Pool "HOL-Library.Product_Lexorder"
begin

text \<open>
  \<open>transfer.rs\<close> of the module: the token each operation carries to the worker and back, the choice
  of a device, \<open>DMA.GET\<close> and \<open>DMA.SET\<close>, and the completion of batches. The module's state is the
  services it started, one per device, the batches whose completion hook has not taken the lock
  yet, the replies staged under the lock and not yet sent, and a log of what it did to valkey. The
  module API of valkey is a record of parameters that see this log. A blocked client is named by
  the order in which clients were blocked. Tracing spans have no counterpart.
\<close>

section \<open>The module API\<close>

type_synonym key = "u8 list"

record vstring =
  vs_pointer :: ptr
  vs_length :: usize

datatype vcall =
    ReadKey key
  | BlockClient nat
  | Retain key vstring
  | CopyValue key
  | DropValue vstring
  | FreeBuffer vstring
  | SetMove key vstring bool
  | Replied nat valkey_result

type_synonym vlog = "vcall list"

text \<open>\<open>DropValue\<close> gives back a retained value, \<open>FreeBuffer\<close> frees a landing buffer.\<close>

text \<open>
  \<open>read\<close> of a key opened for reading, the retained reference to its value, the address of a fresh
  copy, the buffer made for a blocked client, and whether moving a buffer into a key succeeds.
\<close>

record valkey =
  vk_read :: "vlog \<Rightarrow> key \<Rightarrow> (unit, u8 list option) result"
  vk_retained :: "vlog \<Rightarrow> key \<Rightarrow> vstring option"
  vk_copy :: "vlog \<Rightarrow> u8 list \<Rightarrow> ptr"
  vk_create :: "nat \<Rightarrow> usize \<Rightarrow> ptr"
  vk_set_move :: "vlog \<Rightarrow> key \<Rightarrow> vstring \<Rightarrow> bool"

section \<open>The token of an operation\<close>

datatype held_value = Retained vstring | Copied vstring

fun as_bytes :: "held_value \<Rightarrow> ptr \<times> usize" where
  "as_bytes (Retained v) = (vs_pointer v, vs_length v)"
| "as_bytes (Copied v) = (vs_pointer v, vs_length v)"

datatype op_token =
    GetToken nat held_value
  | SetToken nat "vstring option" key "u32 option"

fun token_client :: "op_token \<Rightarrow> nat" where
  "token_client (GetToken blocked _) = blocked"
| "token_client (SetToken blocked _ _ _) = blocked"

fun token_source :: "op_token \<Rightarrow> (ptr \<times> usize) option" where
  "token_source (GetToken _ kept) = Some (as_bytes kept)"
| "token_source (SetToken _ _ _ _) = None"

fun token_allocate :: "valkey \<Rightarrow> op_token \<Rightarrow> usize \<Rightarrow> (ptr \<times> usize) option \<times> op_token" where
  "token_allocate V (SetToken blocked _ key crc) len =
     (let v = \<lparr>vs_pointer = vk_create V blocked len, vs_length = len\<rparr>
      in (Some (vs_pointer v, vs_length v), SetToken blocked (Some v) key crc))"
| "token_allocate V (GetToken blocked kept) len = (None, GetToken blocked kept)"

definition token_cacheable_span :: "jemalloc_lib \<Rightarrow> hooks \<Rightarrow> log \<Rightarrow> op_token \<Rightarrow> cacheable_span option" where
  "token_cacheable_span J H l token =
     (case (case token of GetToken _ kept \<Rightarrow> Some (as_bytes kept)
            | SetToken _ destination _ _ \<Rightarrow> map_option (\<lambda>v. (vs_pointer v, vs_length v)) destination) of
        None \<Rightarrow> None
      | Some (pointer, len) \<Rightarrow> covered_span J H pointer len l)"

definition token_operands :: "valkey \<Rightarrow> jemalloc_lib \<Rightarrow> hooks \<Rightarrow> op_token operands" where
  "token_operands V J H = \<lparr>op_source = token_source, op_allocate = token_allocate V,
     op_cacheable_span = token_cacheable_span J H\<rparr>"

section \<open>Finishing a transfer\<close>

definition hex8 :: "u32 \<Rightarrow> string" where
  "hex8 n = ''0x'' @ pad_zeros 8 (show_hex (unat n))"

fun get_reply :: "(dma_error, transfer_done) result \<Rightarrow> valkey_result" where
  "get_reply (Inr done) =
     (case td_checksum done of
        Some c \<Rightarrow> Inr (Array [IntegerValue (sint (td_bytes done)), IntegerValue (uint c)])
      | None \<Rightarrow> Inr (IntegerValue (sint (td_bytes done))))"
| "get_reply (Inl e) = Inl (command_error (dma_error_display e))"

definition drop_buffer :: "vstring option \<Rightarrow> vlog \<Rightarrow> vlog" where
  "drop_buffer v l = (case v of None \<Rightarrow> l | Some b \<Rightarrow> FreeBuffer b # l)"

definition checksum_mismatch :: "u32 \<Rightarrow> u32 \<Rightarrow> valkey_error" where
  "checksum_mismatch expected actual = ErrString (''ERR checksum mismatch: client '' @ hex8 expected
     @ '', server '' @ hex8 actual @ '' (value not stored)'')"

definition set_reply ::
  "valkey \<Rightarrow> (dma_error, transfer_done) result \<Rightarrow> vstring option \<Rightarrow> key \<Rightarrow> u32 option \<Rightarrow> vlog
    \<Rightarrow> valkey_result \<times> vlog" where
  "set_reply V outcome destination key expected_crc l =
     (case outcome of
        Inl e \<Rightarrow> (Inl (command_error (dma_error_display e)), drop_buffer destination l)
      | Inr done \<Rightarrow>
          (let actual = (case td_checksum done of Some c \<Rightarrow> c | None \<Rightarrow> 0)
           in if expected_crc \<noteq> None \<and> actual \<noteq> the expected_crc
              then (Inl (checksum_mismatch (the expected_crc) actual), drop_buffer destination l)
              else case destination of
                     None \<Rightarrow> (Inl (ErrStr ''ERR landing buffer missing''), l)
                   | Some v \<Rightarrow>
                       (let moved = vk_set_move V l key v
                        in (if moved then Inr (IntegerValue (sint (td_bytes done)))
                            else Inl (ErrStr ''ERR failed to store value''), SetMove key v moved # l))))"

record pending_reply =
  pg_blocked :: nat
  pg_reply :: valkey_result

fun finish_under_gil ::
  "valkey \<Rightarrow> op_token \<Rightarrow> (dma_error, transfer_done) result \<Rightarrow> vlog \<Rightarrow> pending_reply \<times> vlog" where
  "finish_under_gil V (GetToken blocked kept) outcome l =
     (\<lparr>pg_blocked = blocked, pg_reply = get_reply outcome\<rparr>,
      (case kept of Retained v \<Rightarrow> DropValue v # l | Copied _ \<Rightarrow> l))"
| "finish_under_gil V (SetToken blocked destination key expected_crc) outcome l =
     (let (r, l') = set_reply V outcome destination key expected_crc l
      in (\<lparr>pg_blocked = blocked, pg_reply = r\<rparr>, l'))"

definition send_reply :: "pending_reply \<Rightarrow> vlog \<Rightarrow> vlog" where
  "send_reply pending l = Replied (pg_blocked pending) (pg_reply pending) # l"

text \<open>The locked half of \<open>complete_batch\<close>, completion by completion.\<close>

fun commit_batch :: "valkey \<Rightarrow> op_token completion list \<Rightarrow> vlog \<Rightarrow> pending_reply list \<times> vlog" where
  "commit_batch V [] l = ([], l)"
| "commit_batch V (c # cs) l =
     (let (r, l1) = finish_under_gil V (cm_caller_context c) (cm_outcome c) l;
          (rs, l2) = commit_batch V cs l1
      in (r # rs, l2))"

section \<open>Devices\<close>

text \<open>
  What the module is given. Every worker it starts has its own number, the value of \<open>INDEX\<close> at its
  start, and its own view of libfabric; \<open>ho_spawn\<close> is the error of its thread's spawn, if any.
\<close>

record host =
  ho_valkey :: valkey
  ho_jemalloc :: jemalloc_lib
  ho_hooks :: hooks
  ho_library :: "nat \<Rightarrow> fi_library"
  ho_fabric :: "nat \<Rightarrow> fabric"
  ho_spawn :: "nat \<Rightarrow> string option"
  ho_pool_spawn :: "nat \<Rightarrow> (string, unit) result"
  ho_landing :: "nat \<Rightarrow> ptr"
  ho_alloc :: "op_context list \<Rightarrow> op_context"
  ho_configuration :: libfabric_configuration

record server =
  sr_address :: "u8 list"
  sr_config :: "op_token config"
  sr_service :: "op_token service"

record vdma =
  md_services :: "server list option"
  md_index :: nat
  md_next :: usize
  md_log :: vlog
  md_blocked :: nat
  md_batches :: "op_token completion list list"
  md_replies :: "pending_reply list list"
  md_zero_copy_logged :: bool
  md_fallback_logged :: bool
  md_out :: "notice list"

definition start_server :: "host \<Rightarrow> libfabric_configuration \<Rightarrow> nat \<Rightarrow> (dma_error, server) result" where
  "start_server H C i =
     (case service_start (ho_spawn H i) (ho_library H i) (ho_fabric H i) C (ho_landing H i) [] empty_world of
        (Inl e, _, _) \<Rightarrow> Inl e
      | (Inr (address, s), _, _) \<Rightarrow>
          Inr \<lparr>sr_address = address,
            sr_config = worker_config (ho_fabric H i) (token_operands (ho_valkey H) (ho_jemalloc H) (ho_hooks H))
              (ho_alloc H) C (ho_landing H i) (wk_endpoint (sv_worker s)),
            sr_service = s\<rparr>)"

text \<open>One worker per domain; the first failure drops the workers already started.\<close>

fun start_servers :: "host \<Rightarrow> u8 list list \<Rightarrow> nat \<Rightarrow> (dma_error, server list) result \<times> nat" where
  "start_servers H [] i = (Inr [], i)"
| "start_servers H (domain # domains) i =
     (let per_device = (ho_configuration H)\<lparr>lc_interfaces := [map char_of_byte domain]\<rparr>
      in case start_server H per_device i of
           Inl e \<Rightarrow> (Inl e, Suc i)
         | Inr s \<Rightarrow>
             (case start_servers H domains (Suc i) of
                (Inl e, j) \<Rightarrow> (Inl e, j)
              | (Inr ss, j) \<Rightarrow> (Inr (s # ss), j)))"

definition discovered :: "host \<Rightarrow> nat \<Rightarrow> u8 list list" where
  "discovered H i =
     (case lc_providers (ho_configuration H) of
        EfaDirect # _ \<Rightarrow>
          (case fst (discover_domains (ho_library H i) (ho_fabric H i) (ho_configuration H) []) of
             Inr names \<Rightarrow> names
           | Inl _ \<Rightarrow> [])
      | _ \<Rightarrow> [])"

text \<open>
  \<open>{:?}\<close> of a \<open>Vec<String>\<close>, with the escapes of \<open>char::escape_debug\<close>; bytes of characters beyond
  ASCII are taken as printable.
\<close>

definition debug_char :: "char \<Rightarrow> string" where
  "debug_char c =
     (let n = of_char c :: nat; backslash = CHR 0x5C
      in if n = 0 then [backslash, CHR ''0'']
         else if n = 9 then [backslash, CHR ''t'']
         else if n = 10 then [backslash, CHR ''n'']
         else if n = 13 then [backslash, CHR ''r'']
         else if n = 34 \<or> n = 92 then [backslash, c]
         else if n < 32 \<or> n = 127 then backslash # ''u{'' @ show_hex n @ ''}''
         else [c])"

definition debug_names :: "u8 list list \<Rightarrow> string" where
  "debug_names names =
     (let quoted = map (\<lambda>name. [CHR 0x22] @ concat (map (debug_char \<circ> char_of_byte) name) @ [CHR 0x22]) names
      in ''['' @ (case quoted of [] \<Rightarrow> [] | q # qs \<Rightarrow> q @ concat (map (\<lambda>q. '', '' @ q) qs)) @ '']'')"

definition discovered_notice :: "u8 list list \<Rightarrow> string" where
  "discovered_notice domains = ''valkey-dma: discovered '' @ show_nat (length domains) @ '' EFA device(s) ''
     @ debug_names domains @ ''; starting one worker per device, ''
     @ ''advertising all of them and serving each transfer on the least loaded''"

definition start_services :: "host \<Rightarrow> vdma \<Rightarrow> (dma_error, server list) result \<times> vdma" where
  "start_services H M =
     (let domains = discovered H (md_index M);
          worker_count = max (length domains) 1;
          pool_threads = (case lc_crc_pool_threads (ho_configuration H) of Some n \<Rightarrow> n | None \<Rightarrow> 2 * worker_count)
      in case pool_new (ho_pool_spawn H) pool_threads :: (string, nat pool) result of
           Inl e \<Rightarrow> (Inl (Fabric (''failed to start crc pool: '' @ e)), M)
         | Inr _ \<Rightarrow>
             (if domains = []
              then (let M1 = M\<lparr>md_out := lifecycle ''valkey-dma: starting 1 fabric worker (single device)'' (md_out M)\<rparr>
                    in case start_server H (ho_configuration H) (md_index M1) of
                         Inl e \<Rightarrow> (Inl e, M1\<lparr>md_index := Suc (md_index M1)\<rparr>)
                       | Inr s \<Rightarrow> (Inr [s], M1\<lparr>md_index := Suc (md_index M1)\<rparr>))
              else (let M1 = M\<lparr>md_out := lifecycle (discovered_notice domains) (md_out M)\<rparr>
                    in case start_servers H domains (md_index M1) of
                         (r, i) \<Rightarrow> (r, M1\<lparr>md_index := i\<rparr>))))"

definition fabric_services :: "host \<Rightarrow> vdma \<Rightarrow> (dma_error, server list) result \<times> vdma" where
  "fabric_services H M =
     (case md_services M of
        Some servers \<Rightarrow> (Inr servers, M)
      | None \<Rightarrow>
          (case start_services H M of
             (Inl e, M1) \<Rightarrow> (Inl e, M1)
           | (Inr servers, M1) \<Rightarrow> (Inr servers, M1\<lparr>md_services := Some servers\<rparr>)))"

text \<open>\<open>Iterator::min_by_key\<close>: the first of the elements with the least key.\<close>

fun min_by_key :: "('a \<Rightarrow> 'k::linorder) \<Rightarrow> 'a list \<Rightarrow> 'a option" where
  "min_by_key f [] = None"
| "min_by_key f (x # xs) =
     (case min_by_key f xs of None \<Rightarrow> Some x | Some y \<Rightarrow> if f y < f x then Some y else Some x)"

definition load_key :: "usize \<Rightarrow> nat \<Rightarrow> nat \<times> server \<Rightarrow> nat \<times> nat" where
  "load_key rotation servers e =
     (outstanding (sr_service (snd e)), unat (word_of_nat (fst e) + rotation) mod servers)"

definition least_loaded_server :: "host \<Rightarrow> vdma \<Rightarrow> (dma_error, nat) result \<times> vdma" where
  "least_loaded_server H M =
     (case fabric_services H M of
        (Inl e, M1) \<Rightarrow> (Inl e, M1)
      | (Inr servers, M1) \<Rightarrow>
          (let rotation = md_next M1; M2 = M1\<lparr>md_next := rotation + 1\<rparr>
           in case min_by_key (load_key rotation (length servers)) (enumerate 0 servers) of
                None \<Rightarrow> (Inl (Fabric ''no fabric workers''), M2)
              | Some (i, _) \<Rightarrow> (Inr i, M2)))"

definition release_client :: "u64 \<Rightarrow> vdma \<Rightarrow> vdma" where
  "release_client client M =
     (case md_services M of
        None \<Rightarrow> M
      | Some servers \<Rightarrow>
          M\<lparr>md_services := Some (map (\<lambda>s. s\<lparr>sr_service := remove_peer client (sr_service s)\<rparr>) servers)\<rparr>)"

datatype client_change = Connected | Disconnected

definition on_client_change :: "client_change \<Rightarrow> u64 \<Rightarrow> vdma \<Rightarrow> vdma" where
  "on_client_change change client M = (if change = Disconnected then release_client client M else M)"

section \<open>Commands\<close>

definition dma_hello :: "host \<Rightarrow> vdma \<Rightarrow> valkey_result \<times> vdma" where
  "dma_hello H M =
     (case fabric_services H M of
        (Inl e, M1) \<Rightarrow> (Inl (command_error (dma_error_display e)), M1)
      | (Inr servers, M1) \<Rightarrow> (Inr (Array (map (SimpleString \<circ> encode_hex \<circ> sr_address) servers)), M1))"

text \<open>Handing a request to the worker \<open>i\<close>, or finishing it at once when that is gone.\<close>

definition submit_request :: "host \<Rightarrow> nat \<Rightarrow> op_token transfer_request \<Rightarrow> vdma \<Rightarrow> vdma" where
  "submit_request H i request M =
     (case md_services M of
        None \<Rightarrow> M
      | Some servers \<Rightarrow>
          (case submit request (sr_service (servers ! i)) of
             (Inr _, s) \<Rightarrow> M\<lparr>md_services := Some (servers[i := (servers ! i)\<lparr>sr_service := s\<rparr>])\<rparr>
           | (Inl refused, s) \<Rightarrow>
               (let (pending, l) = finish_under_gil (ho_valkey H) (tr_caller_context refused)
                      (Inl (Fabric ''fabric worker is gone'')) (md_log M)
                in M\<lparr>md_services := Some (servers[i := (servers ! i)\<lparr>sr_service := s\<rparr>]),
                     md_log := send_reply pending l\<rparr>)))"

definition block_client :: "vdma \<Rightarrow> nat \<times> vdma" where
  "block_client M = (md_blocked M, M\<lparr>md_blocked := Suc (md_blocked M), md_log := BlockClient (md_blocked M) # md_log M\<rparr>)"

definition note_zero_copy :: "vdma \<Rightarrow> vdma" where
  "note_zero_copy M =
     (if md_zero_copy_logged M then M
      else M\<lparr>md_zero_copy_logged := True,
             md_out := lifecycle ''DMA.GET: zero-copy path active (retained value buffer)'' (md_out M)\<rparr>)"

definition note_fallback :: "vdma \<Rightarrow> vdma" where
  "note_fallback M =
     (if md_fallback_logged M then M
      else M\<lparr>md_fallback_logged := True,
             md_out := fatal (''DMA.GET: FALLBACK copy path active '' @ em_dash @ '' server does not export ''
               @ ''CreateStringReferenceFromKey; every GET copies the value. Rebuild valkey with the ''
               @ ''CreateStringReferenceFromKey module API.'') (md_out M)\<rparr>)"

definition transfer_request_for ::
  "u64 \<Rightarrow> advertisement \<Rightarrow> direction \<Rightarrow> bool \<Rightarrow> op_token \<Rightarrow> op_token transfer_request" where
  "transfer_request_for client ad dir want token =
     \<lparr>tr_client_id = client, tr_peer_address = ad_address ad, tr_remote_key = ad_remote_key ad,
      tr_remote_address = ad_remote_address ad, tr_direction = dir, tr_want_checksum = want,
      tr_caller_context = token\<rparr>"

text \<open>The value a GET holds: valkey's own buffer, or a copy.\<close>

definition hold_value :: "host \<Rightarrow> key \<Rightarrow> u8 list \<Rightarrow> vdma \<Rightarrow> held_value \<times> vdma" where
  "hold_value H key bytes M =
     (case vk_retained (ho_valkey H) (md_log M) key of
        Some v \<Rightarrow> (Retained v, note_zero_copy (M\<lparr>md_log := Retain key v # md_log M\<rparr>))
      | None \<Rightarrow>
          (Copied \<lparr>vs_pointer = vk_copy (ho_valkey H) (md_log M) bytes, vs_length = word_of_nat (length bytes)\<rparr>,
           note_fallback (M\<lparr>md_log := CopyValue key # md_log M\<rparr>)))"

definition release_value :: "held_value \<Rightarrow> vdma \<Rightarrow> vdma" where
  "release_value kept M = (case kept of Retained v \<Rightarrow> M\<lparr>md_log := DropValue v # md_log M\<rparr> | Copied _ \<Rightarrow> M)"

definition dma_get ::
  "host \<Rightarrow> u64 \<Rightarrow> advertisement \<Rightarrow> key \<Rightarrow> usize \<Rightarrow> bool \<Rightarrow> vdma \<Rightarrow> valkey_result \<times> vdma" where
  "dma_get H client ad key capacity want M =
     (let M1 = M\<lparr>md_log := ReadKey key # md_log M\<rparr>
      in case vk_read (ho_valkey H) (md_log M) key of
           Inl _ \<Rightarrow> (Inl (ErrStr ''ERR failed to read key''), M1)
         | Inr None \<Rightarrow> (Inr Null, M1)
         | Inr (Some bytes) \<Rightarrow>
             (if unat capacity < length bytes
              then (Inl (ErrString (''ERR value of '' @ show_nat (length bytes)
                      @ '' bytes exceeds the client buffer of '' @ show_usize capacity @ '' bytes'')), M1)
              else (case hold_value H key bytes M1 of
                (kept, M2) \<Rightarrow>
                  (case least_loaded_server H M2 of
                     (Inl e, M3) \<Rightarrow> (Inl (command_error (dma_error_display e)), release_value kept M3)
                   | (Inr i, M3) \<Rightarrow>
                       (let (blocked, M4) = block_client M3
                        in (Inr NoReply, submit_request H i
                              (transfer_request_for client ad ToPeer want (GetToken blocked kept)) M4))))))"

definition dma_set ::
  "host \<Rightarrow> u64 \<Rightarrow> advertisement \<Rightarrow> key \<Rightarrow> usize \<Rightarrow> u32 option \<Rightarrow> vdma \<Rightarrow> valkey_result \<times> vdma" where
  "dma_set H client ad key len expected_crc M =
     (case least_loaded_server H M of
        (Inl e, M1) \<Rightarrow> (Inl (command_error (dma_error_display e)), M1)
      | (Inr i, M1) \<Rightarrow>
          (let (blocked, M2) = block_client M1
           in (Inr NoReply, submit_request H i
                 (transfer_request_for client ad (FromPeer len) (expected_crc \<noteq> None)
                   (SetToken blocked None key expected_crc)) M2)))"

text \<open>The command handlers of \<open>entry.rs\<close>.\<close>

definition dma_set_command :: "host \<Rightarrow> u64 \<Rightarrow> u8 list list \<Rightarrow> vdma \<Rightarrow> valkey_result \<times> vdma" where
  "dma_set_command H client args M =
     (case set_arguments args of
        Inl e \<Rightarrow> (Inl e, M)
      | Inr (parsed, crc) \<Rightarrow>
          dma_set H client (da_advertisement parsed) (da_key parsed) (da_length parsed) crc M)"

definition dma_get_command :: "host \<Rightarrow> u64 \<Rightarrow> u8 list list \<Rightarrow> vdma \<Rightarrow> valkey_result \<times> vdma" where
  "dma_get_command H client args M =
     (case parse_data_args args of
        Inl e \<Rightarrow> (Inl e, M)
      | Inr parsed \<Rightarrow>
          dma_get H client (da_advertisement parsed) (da_key parsed) (da_length parsed) (da_crc parsed \<noteq> None) M)"

end
