(* ===== verification/Module_Behaviour.thy ===== *)
theory Module_Behaviour
  imports Module_System
begin

text \<open>
  What the module does to the keyspace and to the buffers it holds: which completions commit a value,
  that every buffer of a batch is moved into a key or given back once, what a \<open>DMA.GET\<close> hands to a
  device, which device it hands it to, and that the hooks come to an end.
\<close>

section \<open>Commits\<close>

text \<open>The moves into keys that a log holds, the oldest first.\<close>

fun moves :: "vlog \<Rightarrow> (key \<times> vstring) list" where
  "moves [] = []"
| "moves (SetMove key v _ # l) = moves l @ [(key, v)]"
| "moves (_ # l) = moves l"

text \<open>A completion whose value is to be committed, with the checksum the client asked for.\<close>

fun verified :: "op_token \<Rightarrow> (dma_error, transfer_done) result \<Rightarrow> bool" where
  "verified (SetToken _ (Some _) _ None) (Inr _) = True"
| "verified (SetToken _ (Some _) _ (Some expected)) (Inr done) =
     ((case td_checksum done of Some actual \<Rightarrow> actual | None \<Rightarrow> 0) = expected)"
| "verified _ _ = False"

fun target :: "op_token \<Rightarrow> key \<times> vstring" where
  "target (SetToken _ (Some v) key _) = (key, v)"
| "target _ = ([], \<lparr>vs_pointer = 0, vs_length = 0\<rparr>)"

abbreviation completion_verified :: "op_token completion \<Rightarrow> bool" where
  "completion_verified c \<equiv> verified (cm_caller_context c) (cm_outcome c)"

lemma drop_buffer_moves [simp]: "moves (drop_buffer v l) = moves l"
  by (simp add: drop_buffer_def split: option.split)

lemma finish_moves:
  "moves (snd (finish_under_gil V t oc l)) = moves l @ (if verified t oc then [target t] else [])"
proof (cases t)
  case (GetToken b kept)
  then show ?thesis by (simp split: held_value.split)
next
  case (SetToken b v key crc)
  then show ?thesis
    by (cases oc; cases v; cases crc) (auto simp: set_reply_def split_def Let_def)
qed

lemma commit_moves:
  "moves (snd (commit_batch V cs l)) = moves l @ map (target \<circ> cm_caller_context) (filter completion_verified cs)"
proof (induction cs arbitrary: l)
  case (Cons c cs)
  then show ?case
    using finish_moves [of V "cm_caller_context c" "cm_outcome c" l] by (simp add: split_def Let_def)
qed simp

lemma submit_request_moves: "moves (md_log (submit_request H i request M)) = moves (md_log M)"
  using finish_moves [of "ho_valkey H" _ "Inl (Fabric ''fabric worker is gone'')" "md_log M"]
  by (auto simp: submit_request_def send_reply_def Let_def split: option.split prod.split sum.split)
    (metis snd_conv verified.simps(4-6) append_Nil2 op_token.exhaust)+

lemma fabric_services_same:
  "fabric_services H M = (q, N) \<Longrightarrow> md_log N = md_log M \<and> md_blocked N = md_blocked M \<and> md_next N = md_next M"
  by (auto simp: fabric_services_def start_services_def Let_def split: option.splits sum.splits prod.splits if_splits)

lemma least_loaded_same:
  "least_loaded_server H M = (r, N) \<Longrightarrow> md_log N = md_log M \<and> md_blocked N = md_blocked M"
  using fabric_services_same [of H M]
  by (auto simp: least_loaded_server_def Let_def split: option.splits sum.splits prod.splits)

lemma hold_value_moves: "hold_value H key bytes M = (kept, N) \<Longrightarrow> moves (md_log N) = moves (md_log M)"
  by (auto simp: hold_value_def note_zero_copy_def note_fallback_def split: option.splits if_splits)

lemma release_value_moves: "moves (md_log (release_value kept M)) = moves (md_log M)"
  by (simp add: release_value_def split: held_value.split)

lemma block_client_moves: "block_client M = (b, N) \<Longrightarrow> moves (md_log N) = moves (md_log M)"
  by (auto simp: block_client_def)

lemma dma_get_moves:
  assumes "dma_get H client ad key capacity want M = (r, N)"
  shows "moves (md_log N) = moves (md_log M)"
proof -
  let ?M1 = "M\<lparr>md_log := ReadKey key # md_log M\<rparr>"
  obtain bytes kept M2 q M3 b M4 where hold: "hold_value H key bytes ?M1 = (kept, M2)"
    and dev: "least_loaded_server H M2 = (q, M3)" and block: "block_client M3 = (b, M4)"
    and bytes: "\<And>bs. vk_read (ho_valkey H) (md_log M) key = Inr (Some bs) \<Longrightarrow> bytes = bs"
    by (metis option.inject sum.inject(2) surj_pair)
  have M4: "moves (md_log M4) = moves (md_log M)" "moves (md_log M3) = moves (md_log M)"
    using hold_value_moves [OF hold] least_loaded_same [OF dev] block_client_moves [OF block] by simp_all
  show ?thesis
  proof (cases "\<exists>bs. vk_read (ho_valkey H) (md_log M) key = Inr (Some bs) \<and> length bs \<le> unat capacity")
    case True
    then have "vk_read (ho_valkey H) (md_log M) key = Inr (Some bytes)" "length bytes \<le> unat capacity"
      using bytes by auto
    then show ?thesis
      using assms hold dev block M4
      by (cases q) (auto simp: dma_get_def Let_def release_value_moves submit_request_moves)
  next
    case False
    then show ?thesis using assms by (auto simp: dma_get_def Let_def not_le split: sum.splits option.splits if_splits)
  qed
qed

lemma dma_set_moves:
  assumes "dma_set H client ad key len crc M = (r, N)"
  shows "moves (md_log N) = moves (md_log M)"
  using assms
  by (auto simp: dma_set_def Let_def submit_request_moves block_client_def dest: least_loaded_same
      split: sum.splits prod.splits)

text \<open>
  C4. The keyspace only ever receives verified values. Of all steps of the module only the locked half
  of a batch moves values into keys, and it moves exactly those of the batch whose transfer
  succeeded into a landing buffer and whose checksum is the one the client sent, or needs none; in
  the order of the batch, each buffer into the key its client named.
\<close>

theorem only_verified_values_are_committed:
  assumes "module_step H M N"
  shows "moves (md_log N) = moves (md_log M)
    \<or> (\<exists>k < length (md_batches M). moves (md_log N) = moves (md_log M)
         @ map (\<lambda>c. target (cm_caller_context c))
             (filter (\<lambda>c. verified (cm_caller_context c) (cm_outcome c)) (md_batches M ! k)))"
  using assms
proof (cases rule: module_step.cases)
  case (get client args r)
  then show ?thesis using dma_get_moves [of H] by (auto simp: dma_get_command_def split: sum.splits)
next
  case (set client args r)
  then show ?thesis using dma_set_moves [of H] by (auto simp: dma_set_command_def split: sum.splits prod.splits)
next
  case (hello r)
  then show ?thesis by (auto simp: dma_hello_def dest: fabric_services_same split: sum.splits prod.splits)
next
  case (change event client)
  then show ?thesis by (simp add: on_client_change_def release_client_def split: option.split)
next
  case (serve servers i t)
  then show ?thesis by (simp add: run_server_def)
next
  case (commit k)
  then show ?thesis using commit_moves [of "ho_valkey H" "md_batches M ! k" "md_log M"]
    by (auto simp: complete_batch_def comp_def split: prod.split)
next
  case (reply k)
  then show ?thesis by (simp add: deliver_reply_def send_reply_def split: list.split)
qed

text \<open>A batch with a matching and a mismatching \<open>DMA.SET\<close>: one value is committed.\<close>

definition sample_buffer :: vstring where
  "sample_buffer = \<lparr>vs_pointer = 16384, vs_length = 3\<rparr>"

definition sample_batch :: "op_token completion list" where
  "sample_batch =
     [\<lparr>cm_caller_context = SetToken 0 (Some sample_buffer) [97] (Some 7),
        cm_outcome = Inr \<lparr>td_bytes = 3, td_checksum = Some 7\<rparr>\<rparr>,
      \<lparr>cm_caller_context = SetToken 1 (Some sample_buffer) [98] (Some 7),
        cm_outcome = Inr \<lparr>td_bytes = 3, td_checksum = Some 8\<rparr>\<rparr>]"

definition sample_committing :: vdma where
  "sample_committing = module_new\<lparr>md_batches := [sample_batch]\<rparr>"

lemma sample_commit: "moves (md_log (complete_batch sample_host 0 sample_committing)) = [([97], sample_buffer)]"
  by (simp add: complete_batch_def sample_committing_def sample_batch_def module_new_def set_reply_def Let_def
      drop_buffer_def split_def)

theorem only_verified_values_are_committed_witness:
  "moves (md_log (complete_batch sample_host 0 sample_committing))
    = map (\<lambda>c. target (cm_caller_context c))
        (filter (\<lambda>c. verified (cm_caller_context c) (cm_outcome c)) sample_batch)"
proof -
  have "module_step sample_host sample_committing (complete_batch sample_host 0 sample_committing)"
    by (rule module_step.commit) (simp add: sample_committing_def)
  from only_verified_values_are_committed [OF this] show ?thesis
    by (auto simp: sample_commit) (simp_all add: sample_committing_def module_new_def)
qed

section \<open>Buffers\<close>

text \<open>The buffer of valkey a token holds, and how often a log moves a buffer into a key or drops it.\<close>

fun buffer_of :: "op_token \<Rightarrow> vstring list" where
  "buffer_of (GetToken _ (Retained v)) = [v]"
| "buffer_of (GetToken _ (Copied _)) = []"
| "buffer_of (SetToken _ None _ _) = []"
| "buffer_of (SetToken _ (Some v) _ _) = [v]"

fun consumed :: "vlog \<Rightarrow> vstring list" where
  "consumed [] = []"
| "consumed (SetMove _ v _ # l) = consumed l @ [v]"
| "consumed (DropValue v # l) = consumed l @ [v]"
| "consumed (FreeBuffer v # l) = consumed l @ [v]"
| "consumed (_ # l) = consumed l"

lemma finish_consumed: "consumed (snd (finish_under_gil V t oc l)) = consumed l @ buffer_of t"
proof (cases t)
  case (GetToken b kept)
  then show ?thesis by (cases kept) simp_all
next
  case (SetToken b v key crc)
  then show ?thesis
    by (cases oc; cases v; cases crc) (auto simp: set_reply_def drop_buffer_def split_def Let_def)
qed

text \<open>The reply of a completion, by the kind of its token.\<close>

fun succeeded :: "valkey_result \<Rightarrow> bool" where
  "succeeded (Inr (IntegerValue _)) = True"
| "succeeded (Inr (Array _)) = True"
| "succeeded _ = False"

text \<open>
  C17. Finishing a transfer settles its token: the buffer it holds, valkey's own value of a \<open>DMA.GET\<close> or
  the landing buffer of a \<open>DMA.SET\<close>, is moved into a key or given back exactly once; the reply goes
  to the client that was blocked for it; a \<open>DMA.GET\<close> reports success exactly when the transfer
  succeeded, and a \<open>DMA.SET\<close> exactly when its value was verified and valkey took the move.
\<close>

theorem finishing_settles_the_token:
  assumes "finish_under_gil V t outcome l = (pending, l')"
  shows "consumed l' = consumed l @ buffer_of t \<and> pg_blocked pending = token_client t
    \<and> (succeeded (pg_reply pending) \<longleftrightarrow>
         (case t of
            GetToken _ _ \<Rightarrow> \<exists>done. outcome = Inr done
          | SetToken _ _ key _ \<Rightarrow> verified t outcome \<and> vk_set_move V l key (snd (target t))))"
proof (intro conjI)
  show "consumed l' = consumed l @ buffer_of t" using finish_consumed [of V t outcome l] assms by simp
  show "pg_blocked pending = token_client t" using finish_blocked [of V t outcome l] assms by simp
  show "succeeded (pg_reply pending) \<longleftrightarrow>
         (case t of
            GetToken _ _ \<Rightarrow> \<exists>done. outcome = Inr done
          | SetToken _ _ key _ \<Rightarrow> verified t outcome \<and> vk_set_move V l key (snd (target t)))"
  proof (cases t)
    case (GetToken b kept)
    then show ?thesis using assms by (cases outcome) (auto split: held_value.splits option.splits)
  next
    case (SetToken b v key crc)
    then show ?thesis
      using assms by (cases outcome; cases v; cases crc) (auto simp: set_reply_def Let_def split: prod.splits if_splits)
  qed
qed

theorem finishing_settles_the_token_witness:
  "consumed [SetMove [97] sample_buffer True] = [sample_buffer]
    \<and> succeeded (Inr (IntegerValue 3)) = vk_set_move sample_valkey [] [97] sample_buffer"
proof -
  have run: "finish_under_gil sample_valkey (SetToken 0 (Some sample_buffer) [97] (Some 7))
      (Inr \<lparr>td_bytes = 3, td_checksum = Some 7\<rparr>) []
    = (\<lparr>pg_blocked = 0, pg_reply = Inr (IntegerValue 3)\<rparr>, [SetMove [97] sample_buffer True])"
    by (simp add: set_reply_def sample_valkey_def Let_def)
  show ?thesis using finishing_settles_the_token [OF run] by simp
qed

section \<open>The choice of a device\<close>

lemma enumerate_member: "(i, s) \<in> set (enumerate 0 xs) \<longleftrightarrow> i < length xs \<and> s = xs ! i"
  by (auto simp: in_set_enumerate_eq)

text \<open>The rotated index, as long as the sum of the counter and an index does not wrap.\<close>

lemma rotated:
  assumes "unat (rotation :: usize) + n < 2 ^ 64" "i < n"
  shows "unat (word_of_nat i + rotation) = i + unat rotation"
proof -
  have "i < 2 ^ 64" using assms by linarith
  then have i: "unat (word_of_nat i :: usize) = i" by (simp add: unat_of_nat take_bit_nat_eq_self)
  have "unat (word_of_nat i :: usize) + unat rotation < 2 ^ LENGTH(64)" using assms i by simp
  then show ?thesis using i by (simp add: unat_plus_if_size word_size)
qed

text \<open>
  C21. A transfer goes to a device with the least work outstanding, and the counter moves on with every
  choice. While all devices are equally loaded and the counter does not wrap, the choice is the one
  whose index makes the sum with the counter divisible by the number of devices, so that successive
  choices go round all of them.
\<close>

theorem least_loaded_device_is_chosen:
  assumes "fabric_services H M = (Inr servers, M1)" "servers \<noteq> []"
  shows "\<exists>i < length servers. least_loaded_server H M = (Inr i, M1\<lparr>md_next := md_next M1 + 1\<rparr>)
    \<and> (\<forall>s \<in> set servers. outstanding (sr_service (servers ! i)) \<le> outstanding (sr_service s))
    \<and> ((\<forall>s \<in> set servers. outstanding (sr_service s) = n) \<and> unat (md_next M1) + length servers < 2 ^ 64
        \<longrightarrow> (i + unat (md_next M1)) mod length servers = 0)"
proof -
  let ?key = "load_key (md_next M1) (length servers)" and ?all = "enumerate 0 servers"
  obtain i s where least: "min_by_key ?key ?all = Some (i, s)"
    using min_by_key_None [of ?key ?all] assms(2) by (cases servers; cases "min_by_key ?key ?all") auto
  note le = min_by_key_least [OF least]
  have i: "i < length servers" "s = servers ! i" using le by (auto simp: enumerate_member)
  have all: "?key (i, s) \<le> ?key (j, servers ! j)" if "j < length servers" for j
    using le that by (auto simp: enumerate_member)
  have "outstanding (sr_service (servers ! i)) \<le> outstanding (sr_service t)" if t: "t \<in> set servers" for t
  proof -
    obtain j where "j < length servers" "t = servers ! j" using t by (auto simp: in_set_conv_nth)
    then show ?thesis using all [of j] i(2) by (auto simp: load_key_def less_eq_prod_def)
  qed
  moreover have "(i + unat (md_next M1)) mod length servers = 0"
    if same: "\<forall>s \<in> set servers. outstanding (sr_service s) = n"
      and small: "unat (md_next M1) + length servers < 2 ^ 64"
  proof -
    let ?N = "length servers" and ?r = "unat (md_next M1)"
    let ?j = "(?N - ?r mod ?N) mod ?N"
    have N: "0 < ?N" using assms(2) by simp
    have j: "?j < ?N" using N by simp
    have "(?j + ?r) mod ?N = (?N - ?r mod ?N + ?r mod ?N) mod ?N" by (simp add: mod_simps)
    also have "\<dots> = 0" using N by (simp add: mod_less_divisor le_add_diff_inverse2 less_imp_le)
    finally have zero: "(?j + ?r) mod ?N = 0" .
    have "?key (i, s) \<le> ?key (?j, servers ! ?j)" using all [OF j] .
    then have "(i + ?r) mod ?N \<le> (?j + ?r) mod ?N"
      using same nth_mem [OF j] nth_mem [OF i(1)]
      by (simp only: load_key_def less_eq_prod_def fst_conv snd_conv i(2) rotated [OF small j] rotated [OF small i(1)]) simp
    then show ?thesis using zero by simp
  qed
  moreover have "least_loaded_server H M = (Inr i, M1\<lparr>md_next := md_next M1 + 1\<rparr>)"
    unfolding least_loaded_server_def assms(1) Let_def by (simp only: prod.case sum.case least option.case)
  ultimately show ?thesis using i(1) by (intro exI [of _ i] conjI ballI impI) (assumption | simp)+
qed

text \<open>The device of \<open>sample_get\<close>, twice, with the counter at five.\<close>

definition sample_devices :: vdma where
  "sample_devices = module_new\<lparr>md_next := 5,
     md_services := Some (replicate 2 (hd (the (md_services sample_get))))\<rparr>"

theorem least_loaded_device_is_chosen_witness:
  "fst (least_loaded_server sample_host sample_devices) = Inr 1"
proof -
  let ?two = "replicate 2 (hd (the (md_services sample_get)))"
  have "fabric_services sample_host sample_devices = (Inr ?two, sample_devices)"
    by (simp add: fabric_services_def sample_devices_def)
  from least_loaded_device_is_chosen [OF this, of "outstanding (sr_service (hd (the (md_services sample_get))))"]
  obtain i where i: "i < 2" "fst (least_loaded_server sample_host sample_devices) = Inr i"
    and "unat (md_next sample_devices) + 2 < 2 ^ 64 \<longrightarrow> (i + unat (md_next sample_devices)) mod 2 = 0"
    by auto
  then have "(i + 5) mod 2 = 0" by (simp add: sample_devices_def)
  then have "i = 1" using i(1) by presburger
  then show ?thesis using i(2) by simp
qed

section \<open>What a GET hands to its device\<close>

text \<open>What a memory holds from an address on.\<close>

definition bytes_at :: "(ptr \<Rightarrow> u8) \<Rightarrow> ptr \<times> usize \<Rightarrow> u8 list" where
  "bytes_at mem span = map (\<lambda>i. mem (fst span + word_of_nat i)) [0..<unat (snd span)]"

text \<open>
  The module API, as documented: a value fits in memory, the retained reference is to the value that
  was just read, and a copy has its bytes. \<open>mem\<close> is the memory after the calls of a log.
\<close>

definition valkey_contract :: "valkey \<Rightarrow> (vlog \<Rightarrow> ptr \<Rightarrow> u8) \<Rightarrow> bool" where
  "valkey_contract V mem \<longleftrightarrow> (\<forall>l key bytes. vk_read V l key = Inr (Some bytes) \<longrightarrow> length bytes < 2 ^ 64
     \<and> (\<forall>v. vk_retained V (ReadKey key # l) key = Some v \<longrightarrow> unat (vs_length v) = length bytes
          \<and> bytes_at (mem (Retain key v # ReadKey key # l)) (vs_pointer v, vs_length v) = bytes)
     \<and> bytes_at (mem (CopyValue key # ReadKey key # l))
         (vk_copy V (ReadKey key # l) bytes, word_of_nat (length bytes)) = bytes)"

lemma hold_value_bytes:
  assumes "valkey_contract V mem" "vk_read V l key = Inr (Some bytes)" "ho_valkey H = V"
    and "hold_value H key bytes M = (kept, N)" "md_log M = ReadKey key # l"
  shows "unat (snd (as_bytes kept)) = length bytes \<and> bytes_at (mem (md_log N)) (as_bytes kept) = bytes"
proof (cases "vk_retained V (ReadKey key # l) key")
  case None
  then show ?thesis
    using assms by (auto simp: valkey_contract_def hold_value_def note_fallback_def unat_of_nat take_bit_nat_eq_self)
next
  case (Some v)
  then show ?thesis using assms by (auto simp: valkey_contract_def hold_value_def note_zero_copy_def)
qed

lemma hold_value_log:
  assumes "hold_value H key bytes M = (kept, N)"
  shows "\<exists>call. (call = CopyValue key \<or> (\<exists>v. call = Retain key v)) \<and> md_log N = call # md_log M"
  using assms by (auto simp: hold_value_def note_zero_copy_def note_fallback_def split: option.splits if_splits)

lemma prepared_get:
  assumes "prepare C a (transfer_request_for client ad ToPeer want (GetToken b kept)) = Inr (p, op)"
    and "cf_operands C = token_operands V J K"
  shows "(pd_pointer p, pd_length p) = as_bytes kept \<and> pd_remote_key p = ad_remote_key ad
    \<and> pd_remote_address p = ad_remote_address ad \<and> pd_peer_address p = ad_address ad \<and> pd_direction p = ToPeer"
  using assms
  by (auto simp: prepare_def resolve_operand_def token_operands_def transfer_request_for_def Let_def
      split: if_splits option.splits prod.splits)

lemma refused_get:
  assumes "prepare C a (transfer_request_for client ad ToPeer want (GetToken b kept)) = Inl c"
    and "cf_operands C = token_operands V J K"
  shows "cf_quiesce_writes C \<and> checked_add (ad_remote_address ad) (snd (as_bytes kept) - 1) = None"
  using assms
  by (auto simp: prepare_def resolve_operand_def token_operands_def transfer_request_for_def Let_def
      split: if_splits option.splits prod.splits)

text \<open>What a device makes of the request of a GET whose bytes are held.\<close>

lemma prepared_get_request:
  assumes "cf_operands C = token_operands V J K" and len: "unat (snd (as_bytes kept)) = length bytes"
    and held: "bytes_at memory (as_bytes kept) = bytes" and fits: "length bytes \<le> unat (capacity :: usize)"
  shows "case prepare C a (transfer_request_for client ad ToPeer want (GetToken b kept)) of
      Inl refused \<Rightarrow> cf_quiesce_writes C \<and> checked_add (ad_remote_address ad) (word_of_nat (length bytes) - 1) = None
    | Inr (p, op) \<Rightarrow> bytes_at memory (pd_pointer p, pd_length p) = bytes
      \<and> unat (pd_length p) = length bytes \<and> pd_length p \<le> capacity \<and> pd_direction p = ToPeer
      \<and> pd_peer_address p = ad_address ad \<and> pd_remote_address p = ad_remote_address ad
      \<and> pd_remote_key p = ad_remote_key ad"
proof (cases "prepare C a (transfer_request_for client ad ToPeer want (GetToken b kept))")
  case (Inl refused)
  moreover have "word_of_nat (length bytes) = snd (as_bytes kept)" by (simp flip: len)
  ultimately show ?thesis using refused_get [OF Inl assms(1)] by simp
next
  case (Inr prepared)
  then obtain p op where p: "prepare C a (transfer_request_for client ad ToPeer want (GetToken b kept)) = Inr (p, op)"
    by (cases prepared) simp
  note same = prepared_get [OF p assms(1)]
  have "unat (pd_length p) = length bytes" using same len by (metis snd_conv)
  then show ?thesis using p same held fits by (simp add: word_le_nat_alt)
qed

text \<open>
  C14. A \<open>DMA.GET\<close> writes the value that was read, and only into the buffer the client advertised. When
  it answers at once, no client was blocked; that is so for an absent key, an unreadable one, and
  for a value longer than the client's capacity. Otherwise one client was blocked, the value fits
  the capacity, and what the device prepares is a write to the advertised peer, address and key; its
  source is as long as the value, and in the memory as it is once valkey has retained the value or
  the module copied it, the bytes of the source are exactly those of the value. The device refuses to
  prepare it only when it quiesces writes and the advertised range wraps around the address space.
\<close>

theorem get_writes_only_into_the_client_buffer:
  assumes "valkey_contract (ho_valkey H) mem" and run: "dma_get H client ad key capacity want M = (r, N)"
  shows "(r \<noteq> Inr NoReply \<longrightarrow> md_blocked N = md_blocked M)
    \<and> (r = Inr Null \<longleftrightarrow> vk_read (ho_valkey H) (md_log M) key = Inr None)
    \<and> (r = Inr NoReply \<longrightarrow> (\<exists>bytes call i request M'. vk_read (ho_valkey H) (md_log M) key = Inr (Some bytes)
         \<and> (call = CopyValue key \<or> (\<exists>v. call = Retain key v))
         \<and> N = submit_request H i request M' \<and> md_blocked M' = Suc (md_blocked M)
         \<and> (\<forall>C a. cf_operands C = token_operands (ho_valkey H) (ho_jemalloc H) (ho_hooks H) \<longrightarrow>
              (case prepare C a request of
                 Inl refused \<Rightarrow> cf_quiesce_writes C
                   \<and> checked_add (ad_remote_address ad) (word_of_nat (length bytes) - 1) = None
               | Inr (p, op) \<Rightarrow>
                   bytes_at (mem (call # ReadKey key # md_log M)) (pd_pointer p, pd_length p) = bytes
                   \<and> unat (pd_length p) = length bytes \<and> pd_length p \<le> capacity \<and> pd_direction p = ToPeer
                   \<and> pd_peer_address p = ad_address ad \<and> pd_remote_address p = ad_remote_address ad
                   \<and> pd_remote_key p = ad_remote_key ad))))"
proof -
  let ?V = "ho_valkey H" and ?M1 = "M\<lparr>md_log := ReadKey key # md_log M\<rparr>"
  consider (failed) "\<exists>e. vk_read ?V (md_log M) key = Inl e" | (absent) "vk_read ?V (md_log M) key = Inr None"
    | (large) bytes where "vk_read ?V (md_log M) key = Inr (Some bytes)" "unat capacity < length bytes"
    | (fits) bytes where "vk_read ?V (md_log M) key = Inr (Some bytes)" "length bytes \<le> unat capacity"
    by (metis not_less option.exhaust sum.exhaust)
  then show ?thesis
  proof cases
    case failed
    then show ?thesis using run by (auto simp: dma_get_def Let_def)
  next
    case absent
    then show ?thesis using run by (auto simp: dma_get_def Let_def)
  next
    case large
    then show ?thesis using run by (auto simp: dma_get_def Let_def)
  next
    case fits
    obtain kept M2 where hold: "hold_value H key bytes ?M1 = (kept, M2)" by (cases "hold_value H key bytes ?M1")
    obtain q M3 where dev: "least_loaded_server H M2 = (q, M3)" by (cases "least_loaded_server H M2")
    have b2: "md_blocked M2 = md_blocked M"
      using hold by (auto simp: hold_value_def note_zero_copy_def note_fallback_def split: option.splits if_splits)
    have b3: "md_blocked M3 = md_blocked M" using least_loaded_same [OF dev] b2 by simp
    have len: "unat (snd (as_bytes kept)) = length bytes" and held: "bytes_at (mem (md_log M2)) (as_bytes kept) = bytes"
      using hold_value_bytes [OF assms(1) fits(1) refl hold] by simp_all
    obtain call where call: "call = CopyValue key \<or> (\<exists>v. call = Retain key v)" "md_log M2 = call # ReadKey key # md_log M"
      using hold_value_log [OF hold] by auto
    show ?thesis
    proof (cases q)
      case (Inl e)
      then have "r = Inl (command_error (dma_error_display e))" "N = release_value kept M3"
        using run fits hold dev by (simp_all add: dma_get_def Let_def)
      then show ?thesis using b3 fits(1) by (simp add: release_value_def split: held_value.split)
    next
      case (Inr i)
      let ?M4 = "M3\<lparr>md_blocked := Suc (md_blocked M3), md_log := BlockClient (md_blocked M3) # md_log M3\<rparr>"
      let ?request = "transfer_request_for client ad ToPeer want (GetToken (md_blocked M3) kept)"
      have answer: "r = Inr NoReply" "N = submit_request H i ?request ?M4"
        using run fits hold dev Inr by (simp_all add: dma_get_def Let_def block_client_def)
      have held': "bytes_at (mem (call # ReadKey key # md_log M)) (as_bytes kept) = bytes" using held call(2) by simp
      note device = prepared_get_request [OF _ len held' fits(2)]
      have "md_blocked ?M4 = Suc (md_blocked M)" using b3 by simp
      show ?thesis
        by (intro conjI impI exI [of _ bytes] exI [of _ call] exI [of _ i] exI [of _ ?request] exI [of _ ?M4] allI)
          (use answer fits(1) b3 call(1) in \<open>simp_all add: device\<close>)
    qed
  qed
qed

text \<open>A memory in which the value of the sample is where it is retained, and copied to.\<close>

definition sample_memory :: "ptr \<Rightarrow> u8" where
  "sample_memory p = (if p = 8192 then 10 else if p = 8193 then 20 else if p = 8194 then 30 else 0)"

lemma sample_valkey_contract: "valkey_contract sample_valkey (\<lambda>_. sample_memory)"
  by (simp add: valkey_contract_def sample_valkey_def bytes_at_def sample_memory_def upt_rec)

definition sample_advertisement :: advertisement where
  "sample_advertisement = \<lparr>ad_address = [255], ad_remote_key = 1, ad_remote_address = 4096\<rparr>"

definition sample_run :: "valkey_result \<times> vdma" where
  "sample_run = dma_get sample_host 7 sample_advertisement [107] 64 False module_new"

theorem get_writes_only_into_the_client_buffer_witness:
  "\<exists>i request M'. snd sample_run = submit_request sample_host i request M' \<and> md_blocked M' = 1"
proof -
  have "valkey_contract (ho_valkey sample_host) (\<lambda>_. sample_memory)" by (simp add: sample_host_def sample_valkey_contract)
  moreover have "dma_get sample_host 7 sample_advertisement [107] 64 False module_new = (fst sample_run, snd sample_run)"
    by (simp add: sample_run_def)
  moreover have "fst sample_run = Inr NoReply" by code_simp
  ultimately show ?thesis
    using get_writes_only_into_the_client_buffer [of sample_host "\<lambda>_. sample_memory" 7 sample_advertisement "[107]" 64 False module_new]
    by (auto simp: module_new_def)
qed

section \<open>The hooks end\<close>

text \<open>The steps that are left once the devices are quiet: locked halves, and replies.\<close>

inductive finishing :: "host \<Rightarrow> vdma \<Rightarrow> vdma \<Rightarrow> bool" for H :: host where
  commit: "k < length (md_batches M) \<Longrightarrow> finishing H M (complete_batch H k M)"
| reply: "k < length (md_replies M) \<Longrightarrow> finishing H M (deliver_reply k M)"

definition work_left :: "vdma \<Rightarrow> nat" where
  "work_left M = sum_list (map (\<lambda>cs. 2 + length cs) (md_batches M)) + sum_list (map (\<lambda>rs. 1 + length rs) (md_replies M))"

lemma sum_take_out:
  fixes f :: "'a \<Rightarrow> nat"
  assumes "k < length xs"
  shows "sum_list (map f (take_out k xs)) + f (xs ! k) = sum_list (map f xs)"
proof -
  have "sum_list (map f xs) = sum_list (map f (take k xs @ xs ! k # drop (Suc k) xs))"
    using id_take_nth_drop [OF assms] by simp
  then show ?thesis by (simp add: take_out_def)
qed

lemma commit_batch_length: "length (fst (commit_batch V cs l)) = length cs"
  using arg_cong [OF commit_blocked [of V cs l], of length] by simp

lemma finishing_work: "finishing H M N \<Longrightarrow> work_left M = Suc (work_left N)"
proof (induction rule: finishing.induct)
  case (commit k M)
  show ?case
    using sum_take_out [OF commit, of "\<lambda>cs. 2 + length cs"] commit_batch_length [of "ho_valkey H" "md_batches M ! k" "md_log M"]
    by (simp add: work_left_def complete_batch_def split_def Let_def)
next
  case (reply k M)
  show ?case
  proof (cases "md_replies M ! k")
    case Nil
    then show ?thesis
      using sum_take_out [OF reply, of "\<lambda>rs. 1 + length rs"] by (simp add: work_left_def deliver_reply_def)
  next
    case (Cons r rs)
    have "sum_list (map (\<lambda>rs. 1 + length rs) ((md_replies M)[k := rs])) + (2 + length rs)
        = sum_list (map (\<lambda>rs. 1 + length rs) (md_replies M)) + (1 + length rs)"
      using sum_list_exchange [OF reply, of "\<lambda>rs. 1 + length rs" rs] Cons by simp
    then show ?thesis by (simp add: work_left_def deliver_reply_def Cons)
  qed
qed

lemma finishing_stops: "(\<nexists>N. finishing H M N) \<longleftrightarrow> md_batches M = [] \<and> md_replies M = []"
  by (auto elim: finishing.cases intro: finishing.intros)

lemma finishing_wf: "wfp (\<lambda>N M. finishing H M N)"
  by (rule wfp_if_convertible_to_nat [of _ work_left]) (simp add: finishing_work)

lemma finishing_ends: "\<exists>N. (finishing H)\<^sup>*\<^sup>* M N \<and> \<not> (\<exists>N'. finishing H N N')"
proof (induction "work_left M" arbitrary: M rule: less_induct)
  case less
  then show ?case
    by (metis converse_rtranclp_into_rtranclp finishing_work lessI rtranclp.rtrancl_refl)
qed

text \<open>What waits to be committed, settled and answered.\<close>

definition to_commit :: "vdma \<Rightarrow> (key \<times> vstring) multiset" where
  "to_commit M = image_mset (target \<circ> cm_caller_context)
     (filter_mset completion_verified (mset (concat (md_batches M))))"

definition to_settle :: "vdma \<Rightarrow> vstring multiset" where
  "to_settle M = \<Sum>\<^sub># (image_mset (mset \<circ> buffer_of \<circ> cm_caller_context) (mset (concat (md_batches M))))"

definition to_answer :: "vdma \<Rightarrow> nat multiset" where
  "to_answer M = mset (map (token_client \<circ> cm_caller_context) (concat (md_batches M)))
     + mset (map pg_blocked (concat (md_replies M)))"

lemma commit_consumed:
  "consumed (snd (commit_batch V cs l)) = consumed l @ concat (map (buffer_of \<circ> cm_caller_context) cs)"
proof (induction cs arbitrary: l)
  case (Cons c cs)
  then show ?case
    using finish_consumed [of V "cm_caller_context c" "cm_outcome c" l] by (simp add: split_def Let_def)
qed simp

lemma mset_concat_map: "mset (concat (map f cs)) = \<Sum>\<^sub># (image_mset (mset \<circ> f) (mset cs))"
  by (induction cs) simp_all

lemma concat_exchange:
  assumes "k < length xs" "xs ! k = r # rs"
  shows "mset (concat xs) = add_mset r (mset (concat (xs[k := rs])))"
  by (subst id_take_nth_drop [OF assms(1)]) (simp add: assms upd_conv_take_nth_drop)

text \<open>A step commits, settles and answers what it takes off the lists, and nothing else.\<close>

lemma finishing_conserves:
  assumes "finishing H M N"
  shows "mset (moves (md_log N)) + to_commit N = mset (moves (md_log M)) + to_commit M
    \<and> mset (consumed (md_log N)) + to_settle N = mset (consumed (md_log M)) + to_settle M
    \<and> length (replies_to b (md_log N)) + count (to_answer N) b
        = length (replies_to b (md_log M)) + count (to_answer M) b"
  using assms
proof cases
  case (commit k)
  let ?cs = "md_batches M ! k" and ?rest = "take_out k (md_batches M)"
  have all: "mset (concat (md_batches M)) = mset (concat ?rest) + mset ?cs"
    using concat_take_out [OF commit(2)] by simp
  obtain pending l where run: "commit_batch (ho_valkey H) ?cs (md_log M) = (pending, l)"
    by (cases "commit_batch (ho_valkey H) ?cs (md_log M)")
  have N: "md_batches N = ?rest" "md_replies N = md_replies M @ [pending]" "md_log N = l"
    by (simp_all add: commit(1) complete_batch_def run)
  have "moves l = moves (md_log M) @ map (target \<circ> cm_caller_context) (filter completion_verified ?cs)"
    using commit_moves [of "ho_valkey H" ?cs "md_log M"] run by simp
  moreover have "consumed l = consumed (md_log M) @ concat (map (buffer_of \<circ> cm_caller_context) ?cs)"
    using commit_consumed [of "ho_valkey H" ?cs "md_log M"] run by simp
  moreover have "replies_to b l = replies_to b (md_log M)"
    using commit_log(1) [of b "ho_valkey H" ?cs "md_log M"] run by simp
  moreover have "map pg_blocked pending = map (token_client \<circ> cm_caller_context) ?cs"
    using commit_blocked [of "ho_valkey H" ?cs "md_log M"] run by simp
  ultimately show ?thesis
    by (simp add: N to_commit_def to_settle_def to_answer_def all mset_concat_map comp_assoc)
next
  case (reply k)
  show ?thesis
  proof (cases "md_replies M ! k")
    case Nil
    then have "mset (concat (take_out k (md_replies M))) = mset (concat (md_replies M))"
      using concat_take_out [OF reply(2)] by simp
    then show ?thesis
      by (simp add: reply(1) deliver_reply_def Nil to_commit_def to_settle_def to_answer_def)
  next
    case (Cons r rs)
    show ?thesis
      using concat_exchange [OF reply(2) Cons]
      by (simp add: reply(1) deliver_reply_def Cons send_reply_def to_commit_def to_settle_def to_answer_def)
  qed
qed

lemma finishing_run_conserves:
  assumes "(finishing H)\<^sup>*\<^sup>* M N"
  shows "mset (moves (md_log N)) + to_commit N = mset (moves (md_log M)) + to_commit M
    \<and> mset (consumed (md_log N)) + to_settle N = mset (consumed (md_log M)) + to_settle M
    \<and> length (replies_to b (md_log N)) + count (to_answer N) b
        = length (replies_to b (md_log M)) + count (to_answer M) b"
  using assms by (induction rule: rtranclp_induct) (auto simp: finishing_conserves [of H _ _ b])

text \<open>
  C20. The hooks end, whatever order the pool's threads run in, and when they do everything is done. No
  run of locked halves and replies is infinite, and from any point one can be carried on to its
  end. At the end of a run every verified completion of the batches it began with has moved its
  value into its key, once, every buffer of theirs was moved or given back once, and each client
  had exactly one more reply for each completion and each staged reply that was its own.
\<close>

theorem hooks_terminate:
  assumes "(finishing H)\<^sup>*\<^sup>* M N" "\<not> (\<exists>N'. finishing H N N')"
  shows "wfp (\<lambda>N M. finishing H M N) \<and> (\<exists>E. (finishing H)\<^sup>*\<^sup>* K E \<and> \<not> (\<exists>N'. finishing H E N'))
    \<and> md_batches N = [] \<and> md_replies N = []
    \<and> mset (moves (md_log N)) = mset (moves (md_log M)) + image_mset (target \<circ> cm_caller_context)
        (filter_mset (\<lambda>c. verified (cm_caller_context c) (cm_outcome c)) (mset (concat (md_batches M))))
    \<and> mset (consumed (md_log N)) = mset (consumed (md_log M))
        + mset (concat (map (buffer_of \<circ> cm_caller_context) (concat (md_batches M))))
    \<and> length (replies_to b (md_log N)) = length (replies_to b (md_log M))
        + count (mset (map (token_client \<circ> cm_caller_context) (concat (md_batches M)))) b
        + count (mset (map pg_blocked (concat (md_replies M)))) b"
proof -
  have ended: "md_batches N = []" "md_replies N = []" using assms(2) finishing_stops [of H N] by blast+
  then have "to_commit N = {#}" "to_settle N = {#}" "to_answer N = {#}"
    by (simp_all add: to_commit_def to_settle_def to_answer_def)
  with finishing_run_conserves [OF assms(1), of b] show ?thesis
    using ended finishing_wf [of H] finishing_ends [of H K]
    by (simp add: to_commit_def to_settle_def to_answer_def mset_concat_map comp_assoc)
qed

theorem hooks_terminate_witness:
  "\<exists>N :: vdma. md_batches N = [] \<and> md_replies N = [] \<and> mset (moves (md_log N)) = {#([97], sample_buffer)#}
     \<and> mset (consumed (md_log N)) = {#sample_buffer, sample_buffer#} \<and> length (replies_to 1 (md_log N)) = 1"
proof -
  obtain N where N: "(finishing sample_host)\<^sup>*\<^sup>* sample_committing N" "\<not> (\<exists>N'. finishing sample_host N N')"
    using finishing_ends [of sample_host sample_committing] by blast
  note all = hooks_terminate [OF N, of sample_committing 1]
  show ?thesis
    by (rule exI [of _ N]) (use all in \<open>simp add: sample_committing_def sample_batch_def module_new_def\<close>)
qed

end
