(* ===== verification/Passive_Target.thy ===== *)
theory Passive_Target
  imports Endpoint_Setup
begin

text \<open>
  The passive target of the examples (\<open>examples/passive_target/mod.rs\<close>): the client half, which the
  library deliberately is not. A target opens an endpoint of its own, exposes one buffer to a remote
  side, tells its address, and closes everything on drop. What libfabric answers to the calls the
  library does not make is in the record \<open>target_fabric\<close>; the objects and the log are those of
  \<open>Endpoint_Setup\<close>, with whose hints and accounting the target's are compared.
\<close>

section \<open>The target\<close>

record target_fabric =
  ta_setup :: fi_library
  ta_mr_reg :: "setup_log \<Rightarrow> handle \<Rightarrow> ptr \<Rightarrow> usize \<Rightarrow> u64 \<Rightarrow> int \<times> handle"
  ta_mr_key :: "handle \<Rightarrow> u64"
  ta_av_insert :: "setup_log \<Rightarrow> handle \<Rightarrow> u8 list \<Rightarrow> int"
  ta_cq_read :: "setup_log \<Rightarrow> handle \<Rightarrow> int"

record exposed =
  ex_remote_key :: u64
  ex_remote_address :: u64

text \<open>The handles of \<open>Target\<close>; \<open>tg_attributes\<close> is the entry that \<open>info\<close> points at.\<close>

record target =
  tg_memory_region :: handle
  tg_endpoint :: handle
  tg_completion_queue :: handle
  tg_address_vector :: handle
  tg_domain :: handle
  tg_fabric :: handle
  tg_info :: handle
  tg_attributes :: fi_info

definition null_target :: target where
  "null_target = \<lparr>tg_memory_region = 0, tg_endpoint = 0, tg_completion_queue = 0, tg_address_vector = 0,
     tg_domain = 0, tg_fabric = 0, tg_info = 0, tg_attributes = no_info\<rparr>"

definition target_drop :: "target \<Rightarrow> setup_log \<Rightarrow> setup_log" where
  "target_drop t =
     close_object Infos (tg_info t) \<circ> close_object FabricObj (tg_fabric t) \<circ> close_object DomainObj (tg_domain t)
       \<circ> close_object AddressVector (tg_address_vector t) \<circ> close_object CompletionQueue (tg_completion_queue t)
       \<circ> close_object EndpointObj (tg_endpoint t) \<circ> close_object RegionObj (tg_memory_region t)"

definition target_check :: "int \<Rightarrow> string \<Rightarrow> (string, unit) result" where
  "target_check code what = (if 0 = code then Inr () else Inl (what @ '' failed: '' @ show_int code))"

section \<open>Opening\<close>

type_synonym target_step = "target \<times> setup_log \<Rightarrow> (string, unit) result \<times> target \<times> setup_log"

definition target_hints :: "fi_constants \<Rightarrow> bool \<Rightarrow> fi_hints" where
  "target_hints K use_efa =
     \<lparr>h_caps = ucast (FI_MSG K OR FI_RMA K OR FI_READ K OR FI_WRITE K OR FI_REMOTE_READ K OR FI_REMOTE_WRITE K),
      h_mr_mode = FI_MR_LOCAL K OR FI_MR_ALLOCATED K OR FI_MR_PROV_KEY K OR FI_MR_VIRT_ADDR K,
      h_prov_name = (if use_efa then ''efa'' else ''tcp''),
      h_fabric_name = (if use_efa then Some ''efa-direct'' else None),
      h_mode = (if use_efa then FI_CONTEXT2 K else 0)\<rparr>"

text \<open>The block that calls \<open>fi_getinfo\<close>; the list it answers is kept as \<open>info\<close>.\<close>

definition target_query :: "fi_library \<Rightarrow> bool \<Rightarrow> string option \<Rightarrow> target_step" where
  "target_query S use_efa bind = (\<lambda>(t, l).
     let K = su_constants S;
         hints = fi_allocinfo S l
     in if hints = 0 then (Inl ''fi_allocinfo failed'', t, l)
        else
          (let l1 = acquire Hints hints l;
               flags = (if bind = None then 0 else FI_SOURCE K);
               (code, list, infos) = fi_getinfo S l1 bind flags (target_hints K use_efa);
               t1 = t\<lparr>tg_info := list, tg_attributes := (case infos of i # _ \<Rightarrow> i | [] \<Rightarrow> no_info)\<rparr>;
               l2 = Released (Hints hints) # acquire Infos list (Called ''fi_getinfo'' code # l1)
           in case target_check code ''fi_getinfo'' of
                Inl e \<Rightarrow> (Inl e, t1, l2)
              | Inr _ \<Rightarrow> (if list = 0 then Inl ''no provider matched'' else Inr (), t1, l2)))"

definition target_fabric_step :: "fi_library \<Rightarrow> target_step" where
  "target_fabric_step S = (\<lambda>(t, l).
     let (code, h) = fi_fabric S l (tg_attributes t)
     in (target_check code ''fi_fabric'', t\<lparr>tg_fabric := h\<rparr>, acquire FabricObj h (Called ''fi_fabric'' code # l)))"

definition target_domain_step :: "fi_library \<Rightarrow> target_step" where
  "target_domain_step S = (\<lambda>(t, l).
     let (code, h) = fi_domain S l (tg_fabric t) (tg_attributes t)
     in (target_check code ''fi_domain'', t\<lparr>tg_domain := h\<rparr>, acquire DomainObj h (Called ''fi_domain'' code # l)))"

definition target_address_vector_step :: "fi_library \<Rightarrow> target_step" where
  "target_address_vector_step S = (\<lambda>(t, l).
     let (code, h) = fi_av_open S l (tg_domain t)
     in (target_check code ''fi_av_open'', t\<lparr>tg_address_vector := h\<rparr>,
         acquire AddressVector h (Called ''fi_av_open'' code # l)))"

definition target_completion_queue_step :: "fi_library \<Rightarrow> target_step" where
  "target_completion_queue_step S = (\<lambda>(t, l).
     let (code, h) = fi_cq_open S l (tg_domain t)
     in (target_check code ''fi_cq_open'', t\<lparr>tg_completion_queue := h\<rparr>,
         acquire CompletionQueue h (Called ''fi_cq_open'' code # l)))"

definition target_endpoint_step :: "fi_library \<Rightarrow> target_step" where
  "target_endpoint_step S = (\<lambda>(t, l).
     let (code, h) = fi_endpoint S l (tg_domain t) (tg_attributes t)
     in (target_check code ''fi_endpoint'', t\<lparr>tg_endpoint := h\<rparr>,
         acquire EndpointObj h (Called ''fi_endpoint'' code # l)))"

definition target_bind_av_step :: "fi_library \<Rightarrow> target_step" where
  "target_bind_av_step S = (\<lambda>(t, l).
     let code = fi_ep_bind S l (tg_endpoint t) (tg_address_vector t) 0
     in (target_check code ''fi_ep_bind(av)'', t, Called ''fi_ep_bind'' code # l))"

definition target_bind_cq_step :: "fi_library \<Rightarrow> target_step" where
  "target_bind_cq_step S = (\<lambda>(t, l).
     let flags = ucast (FI_TRANSMIT (su_constants S) OR FI_RECV (su_constants S));
         code = fi_ep_bind S l (tg_endpoint t) (tg_completion_queue t) flags
     in (target_check code ''fi_ep_bind(cq)'', t, Called ''fi_ep_bind'' code # l))"

definition target_enable_step :: "fi_library \<Rightarrow> target_step" where
  "target_enable_step S = (\<lambda>(t, l).
     let code = fi_enable S l (tg_endpoint t)
     in (target_check code ''fi_enable'', t, Called ''fi_enable'' code # l))"

definition target_steps :: "fi_library \<Rightarrow> bool \<Rightarrow> string option \<Rightarrow> target_step list" where
  "target_steps S use_efa bind = [target_query S use_efa bind, target_fabric_step S, target_domain_step S,
     target_address_vector_step S, target_completion_queue_step S, target_endpoint_step S,
     target_bind_av_step S, target_bind_cq_step S, target_enable_step S]"

text \<open>\<open>Target::open\<close>. An early return drops the target as far as it is built.\<close>

definition target_open ::
  "target_fabric \<Rightarrow> bool \<Rightarrow> string option \<Rightarrow> setup_log \<Rightarrow> (string, target) result \<times> setup_log" where
  "target_open T use_efa bind l =
     (if (case bind of None \<Rightarrow> False | Some b \<Rightarrow> cstring b = None)
      then (Inl ''bind address'', target_drop null_target l)
      else
        (case run_steps (target_steps (ta_setup T) use_efa bind) (null_target, l) of
           (Inl e, t, l1) \<Rightarrow> (Inl e, target_drop t l1)
         | (Inr _, t, l1) \<Rightarrow> (Inr t, l1)))"

section \<open>Exposing a buffer\<close>

text \<open>The access a buffer is registered for.\<close>

definition access_of :: "fi_constants \<Rightarrow> bool \<Rightarrow> u64" where
  "access_of K remote_read =
     (let remote = (if remote_read then FI_REMOTE_READ K OR FI_REMOTE_WRITE K else FI_REMOTE_WRITE K)
      in ucast (remote OR FI_READ K OR FI_WRITE K))"

definition expose ::
  "target_fabric \<Rightarrow> ptr \<Rightarrow> usize \<Rightarrow> bool \<Rightarrow> target \<Rightarrow> setup_log
    \<Rightarrow> (string, exposed) result \<times> target \<times> setup_log" where
  "expose T pointer len remote_read t l =
     (let K = su_constants (ta_setup T);
          (code, h) = ta_mr_reg T l (tg_domain t) pointer len (access_of K remote_read);
          t1 = t\<lparr>tg_memory_region := h\<rparr>;
          l1 = acquire RegionObj h (Called ''fi_mr_reg'' code # l)
      in case target_check code ''fi_mr_reg'' of
           Inl e \<Rightarrow> (Inl e, t1, l1)
         | Inr _ \<Rightarrow>
             (Inr \<lparr>ex_remote_key = ta_mr_key T h,
                ex_remote_address =
                  (if inf_mr_mode (tg_attributes t) AND FI_MR_VIRT_ADDR K \<noteq> 0 then pointer else 0)\<rparr>,
              t1, l1))"

definition target_address ::
  "fi_library \<Rightarrow> target \<Rightarrow> setup_log \<Rightarrow> (string, u8 list) result \<times> setup_log" where
  "target_address S t l =
     (let (code, len, _) = fi_getname S l (tg_endpoint t) 0;
          l1 = Called ''fi_getname'' code # l;
          (code', len', bytes) = fi_getname S l1 (tg_endpoint t) len;
          written = take len bytes;
          buffer = written @ replicate (len - length written) 0;
          l2 = Called ''fi_getname'' code' # l1
      in case target_check code' ''fi_getname'' of
           Inl e \<Rightarrow> (Inl e, l2)
         | Inr _ \<Rightarrow> (Inr (take len' buffer), l2))"

definition insert_initiator ::
  "target_fabric \<Rightarrow> u8 list \<Rightarrow> target \<Rightarrow> setup_log \<Rightarrow> (string, unit) result \<times> setup_log" where
  "insert_initiator T address t l =
     (let inserted = ta_av_insert T l (tg_address_vector t) address
      in (if 1 \<noteq> inserted then Inl (''fi_av_insert inserted '' @ show_int inserted @ '' of 1'') else Inr (),
          Called ''fi_av_insert'' inserted # l))"

definition progress :: "target_fabric \<Rightarrow> target \<Rightarrow> setup_log \<Rightarrow> setup_log" where
  "progress T t l = Called ''fi_cq_read'' (ta_cq_read T l (tg_completion_queue t)) # l"

section \<open>What it holds is given back\<close>

definition target_parts :: "target \<Rightarrow> fi_object list" where
  "target_parts t = own RegionObj (tg_memory_region t) @ own EndpointObj (tg_endpoint t)
     @ own CompletionQueue (tg_completion_queue t) @ own AddressVector (tg_address_vector t)
     @ own DomainObj (tg_domain t) @ own FabricObj (tg_fabric t) @ own Infos (tg_info t)"

definition target_built :: "nat \<Rightarrow> target \<Rightarrow> bool" where
  "target_built n t \<longleftrightarrow> tg_memory_region t = 0 \<and> (n < 1 \<longrightarrow> tg_info t = 0) \<and> (n < 2 \<longrightarrow> tg_fabric t = 0)
     \<and> (n < 3 \<longrightarrow> tg_domain t = 0) \<and> (n < 4 \<longrightarrow> tg_address_vector t = 0)
     \<and> (n < 5 \<longrightarrow> tg_completion_queue t = 0) \<and> (n < 6 \<longrightarrow> tg_endpoint t = 0)"

lemma target_drop_held:
  assumes "held l = target_parts t @ others" "orderly l"
  shows "held (target_drop t l) = others \<and> orderly (target_drop t l)"
proof -
  let ?l1 = "close_object RegionObj (tg_memory_region t) l"
  let ?l2 = "close_object EndpointObj (tg_endpoint t) ?l1"
  let ?l3 = "close_object CompletionQueue (tg_completion_queue t) ?l2"
  let ?l4 = "close_object AddressVector (tg_address_vector t) ?l3"
  let ?l5 = "close_object DomainObj (tg_domain t) ?l4"
  let ?l6 = "close_object FabricObj (tg_fabric t) ?l5"
  note s1 = close_object_held [OF assms(1) [unfolded target_parts_def append_assoc] assms(2)]
  note s2 = close_object_held [OF conjunct1 [OF s1] conjunct2 [OF s1]]
  note s3 = close_object_held [OF conjunct1 [OF s2] conjunct2 [OF s2]]
  note s4 = close_object_held [OF conjunct1 [OF s3] conjunct2 [OF s3]]
  note s5 = close_object_held [OF conjunct1 [OF s4] conjunct2 [OF s4]]
  note s6 = close_object_held [OF conjunct1 [OF s5] conjunct2 [OF s5]]
  note s7 = close_object_held [OF conjunct1 [OF s6] conjunct2 [OF s6]]
  show ?thesis using s7 by (simp add: target_drop_def)
qed

interpretation targets: construction target_parts target_built target_drop
  by unfold_locales (rule target_drop_held)

lemmas target_step_defs = target_query_def target_fabric_step_def target_domain_step_def
  target_address_vector_step_def target_completion_queue_step_def target_endpoint_step_def
  target_bind_av_step_def target_bind_cq_step_def target_enable_step_def

lemma target_check_Inr [simp]: "target_check code what = Inr u \<longleftrightarrow> code = 0"
  by (simp add: target_check_def)

lemma target_steps_index:
  "i < length (target_steps S use_efa bind) \<Longrightarrow> i \<in> {0, 1, 2, 3, 4, 5, 6, 7, 8}"
  by (auto simp: target_steps_def)

lemma target_query_account:
  assumes "target_query S use_efa bind (t, l) = (r, t', l')" "target_built 0 t"
    "held l = target_parts t @ others" "orderly l"
  shows "held l' = target_parts t' @ others \<and> orderly l' \<and> target_built (Suc 0) t'"
proof -
  let ?l1 = "acquire Hints (fi_allocinfo S l) l"
  obtain code list infos where q: "fi_getinfo S ?l1 bind (if bind = None then 0 else FI_SOURCE (su_constants S))
      (target_hints (su_constants S) use_efa) = (code, list, infos)"
    by (metis prod_cases3)
  show ?thesis
    using assms q
    by (auto simp: target_query_def Let_def target_built_def target_parts_def own_def split: sum.splits if_splits)
qed

lemma target_steps_keep_account:
  assumes i: "i < length (target_steps S use_efa bind)"
    and run: "(target_steps S use_efa bind ! i) (t, l) = (r, t', l')" and built: "target_built i t"
    and l: "held l = target_parts t @ others" "orderly l"
  shows "held l' = target_parts t' @ others \<and> orderly l' \<and> target_built (Suc i) t'"
proof (cases "i = 0")
  case True
  then show ?thesis using target_query_account [of S use_efa bind t l] run built l by (simp add: target_steps_def)
next
  case False
  then have "i \<in> {1, 2, 3, 4, 5, 6, 7, 8}" using target_steps_index [OF i] by simp
  then show ?thesis
    using run built l
    by (elim insertE emptyE; simp add: target_steps_def target_step_defs Let_def target_built_def target_parts_def
        eval_nat_numeral split: prod.splits; (elim conjE)?; hypsubst?; simp)
qed

text \<open>What a target that opened holds.\<close>

definition target_made :: "nat \<Rightarrow> target \<Rightarrow> bool" where
  "target_made n t \<longleftrightarrow> (1 \<le> n \<longrightarrow> tg_info t \<noteq> 0) \<and> (2 \<le> n \<longrightarrow> tg_fabric t \<noteq> 0) \<and> (3 \<le> n \<longrightarrow> tg_domain t \<noteq> 0)
     \<and> (4 \<le> n \<longrightarrow> tg_address_vector t \<noteq> 0) \<and> (5 \<le> n \<longrightarrow> tg_completion_queue t \<noteq> 0)
     \<and> (6 \<le> n \<longrightarrow> tg_endpoint t \<noteq> 0)"

lemma target_query_made:
  "target_query S use_efa bind (t, l) = (Inr (), t', l') \<Longrightarrow> target_made (Suc 0) t'"
  by (auto simp: target_query_def Let_def target_made_def split: prod.splits sum.splits if_splits)

lemma target_steps_make:
  assumes lib: "library_ok S" and i: "i < length (target_steps S use_efa bind)"
    and run: "(target_steps S use_efa bind ! i) (t, l) = (Inr (), t', l')" and made: "target_made i t"
  shows "target_made (Suc i) t'"
proof (cases "i = 0")
  case True
  then show ?thesis using target_query_made [of S use_efa bind t l] run by (simp add: target_steps_def)
next
  case False
  then have "i \<in> {1, 2, 3, 4, 5, 6, 7, 8}" using target_steps_index [OF i] by simp
  then show ?thesis
    using run made
    by (elim insertE emptyE; auto simp: target_steps_def target_step_defs Let_def target_made_def
        eval_nat_numeral split: prod.splits dest: library_okD [OF lib])
qed

lemma target_open_account:
  assumes lib: "library_ok (ta_setup T)" and l: "orderly l" and run: "target_open T use_efa bind l = (r, l')"
  shows "case r of Inl e \<Rightarrow> held l' = held l \<and> orderly l'
    | Inr t \<Rightarrow> held l' = target_parts t @ held l \<and> orderly l' \<and> target_built 9 t \<and> target_made 9 t"
proof (cases "case bind of None \<Rightarrow> False | Some b \<Rightarrow> cstring b = None")
  case True
  then show ?thesis
    using run l by (auto simp: target_open_def target_drop_def null_target_def close_object_def)
next
  case False
  let ?S = "ta_setup T" and ?fs = "target_steps (ta_setup T) use_efa bind"
  obtain r1 t l1 where steps: "run_steps ?fs (null_target, l) = (r1, t, l1)"
    by (cases "run_steps ?fs (null_target, l)")
  have start: "held l = target_parts null_target @ held l" "target_built 0 null_target"
    by (simp_all add: target_parts_def target_built_def null_target_def)
  have keep: "held l' = target_parts t' @ held l \<and> orderly l' \<and> (r = Inr () \<longrightarrow> target_built (Suc (0 + i)) t')"
    if "i < length ?fs" "(?fs ! i) (t, l0) = (r, t', l')" "target_built (0 + i) t"
      "held l0 = target_parts t @ held l" "orderly l0" for i t l0 r t' l'
    using target_steps_keep_account [of i ?S use_efa bind t l0 r t' l'] that by simp
  have made: "target_made (0 + length ?fs) t" if "r1 = Inr ()"
  proof -
    have "target_made (0 + length ?fs) (fst (t, l1))"
    proof (rule run_steps_success [where P = "\<lambda>n s. target_made n (fst s)"])
      show "target_made 0 (fst (null_target, l))" by (simp add: target_made_def)
      show "run_steps ?fs (null_target, l) = (Inr (), t, l1)" using steps that by simp
    next
      fix i s s'
      assume "i < length ?fs" "target_made (0 + i) (fst s)" "(?fs ! i) s = (Inr (), s')"
      then show "target_made (Suc (0 + i)) (fst s')"
        using target_steps_make [OF lib, of i use_efa bind "fst s" "snd s" "fst s'" "snd s'"] by simp
    qed
    then show ?thesis by simp
  qed
  note account = targets.run_account [OF keep start(1) l start(2) steps]
    and failed = targets.abandoned [OF keep start(1) l start(2) steps]
  have "length ?fs = 9" by (simp add: target_steps_def)
  then show ?thesis
    using run steps False account failed made
    by (cases r1) (auto simp: target_open_def simp del: run_steps.simps)
qed

lemma expose_account:
  assumes "held l = target_parts t @ others" "orderly l" "tg_memory_region t = 0"
    "expose T pointer len remote_read t l = (r, t', l')"
  shows "held l' = target_parts t' @ others \<and> orderly l'"
  using assms by (auto simp: expose_def target_parts_def Let_def split: prod.splits sum.splits)

text \<open>
  The passive target leaks nothing either. A target that fails to open has given back whatever
  it acquired; one that opens holds its endpoint, queue, address vector, domain, fabric and the list
  of entries, none of them null; and once it has exposed its buffer, or failed to, its drop gives all
  of them back with the registration, each before the objects it was made on.
\<close>

theorem target_gives_every_object_back:
  assumes "library_ok (ta_setup T)" "orderly l"
  shows "case target_open T use_efa bind l of
      (Inl e, l') \<Rightarrow> held l' = held l \<and> orderly l'
    | (Inr t, l') \<Rightarrow>
        held l' = [EndpointObj (tg_endpoint t), CompletionQueue (tg_completion_queue t),
          AddressVector (tg_address_vector t), DomainObj (tg_domain t), FabricObj (tg_fabric t),
          Infos (tg_info t)] @ held l
        \<and> 0 \<notin> {tg_endpoint t, tg_completion_queue t, tg_address_vector t, tg_domain t, tg_fabric t, tg_info t}
        \<and> (case expose T pointer len remote_read t l' of
             (r, t1, l1) \<Rightarrow> held (target_drop t1 l1) = held l \<and> orderly (target_drop t1 l1))"
proof -
  obtain r l' where run: "target_open T use_efa bind l = (r, l')" by (cases "target_open T use_efa bind l")
  note acc = target_open_account [OF assms run]
  show ?thesis
  proof (cases r)
    case (Inr t)
    obtain r1 t1 l1 where ex: "expose T pointer len remote_read t l' = (r1, t1, l1)"
      by (cases "expose T pointer len remote_read t l'")
    have t: "held l' = target_parts t @ held l" "orderly l'" "tg_memory_region t = 0" "target_made 9 t"
      using acc Inr by (simp_all add: target_built_def)
    show ?thesis
      using run Inr ex t targets.close_parts expose_account [OF t(1-3) ex]
      by (simp add: target_made_def target_parts_def own_def)
  qed (use run acc in simp)
qed

definition sample_target_fabric :: target_fabric where
  "sample_target_fabric = \<lparr>ta_setup = sample_library, ta_mr_reg = (\<lambda>l _ _ _ _. (0, fresh_handle l)),
     ta_mr_key = (\<lambda>h. h + 100), ta_av_insert = (\<lambda>_ _ _. 1), ta_cq_read = (\<lambda>_ _. - 11)\<rparr>"

lemma sample_target_open: "\<not> isl (fst (target_open sample_target_fabric True None []))"
  by code_simp

theorem target_gives_every_object_back_witness:
  "case target_open sample_target_fabric True None [] of
     (Inl e, l') \<Rightarrow> False
   | (Inr t, l') \<Rightarrow> length (held l') = 6
       \<and> (case expose sample_target_fabric 64 4096 True t l' of (r, t1, l1) \<Rightarrow> held (target_drop t1 l1) = [])"
proof -
  obtain r l' where run: "target_open sample_target_fabric True None [] = (r, l')"
    by (cases "target_open sample_target_fabric True None []")
  obtain t where r: "r = Inr t" using sample_target_open run by (cases r) auto
  obtain r1 t1 l1 where ex: "expose sample_target_fabric 64 4096 True t l' = (r1, t1, l1)"
    by (cases "expose sample_target_fabric 64 4096 True t l'")
  have "library_ok (ta_setup sample_target_fabric)" by (simp add: sample_target_fabric_def sample_library_ok)
  from target_gives_every_object_back [OF this, where l = "[]" and use_efa = True and bind = None
      and pointer = 64 and len = 4096 and remote_read = True] show ?thesis
    using run r ex by simp
qed

section \<open>What the two halves agree on\<close>

text \<open>
  The target asks for the fabric that the server asks for, in everything but the mode: for
  \<open>efa-direct\<close> the server declares \<open>FI_RX_CQ_DATA\<close> too, which the target does not.
\<close>

lemma target_hints_of_server:
  "hints_for K Tcp = target_hints K False"
  "hints_for K EfaDirect = (target_hints K True)\<lparr>h_mode := h_mode (target_hints K True) OR FI_RX_CQ_DATA K\<rparr>"
  by (simp_all add: hints_for_def target_hints_def)

text \<open>
  A buffer is always open to the writes of a \<open>DMA.GET\<close>; it can be read from outside, as a
  \<open>DMA.SET\<close> and the quiesce read of a write need, exactly when that was asked for.
\<close>

lemma access_of_writes: "access_of K remote_read AND ucast (FI_REMOTE_WRITE K) = ucast (FI_REMOTE_WRITE K)"
  by (auto simp: access_of_def Let_def bit_eq_iff bit_simps)

lemma access_of_reads:
  assumes "FI_REMOTE_READ K AND (FI_REMOTE_WRITE K OR FI_READ K OR FI_WRITE K) = 0"
  shows "access_of K remote_read AND ucast (FI_REMOTE_READ K) = (if remote_read then ucast (FI_REMOTE_READ K) else 0)"
proof -
  have "\<not> (bit (FI_REMOTE_WRITE K) n \<or> bit (FI_READ K) n \<or> bit (FI_WRITE K) n)" if "bit (FI_REMOTE_READ K) n" for n
    using arg_cong [OF assms, of "\<lambda>w. bit w n"] that by (simp add: bit_simps)
  then show ?thesis by (auto simp: access_of_def Let_def bit_eq_iff bit_simps)
qed

end
