(* ===== verification/Initiators.thy ===== *)
theory Initiators
  imports Passive_Target
begin

text \<open>
  The example programs around the library: what the initiators share (\<open>examples/common/mod.rs\<close>), the
  request each of them submits (\<open>one_transfer.rs\<close>, \<open>async_transfer.rs\<close>, \<open>read_from_peer.rs\<close>,
  \<open>registered_arena.rs\<close>), and the target they talk to (\<open>one_target.rs\<close>). Command lines, standard
  input, the pool, the start of the service and the clock are arguments. The line that the target
  prints is the line that the initiators read: the lemmas show that they agree.
\<close>

section \<open>Lines and words\<close>

text \<open>
  \<open>char::is_whitespace\<close> on UTF-8: how many bytes the white space character at the front takes, and
  zero when there is none.
\<close>

definition whitespace_length :: "u8 list \<Rightarrow> nat" where
  "whitespace_length text =
     (let at = (\<lambda>i. if i < length text then unat (text ! i) else 0)
      in if (9 \<le> at 0 \<and> at 0 \<le> 13) \<or> at 0 = 32 then 1
         else if at 0 = 194 \<and> at 1 \<in> {133, 160} then 2
         else if at 0 = 225 \<and> at 1 = 154 \<and> at 2 = 128 then 3
         else if at 0 = 226 \<and> at 1 = 128 \<and> (128 \<le> at 2 \<and> at 2 \<le> 138 \<or> at 2 \<in> {168, 169, 175}) then 3
         else if at 0 = 226 \<and> at 1 = 129 \<and> at 2 = 159 then 3
         else if at 0 = 227 \<and> at 1 = 128 \<and> at 2 = 128 then 3
         else 0)"

definition end_word :: "u8 list \<Rightarrow> u8 list list \<Rightarrow> u8 list list" where
  "end_word w ws = (if w = [] then ws else w # ws)"

text \<open>\<open>str::split_whitespace\<close>; the first argument is the word that has begun.\<close>

fun split_whitespace :: "u8 list \<Rightarrow> u8 list \<Rightarrow> u8 list list" where
  "split_whitespace w [] = end_word w []"
| "split_whitespace w (b # bs) =
     (let n = whitespace_length (b # bs)
      in if n = 0 then split_whitespace (w @ [b]) bs
         else end_word w (split_whitespace [] (drop (n - 1) bs)))"

text \<open>\<open>Iterator::partition\<close> of the command line into flags and the rest.\<close>

definition is_flag :: "string \<Rightarrow> bool" where
  "is_flag argument = (take 2 argument = ''--'')"

section \<open>What the initiators share\<close>

definition advertisement_of :: "u8 list list \<Rightarrow> (dma_error, advertisement) result option" where
  "advertisement_of ws =
     (case ws of
        [address, remote_key, remote_address] \<Rightarrow>
          Some (case from_fields [address, remote_key, remote_address] of
                  Inl e \<Rightarrow> Inl (Fabric (advertisement_error_display e))
                | Inr peer \<Rightarrow> Inr peer)
      | _ \<Rightarrow> None)"

definition peer_from_stdin :: "(string, u8 list) result \<Rightarrow> (dma_error, advertisement) result" where
  "peer_from_stdin stdin =
     (case stdin of
        Inl e \<Rightarrow> Inl (Fabric (''reading the advertisement: '' @ e))
      | Inr line \<Rightarrow>
          (let ws = split_whitespace [] line
           in case advertisement_of ws of
                Some peer \<Rightarrow> peer
              | None \<Rightarrow> Inl (Fabric (''expected <address-hex> <rkey> <remote-addr>, got ''
                    @ show_nat (length ws) @ '' fields''))))"

record arguments =
  ar_configuration :: libfabric_configuration
  ar_peer :: "advertisement option"

definition parse_arguments :: "string list \<Rightarrow> (dma_error, arguments) result" where
  "parse_arguments args =
     (let flags = filter is_flag args;
          positional = filter (Not \<circ> is_flag) args;
          efa = (''--efa'' \<in> set flags);
          (bind, rest) = (if efa then (None, positional)
                          else case positional of [] \<Rightarrow> (None, []) | p # ps \<Rightarrow> (Some p, ps));
          configuration = default_libfabric\<lparr>lc_providers := [if efa then EfaDirect else Tcp], lc_bind := bind\<rparr>
      in case advertisement_of (map string_bytes rest) of
           None \<Rightarrow> Inr \<lparr>ar_configuration = configuration, ar_peer = None\<rparr>
         | Some (Inl e) \<Rightarrow> Inl e
         | Some (Inr peer) \<Rightarrow> Inr \<lparr>ar_configuration = configuration, ar_peer = Some peer\<rparr>)"

section \<open>The initiators\<close>

text \<open>
  What surrounds a program: its command line, the pool, the start of the service (the address it
  answers) and the line typed on standard input.
\<close>

record surroundings =
  sg_arguments :: "string list"
  sg_pool :: "(string, unit) result"
  sg_started :: "libfabric_configuration \<Rightarrow> (dma_error, u8 list) result"
  sg_register :: "usize \<Rightarrow> (dma_error, ptr) result"
  sg_stdin :: "(string, u8 list) result"

definition start_initiator :: "surroundings \<Rightarrow> (dma_error, arguments \<times> string) result" where
  "start_initiator U =
     (case parse_arguments (sg_arguments U) of
        Inl e \<Rightarrow> Inl e
      | Inr a \<Rightarrow>
          (case sg_pool U of
             Inl e \<Rightarrow> Inl (Fabric (''pool: '' @ e))
           | Inr _ \<Rightarrow>
               (case sg_started U (ar_configuration a) of
                  Inl e \<Rightarrow> Inl e
                | Inr address \<Rightarrow> Inr (a, ''local address: '' @ encode_hex address))))"

definition peer_of :: "surroundings \<Rightarrow> arguments \<Rightarrow> (dma_error, advertisement) result" where
  "peer_of U a = (case ar_peer a of Some peer \<Rightarrow> Inr peer | None \<Rightarrow> peer_from_stdin (sg_stdin U))"

text \<open>\<open>one_transfer\<close>: the context owns its payload, and the channel its outcome is sent on.\<close>

record operation =
  on_payload :: vec_u8
  on_done :: nat

definition operation_operands :: "operation operands" where
  "operation_operands = default_operands
     \<lparr>op_source := (\<lambda>c. Some (vec_pointer (on_payload c), word_of_nat (length (vec_bytes (on_payload c)))))\<rparr>"

text \<open>The completion hook: what is sent, and on which channel.\<close>

definition operation_hook :: "operation completion list \<Rightarrow> (nat \<times> (dma_error, transfer_done) result) list" where
  "operation_hook completions = map (\<lambda>c. (on_done (cm_caller_context c), cm_outcome c)) completions"

definition pattern :: u8 where
  "pattern = 0xab"

definition one_transfer :: "surroundings \<Rightarrow> ptr \<Rightarrow> nat \<Rightarrow> (dma_error, operation transfer_request) result" where
  "one_transfer U heap channel =
     (case start_initiator U of
        Inl e \<Rightarrow> Inl e
      | Inr (a, _) \<Rightarrow>
          (case peer_of U a of
             Inl e \<Rightarrow> Inl e
           | Inr peer \<Rightarrow>
               Inr \<lparr>tr_client_id = 1, tr_peer_address = ad_address peer, tr_remote_key = ad_remote_key peer,
                 tr_remote_address = ad_remote_address peer, tr_direction = ToPeer, tr_want_checksum = True,
                 tr_caller_context = \<lparr>on_payload = \<lparr>vec_pointer = heap, vec_bytes = replicate 4096 pattern\<rparr>,
                   on_done = channel\<rparr>\<rparr>))"

definition transferred_line :: "string \<Rightarrow> string \<Rightarrow> transfer_done \<Rightarrow> string" where
  "transferred_line verb what d = verb @ '' '' @ show_usize (td_bytes d) @ what @ '', crc ''
     @ (case td_checksum d of None \<Rightarrow> ''None'' | Some c \<Rightarrow> ''Some('' @ show_nat (unat c) @ '')'')"

text \<open>What it prints at the end; \<open>None\<close> when the channel was dropped.\<close>

fun one_transfer_line :: "(dma_error, transfer_done) result option \<Rightarrow> string" where
  "one_transfer_line (Some (Inr d)) = transferred_line ''wrote'' '' bytes'' d"
| "one_transfer_line (Some (Inl e)) = ''transfer failed: '' @ dma_error_display e"
| "one_transfer_line None = ''worker exited without completing the transfer''"

text \<open>\<open>async_transfer\<close>: the same request with a context that is its payload alone.\<close>

definition async_operands :: "vec_u8 operands" where
  "async_operands = default_operands
     \<lparr>op_source := (\<lambda>v. Some (vec_pointer v, word_of_nat (length (vec_bytes v))))\<rparr>"

definition async_transfer :: "surroundings \<Rightarrow> ptr \<Rightarrow> (dma_error, vec_u8 transfer_request) result" where
  "async_transfer U heap =
     (case start_initiator U of
        Inl e \<Rightarrow> Inl e
      | Inr (a, _) \<Rightarrow>
          (case peer_of U a of
             Inl e \<Rightarrow> Inl e
           | Inr peer \<Rightarrow>
               Inr \<lparr>tr_client_id = 1, tr_peer_address = ad_address peer, tr_remote_key = ad_remote_key peer,
                 tr_remote_address = ad_remote_address peer, tr_direction = ToPeer, tr_want_checksum = True,
                 tr_caller_context = \<lparr>vec_pointer = heap, vec_bytes = replicate 4096 pattern\<rparr>\<rparr>))"

fun async_transfer_line :: "(dma_error, transfer_done) result \<times> vec_u8 \<Rightarrow> string" where
  "async_transfer_line (Inr d, payload) =
     transferred_line ''wrote'' ('' of '' @ show_nat (length (vec_bytes payload)) @ '' bytes'') d"
| "async_transfer_line (Inl e, _) = ''transfer failed: '' @ dma_error_display e"

text \<open>\<open>read_from_peer\<close>: reads into a vector that is empty at first.\<close>

definition read_from_peer :: "surroundings \<Rightarrow> ptr \<Rightarrow> (dma_error, vec_u8 transfer_request) result" where
  "read_from_peer U heap =
     (case start_initiator U of
        Inl e \<Rightarrow> Inl e
      | Inr (a, _) \<Rightarrow>
          (case peer_of U a of
             Inl e \<Rightarrow> Inl e
           | Inr peer \<Rightarrow>
               Inr \<lparr>tr_client_id = 1, tr_peer_address = ad_address peer, tr_remote_key = ad_remote_key peer,
                 tr_remote_address = ad_remote_address peer, tr_direction = FromPeer 4096,
                 tr_want_checksum = True, tr_caller_context = \<lparr>vec_pointer = heap, vec_bytes = []\<rparr>\<rparr>))"

fun read_from_peer_line :: "(dma_error, transfer_done) result \<times> vec_u8 \<Rightarrow> string" where
  "read_from_peer_line (Inr d, payload) =
     transferred_line ''read'' '' bytes'' d @ '', payload ''
       @ (if list_all (\<lambda>b. pattern = b) (vec_bytes payload) then ''verified''
          else ''IS NOT WHAT THE TARGET SERVED'')"
| "read_from_peer_line (Inl e, _) = ''transfer failed: '' @ dma_error_display e"

text \<open>
  \<open>registered_arena\<close>: the context is a part of memory registered before, with a clone of the handle
  that keeps it so. \<open>at + length\<close> wraps as in a release build; a range that ends before it begins has
  no slice.
\<close>

record slot =
  sl_base :: ptr
  sl_size :: usize
  sl_at :: usize
  sl_length :: usize
  sl_done :: nat

definition slot_source :: "slot \<Rightarrow> (ptr \<times> usize) option" where
  "slot_source s =
     (let stop = sl_at s + sl_length s
      in if sl_at s \<le> stop \<and> stop \<le> sl_size s then Some (sl_base s + sl_at s, stop - sl_at s) else None)"

definition slot_operands :: "slot operands" where
  "slot_operands = default_operands\<lparr>op_source := slot_source\<rparr>"

definition SLOT :: usize where
  "SLOT = 4096"

definition registered_arena :: "surroundings \<Rightarrow> nat \<Rightarrow> (dma_error, string \<times> slot transfer_request) result" where
  "registered_arena U channel =
     (case start_initiator U of
        Inl e \<Rightarrow> Inl e
      | Inr (a, _) \<Rightarrow>
          (case sg_register U (64 * SLOT) of
             Inl e \<Rightarrow> Inl e
           | Inr base \<Rightarrow>
               (case peer_of U a of
                  Inl e \<Rightarrow> Inl e
                | Inr peer \<Rightarrow>
                    Inr (''registered '' @ show_usize (64 * SLOT) @ '' bytes'',
                      \<lparr>tr_client_id = 1, tr_peer_address = ad_address peer, tr_remote_key = ad_remote_key peer,
                       tr_remote_address = ad_remote_address peer, tr_direction = ToPeer,
                       tr_want_checksum = True,
                       tr_caller_context = \<lparr>sl_base = base, sl_size = 64 * SLOT, sl_at = SLOT,
                         sl_length = SLOT, sl_done = channel\<rparr>\<rparr>))))"

fun registered_arena_line :: "(dma_error, transfer_done) result option \<Rightarrow> string" where
  "registered_arena_line (Some (Inr d)) = transferred_line ''wrote'' '' bytes from the arena'' d"
| "registered_arena_line (Some (Inl e)) = ''transfer failed: '' @ dma_error_display e"
| "registered_arena_line None = ''the worker exited before the transfer completed''"

text \<open>
  The programs in full. The service is a function of the request: \<open>None\<close> when it did not take it, and
  else what came back. Each ends with an error or with the line it prints.
\<close>

definition submitted :: "('c transfer_request \<Rightarrow> 'o option) \<Rightarrow> 'c transfer_request \<Rightarrow> (dma_error, 'o) result" where
  "submitted service r =
     (case service r of None \<Rightarrow> Inl (Fabric ''fabric worker is gone'') | Some answer \<Rightarrow> Inr answer)"

definition run_initiator ::
  "(dma_error, 'c transfer_request) result \<Rightarrow> ('c transfer_request \<Rightarrow> 'o option) \<Rightarrow> ('o \<Rightarrow> string)
    \<Rightarrow> (dma_error, string) result" where
  "run_initiator prepared service line =
     (case prepared of
        Inl e \<Rightarrow> Inl e
      | Inr r \<Rightarrow> (case submitted service r of Inl e \<Rightarrow> Inl e | Inr answer \<Rightarrow> Inr (line answer)))"

definition one_transfer_main where
  "one_transfer_main U heap channel service = run_initiator (one_transfer U heap channel) service one_transfer_line"

definition async_transfer_main where
  "async_transfer_main U heap service = run_initiator (async_transfer U heap) service async_transfer_line"

definition read_from_peer_main where
  "read_from_peer_main U heap service = run_initiator (read_from_peer U heap) service read_from_peer_line"

definition registered_arena_main where
  "registered_arena_main U channel service =
     run_initiator (map_sum id snd (registered_arena U channel)) service registered_arena_line"

section \<open>The target: \<open>one_target.rs\<close>\<close>

definition BUFFER_LEN :: usize where
  "BUFFER_LEN = 4096"

record target_arguments =
  tn_serve_read :: bool
  tn_use_efa :: bool
  tn_bind :: "string option"
  tn_initiator :: "string option"

definition parse_target_arguments :: "string list \<Rightarrow> target_arguments" where
  "parse_target_arguments args =
     (let flags = filter is_flag args;
          positional = filter (Not \<circ> is_flag) args;
          use_efa = (''--efa'' \<in> set flags);
          (bind, rest) = (if use_efa then (None, positional)
                          else case positional of [] \<Rightarrow> (None, []) | p # ps \<Rightarrow> (Some p, ps))
      in \<lparr>tn_serve_read = (''--read'' \<in> set flags), tn_use_efa = use_efa, tn_bind = bind,
          tn_initiator = (case rest of [] \<Rightarrow> None | i # _ \<Rightarrow> Some i)\<rparr>)"

text \<open>The buffer it offers, prefilled when the initiator is the one that fetches it.\<close>

definition target_buffer :: "target_arguments \<Rightarrow> u8 list" where
  "target_buffer a = replicate (unat BUFFER_LEN) (if tn_serve_read a then pattern else 0)"

text \<open>The three fields it prints; an initiator is given them on its command line or its input.\<close>

definition printed_fields :: "u8 list \<Rightarrow> exposed \<Rightarrow> string list" where
  "printed_fields address ex =
     [encode_hex address, show_nat (unat (ex_remote_key ex)), show_nat (unat (ex_remote_address ex))]"

definition printed_line :: "u8 list \<Rightarrow> exposed \<Rightarrow> string" where
  "printed_line address ex = join '' '' (printed_fields address ex)"

text \<open>\<open>main\<close> up to the loop. Whatever fails drops the target.\<close>

definition start_target ::
  "target_fabric \<Rightarrow> target_arguments \<Rightarrow> ptr \<Rightarrow> setup_log
    \<Rightarrow> (string, target \<times> exposed \<times> u8 list) result \<times> setup_log" where
  "start_target T a pointer l =
     (case target_open T (tn_use_efa a) (tn_bind a) l of
        (Inl e, l1) \<Rightarrow> (Inl e, l1)
      | (Inr t0, l1) \<Rightarrow>
          (case expose T pointer BUFFER_LEN True t0 l1 of
             (Inl e, t, l2) \<Rightarrow> (Inl e, target_drop t l2)
           | (Inr ex, t, l2) \<Rightarrow>
               (case target_address (ta_setup T) t l2 of
                  (Inl e, l3) \<Rightarrow> (Inl e, target_drop t l3)
                | (Inr address, l3) \<Rightarrow>
                    (case tn_initiator a of
                       None \<Rightarrow> (Inr (t, ex, address), l3)
                     | Some i \<Rightarrow>
                         (case decode_hex (string_bytes i) of
                            Inl e \<Rightarrow> (Inl (advertisement_error_display e), target_drop t l3)
                          | Inr bytes \<Rightarrow>
                              (case insert_initiator T bytes t l3 of
                                 (Inl e, l4) \<Rightarrow> (Inl e, target_drop t l4)
                               | (Inr _, l4) \<Rightarrow> (Inr (t, ex, address), l4)))))))"

definition advertisement_line :: "u8 list \<Rightarrow> exposed \<Rightarrow> string" where
  "advertisement_line address ex = ''advertisement: '' @ printed_line address ex"

text \<open>
  The loop, one turn for each pair of a clock reading and the buffer that is then seen. \<open>None\<close> is
  for a loop that is still running when the readings end. The deadline is five minutes.
\<close>

fun wait_loop ::
  "target_fabric \<Rightarrow> target \<Rightarrow> bool \<Rightarrow> nat \<Rightarrow> (nat \<times> u8 list) list \<Rightarrow> setup_log
    \<Rightarrow> (string, unit) result option \<times> setup_log" where
  "wait_loop T t serve_read deadline [] l = (None, l)"
| "wait_loop T t serve_read deadline ((now, buffer) # later) l =
     (if now < deadline then
        (let l1 = progress T t l
         in if serve_read then wait_loop T t serve_read deadline later l1
            else if list_all (\<lambda>b. pattern = b) buffer then (Some (Inr ()), l1)
            else wait_loop T t serve_read deadline later l1)
      else (Some (if serve_read then Inr () else Inl ''timed out waiting for a transfer''), l))"

text \<open>\<open>main\<close>, with the target dropped at its end.\<close>

definition one_target ::
  "target_fabric \<Rightarrow> target_arguments \<Rightarrow> ptr \<Rightarrow> nat \<Rightarrow> (nat \<times> u8 list) list \<Rightarrow> setup_log
    \<Rightarrow> (string, unit) result option \<times> setup_log" where
  "one_target T a pointer started readings l =
     (case start_target T a pointer l of
        (Inl e, l1) \<Rightarrow> (Some (Inl e), l1)
      | (Inr (t, ex, address), l1) \<Rightarrow>
          (case wait_loop T t (tn_serve_read a) (started + 300 * 1000000000) readings l1 of
             (None, l2) \<Rightarrow> (None, l2)
           | (Some r, l2) \<Rightarrow> (Some r, target_drop t l2)))"

section \<open>What is printed is read\<close>

definition graphic :: "u8 \<Rightarrow> bool" where
  "graphic b \<longleftrightarrow> 33 \<le> unat b \<and> unat b \<le> 126"

lemma whitespace_length_graphic: "graphic b \<Longrightarrow> whitespace_length (b # bs) = 0"
  by (auto simp: whitespace_length_def graphic_def Let_def)

lemma whitespace_length_blank: "unat b = 32 \<or> unat b = 10 \<Longrightarrow> whitespace_length (b # bs) = 1"
  by (elim disjE) (simp_all add: whitespace_length_def Let_def)

lemma split_graphic: "graphic b \<Longrightarrow> split_whitespace v (b # bs) = split_whitespace (v @ [b]) bs"
  by (simp add: whitespace_length_graphic)

lemma split_blank:
  "unat b = 32 \<or> unat b = 10 \<Longrightarrow> split_whitespace v (b # bs) = end_word v (split_whitespace [] bs)"
  by (simp add: whitespace_length_blank)

declare split_whitespace.simps(2) [simp del]

lemma split_word: "\<forall>b \<in> set w. graphic b \<Longrightarrow> split_whitespace v (w @ rest) = split_whitespace (v @ w) rest"
  by (induction w arbitrary: v) (simp_all add: split_graphic)

lemma split_line:
  assumes "\<forall>b \<in> set a. graphic b" "\<forall>b \<in> set k. graphic b" "\<forall>b \<in> set r. graphic b"
    and "a \<noteq> []" "k \<noteq> []" "r \<noteq> []" "unat blank = 32" "unat newline = 10"
  shows "split_whitespace [] (a @ blank # k @ blank # r @ [newline]) = [a, k, r]"
  using assms by (simp add: split_word split_blank end_word_def)

lemma to_digit_graphic: "to_digit b \<noteq> None \<Longrightarrow> graphic b"
  by (auto simp: to_digit_def graphic_def Let_def split: if_splits)

lemma encode_hex_graphic: "b \<in> set (string_bytes (encode_hex bs)) \<Longrightarrow> graphic b"
  by (rule to_digit_graphic, rule decode_hex_digits [OF decode_pairs_encode_hex])
    (simp_all add: string_bytes_def)

lemma show_nat_graphic: "b \<in> set (string_bytes (show_nat n)) \<Longrightarrow> graphic b"
  using show_nat_bytes [of b n] by (simp add: graphic_def)

lemma string_bytes_append [simp]: "string_bytes (s @ t) = string_bytes s @ string_bytes t"
  by (simp add: string_bytes_def)

lemma string_bytes_Cons: "string_bytes (c # s) = byte_of_char c # string_bytes s"
  by (simp add: string_bytes_def)

lemma string_bytes_nonempty [simp]: "string_bytes s = [] \<longleftrightarrow> s = []"
  by (simp add: string_bytes_def)

lemma encode_hex_nonempty: "encode_hex bs = [] \<longleftrightarrow> bs = []"
  by (cases bs) simp_all

definition blank :: u8 where "blank = 32"

definition newline :: u8 where "newline = 10"

lemma printed_line_words:
  assumes "address \<noteq> []"
  shows "split_whitespace [] (string_bytes (printed_line address ex) @ [newline])
    = map string_bytes (printed_fields address ex)"
proof -
  have "byte_of_char (CHR '' '') = blank" by (simp add: byte_of_char_def blank_def)
  then show ?thesis
    using split_line [of "string_bytes (encode_hex address)" "string_bytes (show_nat (unat (ex_remote_key ex)))"
        "string_bytes (show_nat (unat (ex_remote_address ex)))" blank newline]
      encode_hex_graphic [of _ address] show_nat_graphic show_nat_nonempty encode_hex_nonempty [of address] assms
    by (simp add: printed_line_def printed_fields_def string_bytes_Cons blank_def newline_def)
qed

definition advertised :: "u8 list \<Rightarrow> exposed \<Rightarrow> advertisement" where
  "advertised address ex = \<lparr>ad_address = address, ad_remote_key = ex_remote_key ex,
     ad_remote_address = ex_remote_address ex\<rparr>"

lemma advertisement_of_printed:
  "advertisement_of (map string_bytes (printed_fields address ex)) = Some (Inr (advertised address ex))"
  using word_nat_bound [of "ex_remote_key ex"] word_nat_bound [of "ex_remote_address ex"]
  by (simp add: advertisement_of_def printed_fields_def from_fields_def decode_hex_encode_hex parse_ascii_show
      advertised_def)

lemma printed_fields_no_flags: "f \<in> set (printed_fields address ex) \<Longrightarrow> \<not> is_flag f"
proof -
  assume "f \<in> set (printed_fields address ex)"
  then have "\<forall>b \<in> set (string_bytes f). to_digit b \<noteq> None \<or> (48 \<le> unat b \<and> unat b \<le> 57)"
    using show_nat_bytes decode_hex_digits [OF decode_pairs_encode_hex, of address]
    by (auto simp: printed_fields_def string_bytes_def)
  then have "CHR ''-'' \<notin> set f"
    by (force simp: string_bytes_def to_digit_def byte_of_char_def)
  then show ?thesis unfolding is_flag_def by (metis in_set_takeD list.set_intros(1))
qed

lemma exposed_registration:
  "expose T pointer len remote_read t l = (Inr ex, t', l') \<Longrightarrow>
     ex_remote_key ex = ta_mr_key T (tg_memory_region t') \<and> tg_attributes t' = tg_attributes t
     \<and> ex_remote_address ex =
         (if inf_mr_mode (tg_attributes t') AND FI_MR_VIRT_ADDR (su_constants (ta_setup T)) \<noteq> 0 then pointer else 0)"
  by (auto simp: expose_def Let_def split: prod.splits sum.splits)

lemma start_target_exposes:
  "start_target T a pointer l = (Inr (t, ex, address), l') \<Longrightarrow>
     \<exists>t0 l1 l2. expose T pointer BUFFER_LEN True t0 l1 = (Inr ex, t, l2)"
  by (auto simp: start_target_def split: prod.splits sum.splits option.splits)

text \<open>The arguments before the fields: the flag of the fabric, or the address to bind.\<close>

definition front :: "bool \<Rightarrow> string \<Rightarrow> string list" where
  "front efa bind = [if efa then ''--efa'' else bind]"

definition parsed :: "bool \<Rightarrow> string \<Rightarrow> advertisement option \<Rightarrow> arguments" where
  "parsed efa bind peer = \<lparr>ar_configuration = default_libfabric\<lparr>lc_providers := [if efa then EfaDirect else Tcp],
     lc_bind := if efa then None else Some bind\<rparr>, ar_peer = peer\<rparr>"

lemma parse_front:
  assumes "\<not> is_flag bind" "\<forall>f \<in> set fs. \<not> is_flag f"
  shows "parse_arguments (front efa bind @ fs) =
    (case advertisement_of (map string_bytes fs) of
       None \<Rightarrow> Inr (parsed efa bind None)
     | Some (Inl e) \<Rightarrow> Inl e
     | Some (Inr peer) \<Rightarrow> Inr (parsed efa bind (Some peer)))"
proof -
  have "filter is_flag fs = []" "filter (Not \<circ> is_flag) fs = fs" "is_flag ''--efa''"
    using assms(2) by (auto simp: filter_empty_conv is_flag_def)
  moreover have "bind \<noteq> ''--efa''" using assms(1) by (auto simp: is_flag_def)
  ultimately show ?thesis using assms(1)
    by (cases efa) (simp_all add: parse_arguments_def front_def parsed_def Let_def split: option.split sum.split)
qed

text \<open>
  C33. What the target prints, the initiators read. When the target is up, an initiator that was given
  its fields, on the command line or as the line it waits for, opens the fabric it was asked for and
  addresses its transfer to the target's address, to the key of the very registration the target
  holds, and to the place of the buffer in it: its address where the provider works with virtual
  addresses, and offset zero elsewhere.
\<close>

theorem printed_advertisement_reaches_the_initiator:
  assumes target: "start_target T a pointer l = (Inr (t, ex, address), l')" "address \<noteq> []"
    and given: "\<not> is_flag bind"
      "sg_arguments U = front efa bind @ printed_fields address ex
       \<or> sg_arguments U = front efa bind \<and> sg_stdin U = Inr (string_bytes (printed_line address ex) @ [newline])"
    and up: "sg_pool U = Inr ()" "\<not> isl (sg_started U (ar_configuration (parsed efa bind None)))"
  shows "\<exists>r. one_transfer U heap channel = Inr r
    \<and> tr_peer_address r = address
    \<and> tr_remote_key r = ta_mr_key T (tg_memory_region t)
    \<and> tr_remote_address r =
        (if inf_mr_mode (tg_attributes t) AND FI_MR_VIRT_ADDR (su_constants (ta_setup T)) \<noteq> 0 then pointer else 0)
    \<and> (\<exists>banner args. start_initiator U = Inr (args, banner) \<and> peer_of U args = Inr (advertised address ex)
         \<and> ar_configuration args = ar_configuration (parsed efa bind None))"
proof -
  have line: "peer_from_stdin (Inr (string_bytes (printed_line address ex) @ [newline])) = Inr (advertised address ex)"
    using printed_line_words [OF target(2)] advertisement_of_printed by (simp add: peer_from_stdin_def)
  have none: "advertisement_of [] = None" by (simp add: advertisement_of_def)
  obtain own where own: "sg_started U (ar_configuration (parsed efa bind None)) = Inr own"
    using up(2) by (cases "sg_started U (ar_configuration (parsed efa bind None))") auto
  have same: "ar_configuration (parsed efa bind p) = ar_configuration (parsed efa bind None)" for p
    by (simp add: parsed_def)
  have peers: "ar_peer (parsed efa bind p) = p" for p by (simp add: parsed_def)
  have "\<exists>p. parse_arguments (sg_arguments U) = Inr (parsed efa bind p) \<and> peer_of U (parsed efa bind p) = Inr (advertised address ex)"
    using given parse_front [OF given(1), of "printed_fields address ex" efa]
      parse_front [OF given(1), of "[]" efa] printed_fields_no_flags advertisement_of_printed line none peers
    by (auto simp: peer_of_def)
  then obtain p where p: "parse_arguments (sg_arguments U) = Inr (parsed efa bind p)"
    "peer_of U (parsed efa bind p) = Inr (advertised address ex)" by blast
  have "start_initiator U = Inr (parsed efa bind p, ''local address: '' @ encode_hex own)"
    using p(1) up(1) own by (simp add: start_initiator_def same [of p])
  then show ?thesis
    using p same [of p] start_target_exposes [OF target(1)] exposed_registration
    by (auto simp: one_transfer_def advertised_def)
qed

definition sample_surroundings :: "string \<Rightarrow> surroundings" where
  "sample_surroundings line = \<lparr>sg_arguments = [''--efa''], sg_pool = Inr (), sg_started = (\<lambda>_. Inr [127, 0, 0, 2]),
     sg_register = (\<lambda>_. Inr 0), sg_stdin = Inr (string_bytes line @ [newline])\<rparr>"

definition sample_target_arguments :: target_arguments where
  "sample_target_arguments = parse_target_arguments [''--efa'']"

lemma sample_target_start:
  "case start_target sample_target_fabric sample_target_arguments 64 [] of
     (Inr (t, ex, address), l') \<Rightarrow> address = [127, 0, 0, 1] | (Inl _, _) \<Rightarrow> False"
  by code_simp

theorem printed_advertisement_reaches_the_initiator_witness:
  "case start_target sample_target_fabric sample_target_arguments 64 [] of
     (Inl _, _) \<Rightarrow> False
   | (Inr (t, ex, address), l') \<Rightarrow>
       (\<exists>r. one_transfer (sample_surroundings (printed_line address ex)) 4096 7 = Inr r
          \<and> tr_peer_address r = [127, 0, 0, 1] \<and> tr_remote_key r = tg_memory_region t + 100)"
proof -
  obtain r l' where run: "start_target sample_target_fabric sample_target_arguments 64 [] = (r, l')"
    by (cases "start_target sample_target_fabric sample_target_arguments 64 []")
  obtain t ex address where r: "r = Inr (t, ex, address)" and address: "address = [127, 0, 0, 1]"
    using sample_target_start run by (cases r) auto
  have start: "start_target sample_target_fabric sample_target_arguments 64 [] = (Inr (t, ex, address), l')"
    using run r by simp
  let ?U = "sample_surroundings (printed_line address ex)"
  have "\<exists>r. one_transfer ?U 4096 7 = Inr r \<and> tr_peer_address r = address
      \<and> tr_remote_key r = ta_mr_key sample_target_fabric (tg_memory_region t)"
    using printed_advertisement_reaches_the_initiator [OF start, where U = ?U and efa = True and bind = "''::1''"
        and heap = 4096 and channel = 7] address
    by (auto simp: sample_surroundings_def front_def is_flag_def)
  then show ?thesis using start address by (simp add: sample_target_fabric_def)
qed

section \<open>The arena\<close>

text \<open>
  The slot of \<open>registered_arena\<close> is inside the memory it registered, so its operand needs no
  registration of its own.
\<close>

lemma registered_slot:
  assumes "registered_arena U channel = Inr (line, r)" "sg_register U (64 * SLOT) = Inr base"
  shows "op_source slot_operands (tr_caller_context r) = Some (base + SLOT, SLOT)"
  using assms
  by (auto simp: registered_arena_def slot_operands_def default_operands_def slot_source_def SLOT_def Let_def
      split: sum.splits)

end
