(* ===== verification/Delivery_Margin.thy ===== *)
theory Delivery_Margin
  imports Vdma_Prelude
begin

text \<open>
  The race that \<open>examples/delivery_margin.rs\<close> measures: an initiator writes a fresh generation number
  into every word of the target's buffer, its completion hook sends that number over tcp, and on
  the target one thread watches the buffer while another stamps the signal and rescans the words.
  This theory is one batch: the four threads (the initiator, the worker that runs its hook, the
  watcher, the one that measures) and the network, as a step relation at the grain of single loads,
  stores, clock readings and messages. Generations and the nanoseconds of the target's clock are
  natural numbers. The lemmas say what a line of the report proves about the network, and what it
  does not.
\<close>

section \<open>The state of a batch\<close>

text \<open>
  \<open>Landing\<close>, with a ghost: whether the watcher found an old word after the stamp it starts from.
\<close>

record landing =
  ln_last_old :: nat
  ln_first_new :: nat
  ln_seen :: bool

text \<open>Where the initiator is in its loop, and what the hook has done for the write that is posted.\<close>

datatype initiator = Preparing nat | Waiting nat | AwaitingAck nat | Finished | Failed

datatype hook = NoWrite | Posted nat | Signalled nat

text \<open>
  Where the watcher is, with its local variables: the deadline, \<open>last_old\<close>, the ghost, the position in
  the probes, and the stamp taken before the load.
\<close>

datatype watcher =
    NextGeneration nat
  | Stamping nat nat
  | Probing nat nat nat bool nat
  | Loading nat nat nat bool nat nat
  | Sending nat "landing option"
  | Watched

datatype abort = ReadFailed | WrongGeneration | WatcherExited | WrongWatch

text \<open>Where \<open>measure\<close> is: the words still to be scanned, and how many were found old.\<close>

datatype measure =
    Reading nat
  | Arriving nat
  | Scanning nat nat nat nat
  | Receiving nat nat nat nat
  | Measured
  | Aborted abort

record report =
  rp_margins :: "int list"
  rp_uncertainties :: "int list"
  rp_stale :: nat
  rp_stale_words :: nat
  rp_lost :: nat

text \<open>
  The batch: its size in words, its first generation and their number do not change. The network is
  the list of the writes on it, oldest first, each with the words that have still to land. Two
  fields are ghosts: every store with its time, and what was measured of each generation.
\<close>

record batch =
  bt_clock :: nat
  bt_words :: "nat list"
  bt_wire :: "(nat \<times> nat list) list"
  bt_initiator :: initiator
  bt_hook :: hook
  bt_returned :: "(nat \<times> bool) list"
  bt_signals :: "nat list"
  bt_acks :: nat
  bt_watcher :: watcher
  bt_visible :: "(nat \<times> landing option) list"
  bt_measure :: measure
  bt_report :: report
  bt_stored :: "(nat \<times> nat \<times> nat) list"
  bt_measured :: "(nat \<times> nat \<times> nat \<times> landing option) list"

record plan =
  pl_first :: nat
  pl_iterations :: nat
  pl_quiesce :: bool

definition last_generation :: "plan \<Rightarrow> nat" where
  "last_generation p = pl_first p + pl_iterations p"

section \<open>The probes\<close>

definition PAGE_WORDS :: nat where
  "PAGE_WORDS = 4096 div 8"

text \<open>The last word of each page, and of what is left behind the last full page.\<close>

definition probes :: "nat \<Rightarrow> nat list" where
  "probes n = map (\<lambda>k. min ((k + 1) * PAGE_WORDS) n - 1) [0..<(n + PAGE_WORDS - 1) div PAGE_WORDS]"

definition LANDING_DEADLINE :: nat where
  "LANDING_DEADLINE = 5 * 1000000000"

section \<open>The watcher\<close>

fun watch_turn :: "plan \<Rightarrow> watcher \<Rightarrow> batch \<Rightarrow> batch" where
  "watch_turn p (NextGeneration g) s =
     s\<lparr>bt_watcher := (if g < last_generation p then Stamping g (bt_clock s + LANDING_DEADLINE) else Watched)\<rparr>"
| "watch_turn p (Stamping g deadline) s = s\<lparr>bt_watcher := Probing g deadline (bt_clock s) False 0\<rparr>"
| "watch_turn p (Probing g deadline old seen c) s =
     s\<lparr>bt_watcher :=
        (if c < length (probes (length (bt_words s))) then Loading g deadline old seen c (bt_clock s)
         else Sending g (Some \<lparr>ln_last_old = old, ln_first_new = bt_clock s, ln_seen = seen\<rparr>))\<rparr>"
| "watch_turn p (Loading g deadline old seen c before) s =
     s\<lparr>bt_watcher :=
        (if g = bt_words s ! (probes (length (bt_words s)) ! c) then Probing g deadline old seen (Suc c)
         else if deadline < before then Sending g None
         else Probing g deadline before True c)\<rparr>"
| "watch_turn p (Sending g landing) s =
     (case bt_measure s of
        Aborted _ \<Rightarrow> s\<lparr>bt_watcher := Watched\<rparr>
      | _ \<Rightarrow> s\<lparr>bt_visible := bt_visible s @ [(g, landing)], bt_watcher := NextGeneration (Suc g)\<rparr>)"
| "watch_turn p Watched s = s"

section \<open>Measuring\<close>

text \<open>\<open>to - from\<close>; the cast of the difference to 64 bits wraps.\<close>

definition signed_nanoseconds :: "nat \<Rightarrow> nat \<Rightarrow> int" where
  "signed_nanoseconds earlier later =
     (if earlier \<le> later then signed_take_bit 63 (int (later - earlier))
      else - signed_take_bit 63 (int (earlier - later)))"

definition no_report :: report where
  "no_report = \<lparr>rp_margins = [], rp_uncertainties = [], rp_stale = 0, rp_stale_words = 0, rp_lost = 0\<rparr>"

definition count_stale :: "nat \<Rightarrow> report \<Rightarrow> report" where
  "count_stale old r =
     (if 0 < old then r\<lparr>rp_stale := rp_stale r + 1, rp_stale_words := rp_stale_words r + old\<rparr> else r)"

fun count_landing :: "nat \<Rightarrow> landing option \<Rightarrow> report \<Rightarrow> report" where
  "count_landing arrived (Some l) r =
     r\<lparr>rp_margins := rp_margins r @ [signed_nanoseconds (ln_last_old l) arrived],
       rp_uncertainties := rp_uncertainties r @ [signed_nanoseconds (ln_last_old l) (ln_first_new l)]\<rparr>"
| "count_landing arrived None r = r\<lparr>rp_lost := rp_lost r + 1\<rparr>"

fun measure_turn :: "plan \<Rightarrow> measure \<Rightarrow> batch \<Rightarrow> batch" where
  "measure_turn p (Reading g) s =
     (if g < last_generation p then
        (case bt_signals s of
           [] \<Rightarrow> if bt_initiator s = Failed then s\<lparr>bt_measure := Aborted ReadFailed\<rparr> else s
         | h # rest \<Rightarrow>
             s\<lparr>bt_signals := rest, bt_measure := (if g = h then Arriving g else Aborted WrongGeneration)\<rparr>)
      else s\<lparr>bt_measure := Measured\<rparr>)"
| "measure_turn p (Arriving g) s = s\<lparr>bt_measure := Scanning g (bt_clock s) (length (bt_words s)) 0\<rparr>"
| "measure_turn p (Scanning g arrived (Suc i) old) s =
     s\<lparr>bt_measure := Scanning g arrived i (if g \<noteq> bt_words s ! i then Suc old else old)\<rparr>"
| "measure_turn p (Scanning g arrived 0 old) s =
     s\<lparr>bt_report := count_stale old (bt_report s), bt_measure := Receiving g arrived old (bt_clock s)\<rparr>"
| "measure_turn p (Receiving g arrived old since) s =
     (case bt_visible s of
        [] \<Rightarrow>
          if bt_watcher s = Watched \<or> since + LANDING_DEADLINE + 1000000000 \<le> bt_clock s
          then s\<lparr>bt_measure := Aborted WatcherExited\<rparr> else s
      | (watched, landing) # rest \<Rightarrow>
          if watched \<noteq> g then s\<lparr>bt_visible := rest, bt_measure := Aborted WrongWatch\<rparr>
          else s\<lparr>bt_visible := rest, bt_report := count_landing arrived landing (bt_report s),
                 bt_acks := Suc (bt_acks s), bt_measure := Reading (Suc g),
                 bt_measured := (g, arrived, old, landing) # bt_measured s\<rparr>)"
| "measure_turn p Measured s = s"
| "measure_turn p (Aborted e) s = s"

section \<open>The initiator and the network\<close>

text \<open>
  A turn of the initiator. It fills its payload with the next generation and submits the write; it
  receives the context back, and stops when the transfer failed; it waits for the acknowledgement, and
  stops when the target gave up and closed the connection.
\<close>

fun gave_up :: "measure \<Rightarrow> bool" where
  "gave_up (Aborted e) = True"
| "gave_up _ = False"

fun initiator_turn :: "plan \<Rightarrow> initiator \<Rightarrow> batch \<Rightarrow> batch" where
  "initiator_turn p (Preparing g) s =
     s\<lparr>bt_wire := bt_wire s @ [(g, [0..<length (bt_words s)])], bt_hook := Posted g, bt_initiator := Waiting g\<rparr>"
| "initiator_turn p (Waiting g) s =
     (case bt_returned s of
        [] \<Rightarrow> s
      | (h, ok) # rest \<Rightarrow> s\<lparr>bt_returned := rest, bt_initiator := (if ok then AwaitingAck h else Failed)\<rparr>)"
| "initiator_turn p (AwaitingAck g) s =
     (case bt_acks s of
        0 \<Rightarrow> if gave_up (bt_measure s) then s\<lparr>bt_initiator := Failed\<rparr> else s
      | Suc k \<Rightarrow> s\<lparr>bt_acks := k,
          bt_initiator := (if Suc g < last_generation p then Preparing (Suc g) else Finished)\<rparr>)"
| "initiator_turn p Finished s = s"
| "initiator_turn p Failed s = s"

text \<open>
  The hook on the worker: it signals the generation, then hands the context back. A write that
  failed is not signalled. Without quiescing a completion says nothing of what has landed.
\<close>

fun hook_turn :: "bool \<Rightarrow> hook \<Rightarrow> batch \<Rightarrow> batch" where
  "hook_turn ok (Posted g) s =
     (if ok then s\<lparr>bt_signals := bt_signals s @ [g], bt_hook := Signalled g\<rparr>
      else s\<lparr>bt_returned := bt_returned s @ [(g, False)], bt_hook := NoWrite\<rparr>)"
| "hook_turn ok (Signalled g) s = s\<lparr>bt_returned := bt_returned s @ [(g, True)], bt_hook := NoWrite\<rparr>"
| "hook_turn ok NoWrite s = s"

definition has_landed :: "nat \<Rightarrow> batch \<Rightarrow> bool" where
  "has_landed g s \<longleftrightarrow> list_all (\<lambda>(h, ws). h = g \<longrightarrow> ws = []) (bt_wire s)"

fun may_complete :: "plan \<Rightarrow> bool \<Rightarrow> batch \<Rightarrow> bool" where
  "may_complete p ok s =
     (case bt_hook s of Posted g \<Rightarrow> (ok \<and> pl_quiesce p \<longrightarrow> has_landed g s) | _ \<Rightarrow> True)"

text \<open>
  A word of a write lands. Words land in any order, within a write and between writes, except that
  no word reverts: an older write of the same word has landed before.
\<close>

definition may_land :: "nat \<Rightarrow> nat \<Rightarrow> batch \<Rightarrow> bool" where
  "may_land k i s \<longleftrightarrow> k < length (bt_wire s) \<and> i \<in> set (snd (bt_wire s ! k))
     \<and> list_all (\<lambda>(h, ws). i \<notin> set ws) (take k (bt_wire s))"

definition land :: "nat \<Rightarrow> nat \<Rightarrow> batch \<Rightarrow> batch" where
  "land k i s =
     (let (g, ws) = bt_wire s ! k
      in s\<lparr>bt_words := (bt_words s)[i := g], bt_wire := (bt_wire s)[k := (g, remove1 i ws)],
           bt_stored := (g, i, bt_clock s) # bt_stored s\<rparr>)"

inductive batch_step :: "plan \<Rightarrow> batch \<Rightarrow> batch \<Rightarrow> bool" for p :: plan where
  step_tick: "batch_step p s (s\<lparr>bt_clock := bt_clock s + d\<rparr>)"
| step_land: "may_land k i s \<Longrightarrow> batch_step p s (land k i s)"
| step_hook: "may_complete p ok s \<Longrightarrow> batch_step p s (hook_turn ok (bt_hook s) s)"
| step_initiator: "batch_step p s (initiator_turn p (bt_initiator s) s)"
| step_watch: "batch_step p s (watch_turn p (bt_watcher s) s)"
| step_measure: "batch_step p s (measure_turn p (bt_measure s) s)"

inductive_cases batch_stepE: "batch_step p s s'"

text \<open>
  A batch begins when the target has read its size and started the watcher: the acknowledgement is
  on its way, and no word has a generation of the batch yet. A watcher that could not be pinned to its
  core exits at once.
\<close>

definition batch_start :: "plan \<Rightarrow> bool \<Rightarrow> nat list \<Rightarrow> nat \<Rightarrow> batch" where
  "batch_start p pinned words now = \<lparr>bt_clock = now, bt_words = words, bt_wire = [],
     bt_initiator = AwaitingAck (pl_first p - 1), bt_hook = NoWrite, bt_returned = [], bt_signals = [],
     bt_acks = 1, bt_watcher = (if pinned then NextGeneration (pl_first p) else Watched), bt_visible = [],
     bt_measure = Reading (pl_first p), bt_report = no_report, bt_stored = [], bt_measured = []\<rparr>"

definition batch_init :: "plan \<Rightarrow> batch \<Rightarrow> bool" where
  "batch_init p s \<longleftrightarrow> (\<exists>pinned words now. s = batch_start p pinned words now \<and> words \<noteq> [] \<and> 0 < pl_first p
     \<and> list_all (\<lambda>w. w < pl_first p) words)"

section \<open>The threads in lockstep\<close>

text \<open>What holds once the generation \<open>g\<close> was signalled: the signal, its measuring, or the acknowledgement.\<close>

fun busy :: "nat \<Rightarrow> measure \<Rightarrow> bool" where
  "busy g (Arriving h) = (h = g)"
| "busy g (Scanning h _ _ _) = (h = g)"
| "busy g (Receiving h _ _ _) = (h = g)"
| "busy g (Aborted e) = (e = WatcherExited)"
| "busy g _ = False"

definition answered :: "plan \<Rightarrow> nat \<Rightarrow> batch \<Rightarrow> bool" where
  "answered p g s \<longleftrightarrow>
     g < last_generation p \<and> bt_signals s = [g] \<and> bt_acks s = 0 \<and> bt_measure s = Reading g
   \<or> g < last_generation p \<and> bt_signals s = [] \<and> bt_acks s = 0 \<and> busy g (bt_measure s)
   \<or> Suc g \<le> last_generation p \<and> bt_signals s = [] \<and> bt_acks s = 1
       \<and> (bt_measure s = Reading (Suc g) \<or> Suc g = last_generation p \<and> bt_measure s = Measured)"

definition unanswered :: "plan \<Rightarrow> nat \<Rightarrow> batch \<Rightarrow> bool" where
  "unanswered p g s \<longleftrightarrow> g < last_generation p \<and> bt_signals s = [] \<and> bt_acks s = 0 \<and> bt_measure s = Reading g"

fun waiting_ok :: "plan \<Rightarrow> nat \<Rightarrow> hook \<Rightarrow> batch \<Rightarrow> bool" where
  "waiting_ok p g (Posted h) s = (h = g \<and> bt_returned s = [] \<and> unanswered p g s)"
| "waiting_ok p g (Signalled h) s = (h = g \<and> bt_returned s = [] \<and> answered p g s)"
| "waiting_ok p g NoWrite s =
     (bt_returned s = [(g, True)] \<and> answered p g s \<or> bt_returned s = [(g, False)] \<and> unanswered p g s)"

fun lock_ok :: "plan \<Rightarrow> initiator \<Rightarrow> batch \<Rightarrow> bool" where
  "lock_ok p (Preparing g) s = (bt_hook s = NoWrite \<and> bt_returned s = [] \<and> unanswered p g s)"
| "lock_ok p (Waiting g) s = (g < last_generation p \<and> waiting_ok p g (bt_hook s) s)"
| "lock_ok p (AwaitingAck g) s = (bt_hook s = NoWrite \<and> bt_returned s = [] \<and> answered p g s)"
| "lock_ok p Finished s =
     (bt_hook s = NoWrite \<and> bt_returned s = [] \<and> bt_signals s = [] \<and> bt_acks s = 0
      \<and> (bt_measure s = Reading (last_generation p) \<or> bt_measure s = Measured))"
| "lock_ok p Failed s =
     (bt_hook s = NoWrite \<and> bt_returned s = [] \<and> bt_signals s = [] \<and> bt_acks s = 0
      \<and> ((\<exists>g < last_generation p. bt_measure s = Reading g) \<or> bt_measure s = Aborted ReadFailed
          \<or> bt_measure s = Aborted WatcherExited))"

text \<open>The generations that are sent to the main thread are those it still expects, in order.\<close>

fun expected :: "plan \<Rightarrow> measure \<Rightarrow> nat option" where
  "expected p (Reading g) = Some g"
| "expected p (Arriving g) = Some g"
| "expected p (Scanning g _ _ _) = Some g"
| "expected p (Receiving g _ _ _) = Some g"
| "expected p Measured = Some (last_generation p)"
| "expected p (Aborted _) = None"

fun watching :: "watcher \<Rightarrow> nat option" where
  "watching (NextGeneration g) = Some g"
| "watching (Stamping g _) = Some g"
| "watching (Probing g _ _ _ _) = Some g"
| "watching (Loading g _ _ _ _ _) = Some g"
| "watching (Sending g _) = Some g"
| "watching Watched = None"

definition sent_ok :: "plan \<Rightarrow> batch \<Rightarrow> bool" where
  "sent_ok p s \<longleftrightarrow>
     (\<forall>e. expected p (bt_measure s) = Some e \<longrightarrow> pl_first p \<le> e
        \<and> map fst (bt_visible s) = [e..<e + length (bt_visible s)]
        \<and> (\<forall>w. watching (bt_watcher s) = Some w \<longrightarrow> w = e + length (bt_visible s)))
   \<and> (\<forall>w. watching (bt_watcher s) = Some w \<longrightarrow> pl_first p \<le> w)"

lemma lock_initiator: "lock_ok p (bt_initiator s) s \<Longrightarrow> lock_ok p (bt_initiator (initiator_turn p (bt_initiator s) s)) (initiator_turn p (bt_initiator s) s)"
  by (cases "bt_initiator s"; cases "bt_hook s"; cases "bt_acks s"; cases "bt_measure s")
    (auto simp: answered_def unanswered_def split: list.splits)

lemma lock_hook: "lock_ok p (bt_initiator s) s \<Longrightarrow> lock_ok p (bt_initiator s) (hook_turn ok (bt_hook s) s)"
  by (cases "bt_initiator s"; cases "bt_hook s") (auto simp: answered_def unanswered_def)

lemma watch_same:
  "bt_clock (watch_turn p w s) = bt_clock s" "bt_words (watch_turn p w s) = bt_words s"
  "bt_wire (watch_turn p w s) = bt_wire s" "bt_initiator (watch_turn p w s) = bt_initiator s"
  "bt_hook (watch_turn p w s) = bt_hook s" "bt_returned (watch_turn p w s) = bt_returned s"
  "bt_signals (watch_turn p w s) = bt_signals s" "bt_acks (watch_turn p w s) = bt_acks s"
  "bt_measure (watch_turn p w s) = bt_measure s" "bt_report (watch_turn p w s) = bt_report s"
  "bt_stored (watch_turn p w s) = bt_stored s" "bt_measured (watch_turn p w s) = bt_measured s"
  by (cases w; auto split: measure.split)+

lemma measure_same:
  "bt_clock (measure_turn p m s) = bt_clock s" "bt_words (measure_turn p m s) = bt_words s"
  "bt_wire (measure_turn p m s) = bt_wire s" "bt_initiator (measure_turn p m s) = bt_initiator s"
  "bt_hook (measure_turn p m s) = bt_hook s" "bt_returned (measure_turn p m s) = bt_returned s"
  "bt_watcher (measure_turn p m s) = bt_watcher s" "bt_stored (measure_turn p m s) = bt_stored s"
  by (induction p m s rule: measure_turn.induct; auto split: list.split)+

lemma answered_cong:
  "bt_signals s' = bt_signals s \<Longrightarrow> bt_acks s' = bt_acks s \<Longrightarrow> bt_measure s' = bt_measure s \<Longrightarrow>
     answered p g s' = answered p g s \<and> unanswered p g s' = unanswered p g s"
  by (simp add: answered_def unanswered_def)

lemma lock_cong:
  assumes "bt_hook s' = bt_hook s" "bt_returned s' = bt_returned s" "bt_signals s' = bt_signals s"
    "bt_acks s' = bt_acks s" "bt_measure s' = bt_measure s"
  shows "lock_ok p i s' = lock_ok p i s"
proof -
  note same = answered_cong [OF assms(3-5)]
  have "waiting_ok p g h s' = waiting_ok p g h s" for g h
    by (cases h) (simp_all add: assms same)
  then show ?thesis by (cases i) (simp_all add: assms same)
qed

text \<open>What a turn of the main thread does to a generation it is measuring.\<close>

lemma unanswered_measure:
  assumes "unanswered p g s"
  shows "unanswered p g (measure_turn p (bt_measure s) s) \<or> bt_initiator s = Failed"
  using assms by (auto simp: unanswered_def split: list.split)

lemma upt_head:
  "map fst vs = [e..<e + length vs] \<Longrightarrow> vs = v # rest \<Longrightarrow>
     fst v = e \<and> map fst rest = [Suc e..<Suc e + length rest]"
  by (simp add: upt_conv_Cons [of e] del: upt_Suc)

lemma sent_head:
  assumes "sent_ok p s" "expected p (bt_measure s) = Some g" "bt_visible s = v # rest"
  shows "fst v = g \<and> map fst rest = [Suc g..<Suc g + length rest]"
proof -
  have "map fst (bt_visible s) = [g..<g + length (bt_visible s)]"
    using assms(1,2) unfolding sent_ok_def by blast
  from upt_head [OF this assms(3)] show ?thesis .
qed

lemma answered_measure:
  assumes "answered p g s" "sent_ok p s" "bt_initiator s \<noteq> Failed"
  shows "answered p g (measure_turn p (bt_measure s) s)"
proof (cases "bt_measure s")
  case (Scanning h arrived i old)
  then show ?thesis using assms(1) by (cases i) (auto simp: answered_def)
next
  case (Receiving h arrived old since)
  then show ?thesis
    using assms(1) sent_head [OF assms(2), of g]
    by (cases "bt_visible s") (auto simp: answered_def)
qed (use assms in \<open>auto simp: answered_def split: list.split\<close>)

lemma lock_measure:
  assumes "lock_ok p (bt_initiator s) s" "sent_ok p s"
  shows "lock_ok p (bt_initiator s) (measure_turn p (bt_measure s) s)"
proof -
  note un = unanswered_measure [of p _ s] and an = answered_measure [OF _ assms(2), of _]
  show ?thesis
  proof (cases "bt_initiator s")
    case (Waiting g)
    then show ?thesis
      using assms un [of g] an [of g] by (cases "bt_hook s") (auto simp: measure_same)
  qed (use assms un an in \<open>auto simp: measure_same split: list.split\<close>)
qed

lemma lock_land: "lock_ok p i (land k j s) = lock_ok p i s"
  by (rule lock_cong) (simp_all add: land_def split: prod.split)

lemma lock_watch: "lock_ok p i (watch_turn p w s) = lock_ok p i s"
  by (rule lock_cong) (simp_all add: watch_same)

section \<open>What is sent\<close>

lemma sent_measure:
  assumes "sent_ok p s" "lock_ok p (bt_initiator s) s"
  shows "sent_ok p (measure_turn p (bt_measure s) s)"
proof (cases "bt_measure s")
  case (Receiving g arrived old since)
  then show ?thesis
    using assms(1) sent_head [OF assms(1), of g]
    by (cases "bt_visible s") (auto simp: sent_ok_def simp del: upt_Suc)
next
  case (Scanning g arrived i old)
  then show ?thesis using assms(1) by (cases i) (auto simp: sent_ok_def)
next
  case (Reading g)
  have "g \<le> last_generation p" using assms(2) Reading
    by (cases "bt_initiator s"; cases "bt_hook s") (auto simp: answered_def unanswered_def)
  then show ?thesis using assms(1) Reading by (auto simp: sent_ok_def split: list.split)
qed (use assms in \<open>auto simp: sent_ok_def\<close>)

lemma sent_watch: "sent_ok p s \<Longrightarrow> sent_ok p (watch_turn p (bt_watcher s) s)"
  by (cases "bt_watcher s"; cases "bt_measure s") (auto simp: sent_ok_def)

lemma sent_cong:
  "bt_measure s' = bt_measure s \<Longrightarrow> bt_visible s' = bt_visible s \<Longrightarrow> bt_watcher s' = bt_watcher s \<Longrightarrow>
     sent_ok p s' = sent_ok p s"
  by (simp add: sent_ok_def)

lemma initiator_same:
  "bt_clock (initiator_turn p i s) = bt_clock s" "bt_words (initiator_turn p i s) = bt_words s"
  "bt_watcher (initiator_turn p i s) = bt_watcher s" "bt_visible (initiator_turn p i s) = bt_visible s"
  "bt_measure (initiator_turn p i s) = bt_measure s" "bt_report (initiator_turn p i s) = bt_report s"
  "bt_stored (initiator_turn p i s) = bt_stored s" "bt_measured (initiator_turn p i s) = bt_measured s"
  by (cases i; auto split: list.split nat.split)+

lemma hook_same:
  "bt_clock (hook_turn ok h s) = bt_clock s" "bt_words (hook_turn ok h s) = bt_words s"
  "bt_wire (hook_turn ok h s) = bt_wire s" "bt_initiator (hook_turn ok h s) = bt_initiator s"
  "bt_watcher (hook_turn ok h s) = bt_watcher s" "bt_visible (hook_turn ok h s) = bt_visible s"
  "bt_measure (hook_turn ok h s) = bt_measure s" "bt_report (hook_turn ok h s) = bt_report s"
  "bt_stored (hook_turn ok h s) = bt_stored s" "bt_measured (hook_turn ok h s) = bt_measured s"
  "bt_acks (hook_turn ok h s) = bt_acks s"
  by (cases h; simp)+

lemma land_same:
  "bt_clock (land k j s) = bt_clock s" "bt_initiator (land k j s) = bt_initiator s"
  "bt_hook (land k j s) = bt_hook s" "bt_returned (land k j s) = bt_returned s"
  "bt_signals (land k j s) = bt_signals s" "bt_acks (land k j s) = bt_acks s"
  "bt_watcher (land k j s) = bt_watcher s" "bt_visible (land k j s) = bt_visible s"
  "bt_measure (land k j s) = bt_measure s" "bt_report (land k j s) = bt_report s"
  "bt_measured (land k j s) = bt_measured s"
  by (simp_all add: land_def split: prod.split)

section \<open>What has landed\<close>

definition generations :: "batch \<Rightarrow> nat set" where
  "generations s = set (bt_words s) \<union> fst ` set (bt_wire s)"

text \<open>No generation is on the way beyond the initiator's, nor beyond the one that is watched for.\<close>

fun initiator_bound :: "initiator \<Rightarrow> nat set \<Rightarrow> bool" where
  "initiator_bound (Preparing g) hs = (\<forall>h \<in> hs. h < g)"
| "initiator_bound (Waiting g) hs = (\<forall>h \<in> hs. h \<le> g)"
| "initiator_bound (AwaitingAck g) hs = (\<forall>h \<in> hs. h \<le> g)"
| "initiator_bound _ hs = True"

definition bound_ok :: "batch \<Rightarrow> bool" where
  "bound_ok s \<longleftrightarrow> initiator_bound (bt_initiator s) (generations s)
     \<and> (\<forall>w. watching (bt_watcher s) = Some w \<longrightarrow> (\<forall>h \<in> generations s. h \<le> w))"

definition write_ok :: "plan \<Rightarrow> batch \<Rightarrow> nat \<times> nat list \<Rightarrow> bool" where
  "write_ok p s = (\<lambda>(h, ws). distinct ws \<and> set ws \<subseteq> {..<length (bt_words s)} \<and> pl_first p \<le> h
     \<and> (\<forall>i \<in> set ws. bt_words s ! i < h) \<and> (\<forall>i < length (bt_words s). i \<notin> set ws \<longrightarrow> h \<le> bt_words s ! i))"

definition stores_ok :: "plan \<Rightarrow> batch \<Rightarrow> bool" where
  "stores_ok p s \<longleftrightarrow>
     (\<forall>g i t. (g, i, t) \<in> set (bt_stored s) \<longrightarrow> t \<le> bt_clock s \<and> i < length (bt_words s) \<and> pl_first p \<le> g \<and> g \<le> bt_words s ! i)
   \<and> (\<forall>i < length (bt_words s). bt_words s ! i < pl_first p \<or> (\<exists>t. (bt_words s ! i, i, t) \<in> set (bt_stored s)))
   \<and> sorted_wrt (<) (map fst (bt_wire s)) \<and> (\<forall>x \<in> set (bt_wire s). write_ok p s x)"

lemma generations_land:
  assumes "may_land k i s"
  shows "generations (land k i s) \<subseteq> generations s"
proof -
  obtain g ws where k: "bt_wire s ! k = (g, ws)" "k < length (bt_wire s)"
    using assms by (cases "bt_wire s ! k") (auto simp: may_land_def)
  then have "(g, ws) \<in> set (bt_wire s)" by (metis nth_mem)
  then have g: "g \<in> fst ` set (bt_wire s)" by force
  have "fst ` set ((bt_wire s)[k := (g, remove1 i ws)]) \<subseteq> insert g (fst ` set (bt_wire s))"
    using image_mono [OF set_update_subset_insert [of "bt_wire s" k "(g, remove1 i ws)"], of fst] by simp
  then show ?thesis
    using g set_update_subset_insert [of "bt_words s" i g] k by (auto simp: generations_def land_def)
qed

lemma bound_subset:
  assumes "bound_ok s" "generations s' \<subseteq> generations s" "bt_initiator s' = bt_initiator s" "bt_watcher s' = bt_watcher s"
  shows "bound_ok s'"
proof -
  have "initiator_bound i (generations s) \<Longrightarrow> initiator_bound i (generations s')" for i
    using assms(2) by (cases i) auto
  then show ?thesis using assms by (auto simp: bound_ok_def)
qed

lemma bound_initiator:
  assumes "bound_ok s" "lock_ok p (bt_initiator s) s" "sent_ok p s"
  shows "bound_ok (initiator_turn p (bt_initiator s) s)"
proof (cases "bt_initiator s")
  case (Preparing g)
  have "bt_measure s = Reading g" using assms(2) Preparing by (simp add: unanswered_def)
  then have "watching (bt_watcher s) = Some w \<Longrightarrow> g \<le> w" for w using assms(3) by (auto simp: sent_ok_def)
  then show ?thesis using assms(1) Preparing by (auto simp: bound_ok_def generations_def order.strict_implies_order)
next
  case (Waiting g)
  have "generations (initiator_turn p (bt_initiator s) s) = generations s"
    using Waiting by (simp add: generations_def split: list.split)
  then show ?thesis
    using assms(1,2) Waiting by (cases "bt_hook s") (auto simp: bound_ok_def)
next
  case (AwaitingAck g)
  have "generations (initiator_turn p (bt_initiator s) s) = generations s"
    using AwaitingAck by (simp add: generations_def split: nat.split)
  then show ?thesis
    using assms(1) AwaitingAck by (auto simp: bound_ok_def less_Suc_eq_le split: nat.split)
qed (use assms in \<open>auto simp: bound_ok_def generations_def\<close>)

lemma bound_watch:
  assumes "bound_ok s"
  shows "bound_ok (watch_turn p (bt_watcher s) s)"
proof -
  have "generations (watch_turn p (bt_watcher s) s) = generations s" by (simp add: generations_def watch_same)
  then show ?thesis
    using assms by (cases "bt_watcher s"; cases "bt_measure s") (auto simp: bound_ok_def watch_same le_SucI)
qed

lemma write_ok_words: "bt_words s' = bt_words s \<Longrightarrow> write_ok p s' x = write_ok p s x"
  by (simp add: write_ok_def split: prod.split)

lemma stores_cong:
  assumes "stores_ok p s" "bt_clock s \<le> bt_clock s'" "bt_words s' = bt_words s" "bt_wire s' = bt_wire s"
    "bt_stored s' = bt_stored s"
  shows "stores_ok p s'"
proof -
  have "t \<le> bt_clock s'" if "(g, i, t) \<in> set (bt_stored s)" for g i t
    using assms(1,2) that unfolding stores_ok_def by (meson order_trans)
  then show ?thesis
    using assms(1) write_ok_words [OF assms(3), of p] by (auto simp: stores_ok_def assms(3-5))
qed

lemma stores_initiator:
  assumes "stores_ok p s" "bound_ok s" "lock_ok p (bt_initiator s) s" "sent_ok p s"
  shows "stores_ok p (initiator_turn p (bt_initiator s) s)"
proof (cases "bt_initiator s")
  case (Preparing g)
  have "bt_measure s = Reading g" using assms(3) Preparing by (simp add: unanswered_def)
  then have "pl_first p \<le> g" using assms(4) by (simp add: sent_ok_def)
  moreover have "\<forall>h \<in> generations s. h < g" using assms(2) Preparing by (simp add: bound_ok_def)
  ultimately show ?thesis
    using assms(1) Preparing
    by (auto simp: stores_ok_def write_ok_def generations_def sorted_wrt_append)
qed (use assms(1) in \<open>auto intro: stores_cong split: list.split nat.split\<close>)

lemma stores_land:
  assumes ok: "stores_ok p s" and may: "may_land k i s"
  shows "stores_ok p (land k i s)"
proof -
  obtain h ws where k: "bt_wire s ! k = (h, ws)" "k < length (bt_wire s)" "i \<in> set ws"
    and before: "\<And>j. j < k \<Longrightarrow> i \<notin> set (snd (bt_wire s ! j))"
  proof
    show "bt_wire s ! k = (fst (bt_wire s ! k), snd (bt_wire s ! k))" by simp
    show "k < length (bt_wire s)" "i \<in> set (snd (bt_wire s ! k))" using may by (simp_all add: may_land_def)
    show "i \<notin> set (snd (bt_wire s ! j))" if "j < k" for j
      using may that by (auto simp: may_land_def list_all_length split_beta)
  qed
  have "write_ok p s (h, ws)" using ok k by (metis nth_mem stores_ok_def)
  then have i: "i < length (bt_words s)" "bt_words s ! i < h" "distinct ws" "pl_first p \<le> h"
    using k(3) by (auto simp: write_ok_def)
  let ?s = "land k i s"
  have s: "bt_words ?s = (bt_words s)[i := h]" "bt_wire ?s = (bt_wire s)[k := (h, remove1 i ws)]"
    "bt_stored ?s = (h, i, bt_clock s) # bt_stored s" "bt_clock ?s = bt_clock s"
    by (simp_all add: land_def k)
  have wire: "sorted_wrt (<) (map fst (bt_wire s))" "\<And>x. x \<in> set (bt_wire s) \<Longrightarrow> write_ok p s x"
    using ok by (simp_all add: stores_ok_def)
  have fsts: "map fst (bt_wire ?s) = map fst (bt_wire s)"
    using k(1,2) by (simp add: s map_update list_update_same_conv)
  have le: "bt_words s ! j \<le> bt_words ?s ! j" for j
    using i(1,2) by (cases "j = i") (auto simp: s)
  have "write_ok p ?s (bt_wire ?s ! j)" if j: "j < length (bt_wire ?s)" for j
  proof (cases "j = k")
    case True
    have "write_ok p s (h, ws)" using wire(2) k(1,2) by (metis nth_mem)
    then show ?thesis using True j i le by (auto simp: s write_ok_def nth_list_update)
  next
    case False
    obtain h' ws' where j': "bt_wire s ! j = (h', ws')" by (cases "bt_wire s ! j")
    have lj: "j < length (bt_wire s)" using j by (simp add: s)
    have ok': "write_ok p s (h', ws')" using wire(2) j' lj by (metis nth_mem)
    have "i \<notin> set ws' \<or> h < h'"
    proof (cases "j < k")
      case True
      then show ?thesis using before [OF True] j' by simp
    next
      case False
      then have "k < j" using \<open>j \<noteq> k\<close> by simp
      then show ?thesis using sorted_wrt_nth_less [OF wire(1), of k j] k j' lj by simp
    qed
    then show ?thesis
      using ok' False j' i le lj by (auto simp: s write_ok_def nth_list_update intro: order_trans)
  qed
  then have "\<forall>x \<in> set (bt_wire ?s). write_ok p ?s x" by (metis in_set_conv_nth)
  moreover have "sorted_wrt (<) (map fst (bt_wire ?s))" using wire(1) fsts by simp
  moreover have "t \<le> bt_clock ?s \<and> j < length (bt_words ?s) \<and> pl_first p \<le> g \<and> g \<le> bt_words ?s ! j"
    if "(g, j, t) \<in> set (bt_stored ?s)" for g j t
    using that ok i le [of j] by (auto simp: s(1,3,4) stores_ok_def intro: order_trans)
  moreover have "bt_words ?s ! j < pl_first p \<or> (\<exists>t. (bt_words ?s ! j, j, t) \<in> set (bt_stored ?s))"
    if "j < length (bt_words ?s)" for j
    using that ok by (cases "j = i") (auto simp: s(1,3) stores_ok_def)
  ultimately show ?thesis by (simp add: stores_ok_def)
qed

section \<open>What is known of a stamp\<close>

definition landed_by :: "batch \<Rightarrow> nat \<Rightarrow> nat \<Rightarrow> nat \<Rightarrow> bool" where
  "landed_by s g i now \<longleftrightarrow> (\<exists>t \<le> now. (g, i, t) \<in> set (bt_stored s))"

definition not_before :: "batch \<Rightarrow> nat \<Rightarrow> nat \<Rightarrow> nat \<Rightarrow> bool" where
  "not_before s g i now \<longleftrightarrow> (\<forall>t. (g, i, t) \<in> set (bt_stored s) \<longrightarrow> now \<le> t)"

definition batch_probes :: "batch \<Rightarrow> nat list" where
  "batch_probes s = probes (length (bt_words s))"

definition seen_ok :: "batch \<Rightarrow> nat \<Rightarrow> nat \<Rightarrow> bool \<Rightarrow> bool" where
  "seen_ok s g old seen \<longleftrightarrow> (seen \<longrightarrow> (\<exists>i \<in> set (batch_probes s). not_before s g i old))"

definition landing_ok :: "batch \<Rightarrow> nat \<Rightarrow> landing \<Rightarrow> bool" where
  "landing_ok s g l \<longleftrightarrow> ln_last_old l \<le> ln_first_new l \<and> ln_first_new l \<le> bt_clock s
     \<and> (\<forall>i \<in> set (batch_probes s). landed_by s g i (ln_first_new l))
     \<and> seen_ok s g (ln_last_old l) (ln_seen l)"

definition found :: "batch \<Rightarrow> nat \<Rightarrow> nat \<Rightarrow> bool" where
  "found s g c \<longleftrightarrow> (\<forall>k < c. landed_by s g (batch_probes s ! k) (bt_clock s))"

fun watcher_ok :: "batch \<Rightarrow> watcher \<Rightarrow> bool" where
  "watcher_ok s (Probing g deadline old seen c) =
     (old \<le> bt_clock s \<and> c \<le> length (batch_probes s) \<and> found s g c \<and> seen_ok s g old seen)"
| "watcher_ok s (Loading g deadline old seen c before) =
     (old \<le> before \<and> before \<le> bt_clock s \<and> c < length (batch_probes s) \<and> found s g c \<and> seen_ok s g old seen)"
| "watcher_ok s (Sending g (Some l)) = landing_ok s g l"
| "watcher_ok s _ = True"

definition late :: "batch \<Rightarrow> nat \<Rightarrow> nat \<Rightarrow> nat \<Rightarrow> bool" where
  "late s g arrived old \<longleftrightarrow> arrived \<le> bt_clock s
     \<and> (0 < old \<longrightarrow> (\<exists>i < length (bt_words s). not_before s g i arrived))"

fun measuring_ok :: "batch \<Rightarrow> measure \<Rightarrow> bool" where
  "measuring_ok s (Scanning g arrived i old) = (late s g arrived old \<and> i \<le> length (bt_words s))"
| "measuring_ok s (Receiving g arrived old since) = late s g arrived old"
| "measuring_ok s _ = True"

definition knowledge_ok :: "batch \<Rightarrow> bool" where
  "knowledge_ok s \<longleftrightarrow> watcher_ok s (bt_watcher s) \<and> measuring_ok s (bt_measure s)
     \<and> (\<forall>g l. (g, Some l) \<in> set (bt_visible s) \<longrightarrow> landing_ok s g l)
     \<and> (\<forall>g arrived old landing. (g, arrived, old, landing) \<in> set (bt_measured s) \<longrightarrow>
          late s g arrived old \<and> (\<forall>l. landing = Some l \<longrightarrow> landing_ok s g l))"

text \<open>Time passes, and what is stored meanwhile is stored then: what is known stays known.\<close>

definition later :: "batch \<Rightarrow> batch \<Rightarrow> bool" where
  "later s s' \<longleftrightarrow> bt_clock s \<le> bt_clock s' \<and> length (bt_words s') = length (bt_words s)
     \<and> set (bt_stored s) \<subseteq> set (bt_stored s')
     \<and> (\<forall>g i t. (g, i, t) \<in> set (bt_stored s') - set (bt_stored s) \<longrightarrow> bt_clock s \<le> t)"

lemma later_probes: "later s s' \<Longrightarrow> batch_probes s' = batch_probes s"
  by (simp add: later_def batch_probes_def)

lemma later_landed: "later s s' \<Longrightarrow> landed_by s g i now \<Longrightarrow> now \<le> now' \<Longrightarrow> landed_by s' g i now'"
  unfolding later_def landed_by_def by (meson order_trans subsetD)

lemma later_not_before: "later s s' \<Longrightarrow> not_before s g i now \<Longrightarrow> now \<le> bt_clock s \<Longrightarrow> not_before s' g i now"
  unfolding later_def not_before_def by (meson DiffI order_trans)

lemma later_seen: "later s s' \<Longrightarrow> seen_ok s g old seen \<Longrightarrow> old \<le> bt_clock s \<Longrightarrow> seen_ok s' g old seen"
  unfolding seen_ok_def using later_not_before later_probes by metis

lemma later_landing: "later s s' \<Longrightarrow> landing_ok s g l \<Longrightarrow> landing_ok s' g l"
  unfolding landing_ok_def
  using later_seen [of s s' g "ln_last_old l" "ln_seen l"] later_landed [of s s' g] later_probes [of s s']
  by (auto simp: later_def intro: order_trans)

lemma later_found: "later s s' \<Longrightarrow> found s g c \<Longrightarrow> found s' g c"
  unfolding found_def using later_landed [of s s' g] later_probes [of s s'] by (auto simp: later_def)

lemma later_late: "later s s' \<Longrightarrow> late s g arrived old \<Longrightarrow> late s' g arrived old"
  unfolding late_def using later_not_before [of s s' g _ arrived] by (auto simp: later_def intro: order_trans)

lemma later_watcher:
  assumes "later s s'" "watcher_ok s w"
  shows "watcher_ok s' w"
proof (cases w)
  case (Sending g landing)
  then show ?thesis using assms later_landing by (cases landing) auto
qed (use assms later_found later_seen later_probes [OF assms(1)] in \<open>auto simp: later_def intro: order_trans\<close>)

lemma later_measuring: "later s s' \<Longrightarrow> measuring_ok s m \<Longrightarrow> measuring_ok s' m"
  using later_late by (cases m) (auto simp: later_def)

lemma knowledge_later:
  assumes "knowledge_ok s" "later s s'" "bt_watcher s' = bt_watcher s" "bt_measure s' = bt_measure s"
    "bt_visible s' = bt_visible s" "bt_measured s' = bt_measured s"
  shows "knowledge_ok s'"
  using assms(1) later_watcher [OF assms(2)] later_measuring [OF assms(2)] later_landing [OF assms(2)]
    later_late [OF assms(2)]
  unfolding knowledge_ok_def assms(3-6) by blast

lemma later_land: "later s (land k i s)"
  by (auto simp: later_def land_def split: prod.split)

lemma later_same: "bt_clock s \<le> bt_clock s' \<Longrightarrow> bt_words s' = bt_words s \<Longrightarrow> bt_stored s' = bt_stored s \<Longrightarrow> later s s'"
  by (simp add: later_def)

lemma probes_in_range: "i \<in> set (probes n) \<Longrightarrow> i < n"
  by (cases n) (auto simp: probes_def PAGE_WORDS_def)

lemma probe_word: "c < length (batch_probes s) \<Longrightarrow> batch_probes s ! c < length (bt_words s)"
  unfolding batch_probes_def by (rule probes_in_range) simp

lemma found_word:
  assumes "stores_ok p s" "i < length (bt_words s)" "bt_words s ! i = g" "pl_first p \<le> g"
  shows "landed_by s g i (bt_clock s)"
  using assms unfolding stores_ok_def landed_by_def by (metis not_less)

lemma old_word:
  assumes "stores_ok p s" "bt_words s ! i \<noteq> g" "bt_words s ! i \<le> g"
  shows "not_before s g i now"
  using assms unfolding stores_ok_def not_before_def by (metis le_antisym)

lemma word_generation: "i < length (bt_words s) \<Longrightarrow> bt_words s ! i \<in> generations s"
  by (simp add: generations_def)

lemma knowledge_watch:
  assumes known: "knowledge_ok s" and stores: "stores_ok p s" and bound: "bound_ok s" and sent: "sent_ok p s"
  shows "knowledge_ok (watch_turn p (bt_watcher s) s)"
proof -
  let ?s = "watch_turn p (bt_watcher s) s"
  have later: "later s ?s" by (rule later_same) (simp_all add: watch_same)
  have rest: "measuring_ok ?s (bt_measure ?s)"
    "\<And>g a old l. (g, a, old, l) \<in> set (bt_measured ?s) \<Longrightarrow> late ?s g a old \<and> (\<forall>x. l = Some x \<longrightarrow> landing_ok ?s g x)"
    "\<And>g l. (g, Some l) \<in> set (bt_visible s) \<Longrightarrow> landing_ok ?s g l"
    using known later_measuring [OF later] later_late [OF later] later_landing [OF later]
    by (auto simp: knowledge_ok_def watch_same)
  have watcher: "watcher_ok s (bt_watcher s)" using known by (simp add: knowledge_ok_def)
  have sent': "bt_visible ?s = bt_visible s \<or> (\<exists>g l. bt_watcher s = Sending g l \<and> bt_visible ?s = bt_visible s @ [(g, l)])"
    by (cases "bt_watcher s"; cases "bt_measure s") auto
  have "(g, Some l) \<in> set (bt_visible ?s) \<Longrightarrow> landing_ok ?s g l" for g l
    using rest(3) sent' watcher later_landing [OF later] by auto
  moreover have "watcher_ok ?s (bt_watcher ?s)"
  proof (cases "bt_watcher s")
    case (Probing g deadline old seen c)
    have "landing_ok s g \<lparr>ln_last_old = old, ln_first_new = bt_clock s, ln_seen = seen\<rparr>" if "length (batch_probes s) \<le> c"
      using watcher Probing that by (auto simp: landing_ok_def found_def in_set_conv_nth)
    then show ?thesis
      using watcher Probing later_watcher [OF later] later_landing [OF later] later_found [OF later] later_seen [OF later]
        later_probes [OF later]
      by (auto simp: batch_probes_def)
  next
    case (Loading g deadline old seen c before)
    let ?i = "batch_probes s ! c"
    have w: "old \<le> before" "before \<le> bt_clock s" "c < length (batch_probes s)" "found s g c" "seen_ok s g old seen"
      using watcher Loading by simp_all
    have i: "?i < length (bt_words s)" by (rule probe_word [OF w(3)])
    have g: "pl_first p \<le> g" "bt_words s ! ?i \<le> g"
      using sent bound word_generation [OF i] Loading by (auto simp: sent_ok_def bound_ok_def)
    have new: "found s g (Suc c)" if "bt_words s ! ?i = g"
      using w(4) found_word [OF stores i that g(1)] by (auto simp: found_def less_Suc_eq)
    have old: "seen_ok s g before True" if "bt_words s ! ?i \<noteq> g"
      using old_word [OF stores that g(2)] nth_mem [OF w(3)] unfolding seen_ok_def by blast
    have "watcher_ok s (bt_watcher ?s)"
      using w new old Loading by (auto simp: batch_probes_def)
    then show ?thesis by (rule later_watcher [OF later])
  next
    case (Sending g landing)
    then show ?thesis by (cases "bt_measure s") auto
  qed (auto simp: found_def seen_ok_def)
  ultimately show ?thesis using rest(1,2) unfolding knowledge_ok_def by blast
qed

lemma scanned_bound:
  assumes "lock_ok p (bt_initiator s) s" "bt_measure s = Scanning g arrived i old" "bound_ok s" "h \<in> generations s"
  shows "h \<le> g"
  using assms by (cases "bt_initiator s"; cases "bt_hook s") (auto simp: bound_ok_def answered_def unanswered_def)

lemma knowledge_measure:
  assumes known: "knowledge_ok s" and stores: "stores_ok p s" and bound: "bound_ok s"
    and lock: "lock_ok p (bt_initiator s) s" and sent: "sent_ok p s"
  shows "knowledge_ok (measure_turn p (bt_measure s) s)"
proof -
  let ?s = "measure_turn p (bt_measure s) s"
  have later: "later s ?s" by (rule later_same) (simp_all add: measure_same)
  have watcher: "watcher_ok ?s (bt_watcher ?s)"
    using known later_watcher [OF later] by (simp add: knowledge_ok_def measure_same)
  have measuring: "measuring_ok s (bt_measure s)" using known by (simp add: knowledge_ok_def)
  have "measuring_ok s (bt_measure ?s)"
  proof (cases "bt_measure s")
    case (Scanning g arrived i old)
    show ?thesis
    proof (cases i)
      case (Suc k)
      have k: "k < length (bt_words s)" using measuring Scanning Suc by simp
      have "bt_words s ! k \<le> g" using scanned_bound [OF lock Scanning bound word_generation [OF k]] .
      then have "bt_words s ! k \<noteq> g \<Longrightarrow> not_before s g k arrived" using old_word [OF stores] by blast
      then show ?thesis using measuring Scanning Suc k by (auto simp: late_def)
    qed (use measuring Scanning in \<open>auto simp: late_def\<close>)
  qed (use measuring in \<open>auto simp: late_def split: list.split\<close>)
  then have "measuring_ok ?s (bt_measure ?s)" by (rule later_measuring [OF later])
  moreover have "set (bt_visible ?s) \<subseteq> set (bt_visible s)"
    by (cases "(p, bt_measure s, s)" rule: measure_turn.cases) (auto split: list.split)
  moreover have "set (bt_measured ?s) \<subseteq> set (bt_measured s) \<union> {(g, arrived, old, landing) |g arrived old landing.
      measuring_ok s (Receiving g arrived old 0) \<and> (g, landing) \<in> set (bt_visible s)}"
    using measuring by (cases "(p, bt_measure s, s)" rule: measure_turn.cases) (auto split: list.split)
  ultimately show ?thesis
    using known watcher later_late [OF later] later_landing [OF later] unfolding knowledge_ok_def by (auto 0 4)
qed

section \<open>The report\<close>

text \<open>The report is a function of what was measured; the staleness of a generation is counted first.\<close>

fun report_of :: "(nat \<times> nat \<times> nat \<times> landing option) list \<Rightarrow> report" where
  "report_of [] = no_report"
| "report_of ((g, arrived, old, landing) # ms) = count_landing arrived landing (count_stale old (report_of ms))"

definition report_ok :: "batch \<Rightarrow> bool" where
  "report_ok s \<longleftrightarrow> bt_report s =
     (case bt_measure s of
        Receiving g arrived old since \<Rightarrow> count_stale old (report_of (bt_measured s))
      | Aborted e \<Rightarrow> bt_report s
      | _ \<Rightarrow> report_of (bt_measured s))"

lemma report_measure: "report_ok s \<Longrightarrow> report_ok (measure_turn p (bt_measure s) s)"
  by (cases "(p, bt_measure s, s)" rule: measure_turn.cases) (auto simp: report_ok_def split: list.split)

lemma report_cong:
  "report_ok s \<Longrightarrow> bt_measure s' = bt_measure s \<Longrightarrow> bt_report s' = bt_report s \<Longrightarrow> bt_measured s' = bt_measured s
     \<Longrightarrow> report_ok s'"
  by (simp add: report_ok_def split: measure.splits)

section \<open>The invariant\<close>

definition batch_inv :: "plan \<Rightarrow> batch \<Rightarrow> bool" where
  "batch_inv p s \<longleftrightarrow> lock_ok p (bt_initiator s) s \<and> sent_ok p s \<and> bound_ok s \<and> stores_ok p s
     \<and> knowledge_ok s \<and> report_ok s \<and> bt_words s \<noteq> []"

lemma batch_inv_init:
  assumes "batch_init p s"
  shows "batch_inv p s"
proof -
  obtain pinned words now where s: "s = batch_start p pinned words now" "words \<noteq> []" "0 < pl_first p"
      "\<forall>w \<in> set words. w < pl_first p"
    using assms by (auto simp: batch_init_def list_all_iff)
  have "\<forall>w \<in> set words. w \<le> pl_first p - 1" using s(3,4) by auto
  then show ?thesis
    using s(2-4)
    by (auto simp: s(1) batch_inv_def batch_start_def answered_def last_generation_def sent_ok_def bound_ok_def
        generations_def stores_ok_def knowledge_ok_def report_ok_def order.strict_implies_order)
qed

lemma batch_inv_step:
  assumes inv: "batch_inv p s" and step: "batch_step p s s'"
  shows "batch_inv p s'"
proof -
  have ok: "lock_ok p (bt_initiator s) s" "sent_ok p s" "bound_ok s" "stores_ok p s" "knowledge_ok s" "report_ok s"
      "bt_words s \<noteq> []"
    using inv by (simp_all add: batch_inv_def)
  from step show ?thesis
  proof cases
    case tick: (step_tick d)
    have "generations s' = generations s" by (simp add: tick generations_def)
    then show ?thesis
      using ok bound_subset [of s s'] stores_cong [of p s s'] knowledge_later [of s s'] later_same [of s s']
        report_cong [of s s'] lock_cong [of s' s p] sent_cong [of s' s p]
      by (simp add: tick batch_inv_def)
  next
    case land: (step_land k i)
    have "knowledge_ok (land k i s)"
      by (rule knowledge_later [OF ok(5) later_land]) (simp_all add: land_same)
    moreover have "bound_ok (land k i s)"
      by (rule bound_subset [OF ok(3) generations_land [OF land(2)]]) (simp_all add: land_same)
    moreover have "bt_words (land k i s) \<noteq> []" using ok(7) by (simp add: land_def split: prod.split)
    ultimately show ?thesis
      using ok stores_land [OF ok(4) land(2)] lock_land [of p _ k i s] sent_cong [of "land k i s" s p]
        report_cong [OF ok(6), of "land k i s"]
      by (simp add: land(1) batch_inv_def land_same)
  next
    case hook: (step_hook ok')
    let ?s = "hook_turn ok' (bt_hook s) s"
    have "bound_ok ?s" by (rule bound_subset [OF ok(3)]) (simp_all add: generations_def hook_same)
    moreover have "stores_ok p ?s" by (rule stores_cong [OF ok(4)]) (simp_all add: hook_same)
    moreover have "knowledge_ok ?s"
      by (rule knowledge_later [OF ok(5) later_same]) (simp_all add: hook_same)
    ultimately show ?thesis
      using ok lock_hook [OF ok(1)] sent_cong [of ?s s p] report_cong [OF ok(6), of ?s]
      by (simp add: hook(1) batch_inv_def hook_same)
  next
    case initiator: step_initiator
    let ?s = "initiator_turn p (bt_initiator s) s"
    have "knowledge_ok ?s"
      by (rule knowledge_later [OF ok(5) later_same]) (simp_all add: initiator_same)
    then show ?thesis
      using ok lock_initiator [OF ok(1)] bound_initiator [OF ok(3,1,2)] stores_initiator [OF ok(4,3,1,2)]
        sent_cong [of ?s s p] report_cong [OF ok(6), of ?s]
      by (simp add: initiator batch_inv_def initiator_same)
  next
    case watch: step_watch
    let ?s = "watch_turn p (bt_watcher s) s"
    have "stores_ok p ?s" by (rule stores_cong [OF ok(4)]) (simp_all add: watch_same)
    then show ?thesis
      using ok lock_watch sent_watch [OF ok(2)] bound_watch [OF ok(3)] knowledge_watch [OF ok(5,4,3,2)]
        report_cong [OF ok(6), of ?s]
      by (simp add: watch batch_inv_def watch_same)
  next
    case measure: step_measure
    let ?s = "measure_turn p (bt_measure s) s"
    have "stores_ok p ?s" by (rule stores_cong [OF ok(4)]) (simp_all add: measure_same)
    moreover have "bound_ok ?s" by (rule bound_subset [OF ok(3)]) (simp_all add: generations_def measure_same)
    ultimately show ?thesis
      using ok lock_measure [OF ok(1,2)] sent_measure [OF ok(2,1)] knowledge_measure [OF ok(5,4,3,1,2)]
        report_measure [OF ok(6)]
      by (simp add: measure batch_inv_def measure_same)
  qed
qed

interpretation margins: step_invariant "batch_init p" "batch_step p" "batch_inv p"
  by unfold_locales (auto intro: batch_inv_init batch_inv_step)

end
