(* ===== verification/Margin_Properties.thy ===== *)
theory Margin_Properties
  imports Delivery_Margin
begin

text \<open>
  What the lines of the report of \<open>delivery_margin.rs\<close> prove. Without quiescing: the threads stay in
  step, a stale word or a negative margin behind an old read is a race, and a negative margin
  without one is not. With quiescing: nothing is stale, and every margin behind an old read is
  positive or zero.
\<close>

section \<open>Quiesced writes\<close>

fun measuring :: "measure \<Rightarrow> nat option" where
  "measuring (Arriving g) = Some g"
| "measuring (Scanning g _ _ _) = Some g"
| "measuring (Receiving g _ _ _) = Some g"
| "measuring _ = None"

text \<open>The generations of which the target has heard.\<close>

definition heard :: "batch \<Rightarrow> nat set" where
  "heard s = set (bt_signals s) \<union> set_option (measuring (bt_measure s))"

definition measured_generations :: "batch \<Rightarrow> nat set" where
  "measured_generations s = fst ` set (bt_measured s)"

definition stored_by :: "batch \<Rightarrow> nat \<Rightarrow> nat \<Rightarrow> bool" where
  "stored_by s g now \<longleftrightarrow> (\<forall>i t. (g, i, t) \<in> set (bt_stored s) \<longrightarrow> t \<le> now)"

definition on_the_way :: "batch \<Rightarrow> nat \<Rightarrow> bool" where
  "on_the_way s h \<longleftrightarrow> (\<exists>ws. (h, ws) \<in> set (bt_wire s) \<and> ws \<noteq> [])"

fun quiet_measure :: "batch \<Rightarrow> measure \<Rightarrow> bool" where
  "quiet_measure s (Scanning g arrived i old) = (old = 0 \<and> i \<le> length (bt_words s) \<and> stored_by s g arrived)"
| "quiet_measure s (Receiving g arrived old since) = (old = 0 \<and> stored_by s g arrived)"
| "quiet_measure s _ = True"

text \<open>
  While the target has not heard of a write it may still be on the way; a write it has heard of has
  landed in every word, before it was heard of.
\<close>

definition quiet_ok :: "plan \<Rightarrow> batch \<Rightarrow> bool" where
  "quiet_ok p s \<longleftrightarrow>
     (\<forall>g \<in> measured_generations s. \<forall>e. expected p (bt_measure s) = Some e \<longrightarrow> g < e)
   \<and> (\<forall>g. bt_hook s = Posted g \<longrightarrow> g \<in> fst ` set (bt_wire s))
   \<and> (\<forall>h. on_the_way s h \<longrightarrow> h \<notin> heard s \<union> measured_generations s
        \<and> (bt_hook s = Posted h \<or> (h, False) \<in> set (bt_returned s) \<or> bt_initiator s = Failed))
   \<and> (\<forall>g \<in> heard s. \<forall>i < length (bt_words s). bt_words s ! i = g)
   \<and> quiet_measure s (bt_measure s)
   \<and> (\<forall>g arrived old landing. (g, arrived, old, landing) \<in> set (bt_measured s) \<longrightarrow> old = 0 \<and> stored_by s g arrived)"

lemma quiet_measure_cong:
  "bt_words s' = bt_words s \<Longrightarrow> bt_stored s' = bt_stored s \<Longrightarrow> quiet_measure s' m = quiet_measure s m"
  by (cases m) (simp_all add: stored_by_def)

lemma stored_by_cong: "bt_stored s' = bt_stored s \<Longrightarrow> stored_by s' g now = stored_by s g now"
  by (simp add: stored_by_def)

lemma on_the_way_cong: "bt_wire s' = bt_wire s \<Longrightarrow> on_the_way s' h = on_the_way s h"
  by (simp add: on_the_way_def)

lemma quiet_cong:
  assumes "quiet_ok p s" "bt_words s' = bt_words s" "bt_wire s' = bt_wire s" "bt_stored s' = bt_stored s"
    "bt_hook s' = bt_hook s" "bt_returned s' = bt_returned s" "bt_initiator s' = bt_initiator s"
    "bt_signals s' = bt_signals s" "bt_measure s' = bt_measure s" "bt_measured s' = bt_measured s"
  shows "quiet_ok p s'"
  using assms(1) quiet_measure_cong [OF assms(2,4)] on_the_way_cong [OF assms(3)] stored_by_cong [OF assms(4)]
  by (simp add: quiet_ok_def heard_def measured_generations_def assms)

lemma quiet_init: "batch_init p s \<Longrightarrow> quiet_ok p s"
  by (auto simp: batch_init_def batch_start_def quiet_ok_def on_the_way_def heard_def measured_generations_def)

text \<open>A write that is on the way keeps the target in the dark.\<close>

lemma unheard:
  assumes "lock_ok p (bt_initiator s) s" "quiet_ok p s" "on_the_way s h"
  shows "heard s = {}"
proof -
  consider "bt_hook s = Posted h" | "(h, False) \<in> set (bt_returned s)" | "bt_initiator s = Failed"
    using assms(2,3) by (auto simp: quiet_ok_def)
  then show ?thesis
    by cases (use assms(1) in \<open>cases "bt_initiator s"; cases "bt_hook s";
      auto simp: heard_def unanswered_def answered_def\<close>)+
qed

lemma quiet_land:
  assumes quiet: "quiet_ok p s" and lock: "lock_ok p (bt_initiator s) s" and may: "may_land k i s"
  shows "quiet_ok p (land k i s)"
proof -
  let ?s = "land k i s"
  obtain h ws where k: "bt_wire s ! k = (h, ws)" "k < length (bt_wire s)" "i \<in> set ws"
    using may by (cases "bt_wire s ! k") (simp add: may_land_def)
  have h: "on_the_way s h" using k nth_mem [OF k(2)] by (auto simp: on_the_way_def)
  have dark: "heard s = {}" by (rule unheard [OF lock quiet h])
  have fresh: "h \<notin> measured_generations s" using quiet h by (simp add: quiet_ok_def)
  have way: "on_the_way s h'" if way: "on_the_way ?s h'" for h'
  proof -
    obtain ws' where "(h', ws') \<in> set ((bt_wire s)[k := (h, remove1 i ws)])" "ws' \<noteq> []"
      using way k by (auto simp: on_the_way_def land_def)
    then show ?thesis
      using set_update_subset_insert [of "bt_wire s" k "(h, remove1 i ws)"] h by (auto simp: on_the_way_def)
  qed
  have "fst ` set ((bt_wire s)[k := (h, remove1 i ws)]) = fst ` set (bt_wire s)"
    using k(1,2) by (metis (no_types, lifting) fst_conv list.set_map list_update_id map_update)
  moreover have "bt_measure s = m \<Longrightarrow> quiet_measure ?s m" for m
    using dark by (cases m) (auto simp: heard_def)
  moreover have "old = 0 \<and> stored_by ?s g arrived" if entry: "(g, arrived, old, landing) \<in> set (bt_measured s)"
    for g arrived old landing
  proof -
    have "g \<noteq> h" using fresh entry by (force simp: measured_generations_def)
    moreover have "old = 0 \<and> stored_by s g arrived" using quiet entry unfolding quiet_ok_def by blast
    ultimately show ?thesis using k by (simp add: stored_by_def land_def)
  qed
  moreover have "heard ?s = heard s" "measured_generations ?s = measured_generations s" "bt_wire ?s = (bt_wire s)[k := (h, remove1 i ws)]"
    using k by (simp_all add: heard_def measured_generations_def land_def)
  ultimately show ?thesis
    using quiet dark way unfolding quiet_ok_def land_same by simp
qed

text \<open>A quiesced write that completes has landed in every word.\<close>

lemma landed_everywhere:
  assumes inv: "batch_inv p s" and quiet: "quiet_ok p s" and hook: "bt_hook s = Posted g" and landed: "has_landed g s"
    and i: "i < length (bt_words s)"
  shows "bt_words s ! i = g"
proof -
  have "g \<in> fst ` set (bt_wire s)" using quiet hook by (simp add: quiet_ok_def)
  then obtain ws where "(g, ws) \<in> set (bt_wire s)" by auto
  then have "write_ok p s (g, [])"
    using inv landed by (auto simp: batch_inv_def stores_ok_def has_landed_def list_all_iff)
  then have "g \<le> bt_words s ! i" using i by (simp add: write_ok_def)
  moreover have "bt_words s ! i \<le> g"
    using inv hook word_generation [OF i]
    by (cases "bt_initiator s") (auto simp: batch_inv_def bound_ok_def)
  ultimately show ?thesis by simp
qed

lemma quiet_hook:
  assumes quiet: "quiet_ok p s" and inv: "batch_inv p s" and may: "may_complete p ok s" and on: "pl_quiesce p"
  shows "quiet_ok p (hook_turn ok (bt_hook s) s)"
proof (cases "bt_hook s")
  case NoWrite
  then show ?thesis using quiet by simp
next
  case (Signalled g)
  let ?s = "hook_turn ok (bt_hook s) s"
  have "bt_initiator s = Waiting g" "bt_returned s = []"
    using inv Signalled by (cases "bt_initiator s"; auto simp: batch_inv_def)+
  moreover have "heard ?s = heard s" "measured_generations ?s = measured_generations s"
    using Signalled by (simp_all add: heard_def measured_generations_def)
  moreover have "quiet_measure ?s m = quiet_measure s m" "stored_by ?s h now = stored_by s h now"
    "on_the_way ?s h = on_the_way s h" for m h now
    by (rule quiet_measure_cong stored_by_cong on_the_way_cong; simp add: hook_same)+
  ultimately show ?thesis
    using quiet Signalled unfolding quiet_ok_def hook_same by simp
next
  case (Posted g)
  let ?s = "hook_turn ok (bt_hook s) s"
  have lock: "bt_initiator s = Waiting g" "bt_returned s = []" "bt_signals s = []" "bt_measure s = Reading g"
    using inv Posted by (cases "bt_initiator s"; auto simp: batch_inv_def unanswered_def)+
  have way: "h = g" if "on_the_way s h" for h
    using quiet that lock Posted by (auto simp: quiet_ok_def)
  have gone: "\<not> on_the_way s h" if ok for h
    using way [of h] may on that Posted by (auto simp: on_the_way_def has_landed_def list_all_iff)
  have words: "bt_words s ! i = g" if ok "i < length (bt_words s)" for i
    using landed_everywhere [OF inv quiet Posted _ that(2)] may on that(1) Posted by simp
  have "heard ?s = (if ok then {g} else {})" "measured_generations ?s = measured_generations s"
    using Posted lock by (simp_all add: heard_def measured_generations_def)
  moreover have "stored_by ?s h now = stored_by s h now" "on_the_way ?s h = on_the_way s h" for h now
    by (rule stored_by_cong on_the_way_cong; simp add: hook_same)+
  ultimately show ?thesis
    using quiet Posted lock way gone words unfolding quiet_ok_def hook_same by (cases ok) auto
qed

lemma quiet_initiator:
  assumes quiet: "quiet_ok p s" and inv: "batch_inv p s"
  shows "quiet_ok p (initiator_turn p (bt_initiator s) s)"
proof (cases "bt_initiator s")
  case (Preparing g)
  let ?s = "initiator_turn p (bt_initiator s) s"
  have lock: "bt_hook s = NoWrite" "bt_returned s = []" "bt_signals s = []" "bt_measure s = Reading g"
    using inv Preparing by (simp_all add: batch_inv_def unanswered_def)
  have "h = g" if "on_the_way ?s h" for h
    using quiet that lock Preparing by (auto simp: quiet_ok_def on_the_way_def)
  moreover have "heard ?s = {}" "measured_generations ?s = measured_generations s"
    using Preparing lock by (simp_all add: heard_def measured_generations_def)
  moreover have "g \<notin> measured_generations s" using quiet lock by (auto simp: quiet_ok_def)
  moreover have "stored_by ?s h now = stored_by s h now" for h now
    by (rule stored_by_cong) (simp add: initiator_same)
  ultimately show ?thesis
    using quiet Preparing lock unfolding quiet_ok_def initiator_same by auto
next
  case (Waiting g)
  let ?s = "initiator_turn p (bt_initiator s) s"
  show ?thesis
  proof (cases "bt_returned s")
    case Nil
    then show ?thesis using quiet Waiting by simp
  next
    case (Cons r rest)
    have lock: "bt_hook s = NoWrite" "r = (g, True) \<or> r = (g, False)" "rest = []"
      using inv Waiting Cons by (cases "bt_hook s"; auto simp: batch_inv_def)+
    moreover have "heard ?s = heard s" "measured_generations ?s = measured_generations s"
      using Waiting Cons by (auto simp: heard_def measured_generations_def split: prod.split)
    moreover have "quiet_measure ?s m = quiet_measure s m" "stored_by ?s h now = stored_by s h now"
      "on_the_way ?s h = on_the_way s h" for m h now
      using Waiting Cons by (auto intro!: quiet_measure_cong stored_by_cong on_the_way_cong split: prod.split)
    ultimately show ?thesis
      using quiet Waiting Cons unfolding quiet_ok_def initiator_same by auto
  qed
next
  case (AwaitingAck g)
  have "bt_hook s = NoWrite" "bt_returned s = []" using inv AwaitingAck by (simp_all add: batch_inv_def)
  then have calm: "\<not> on_the_way s h" for h using quiet AwaitingAck by (auto simp: quiet_ok_def)
  let ?s = "initiator_turn p (bt_initiator s) s"
  have same: "bt_hook ?s = bt_hook s" "bt_wire ?s = bt_wire s" "heard ?s = heard s"
    "measured_generations ?s = measured_generations s"
    using AwaitingAck by (simp_all add: heard_def measured_generations_def split: nat.split)
  have "quiet_measure ?s m = quiet_measure s m" "stored_by ?s h now = stored_by s h now"
    "on_the_way ?s h = on_the_way s h" for m h now
    by (rule quiet_measure_cong stored_by_cong on_the_way_cong; simp add: initiator_same same)+
  then show ?thesis
    using quiet calm unfolding quiet_ok_def initiator_same same by simp
qed (use quiet in simp_all)

lemma quiet_turn:
  assumes quiet: "quiet_ok p s" and inv: "batch_inv p s"
  shows "quiet_ok p (measure_turn p (bt_measure s) s)"
proof -
  let ?s = "measure_turn p (bt_measure s) s"
  have same: "quiet_measure ?s m = quiet_measure s m" "stored_by ?s h now = stored_by s h now"
    "on_the_way ?s h = on_the_way s h" for m h now
    by (rule quiet_measure_cong stored_by_cong on_the_way_cong; simp add: measure_same)+
  have lock: "lock_ok p (bt_initiator s) s" using inv by (simp add: batch_inv_def)
  have stores: "stored_by s g (bt_clock s)" for g
    using inv by (auto simp: batch_inv_def stores_ok_def stored_by_def)
  have old: "quiet_measure s (bt_measure s)" using quiet by (simp add: quiet_ok_def)
  have words: "g = bt_words s ! i" if "g \<in> heard s" "i < length (bt_words s)" for g i
    using quiet that by (simp add: quiet_ok_def)
  have limit: "g \<le> last_generation p" if "bt_measure s = Reading g" for g
    using lock that by (cases "bt_initiator s"; cases "bt_hook s") (auto simp: answered_def unanswered_def)
  have heard: "heard ?s \<subseteq> heard s"
    by (cases "(p, bt_measure s, s)" rule: measure_turn.cases) (auto simp: heard_def split: list.split)
  have measured: "measured_generations ?s \<subseteq> measured_generations s \<union> heard s"
    by (cases "(p, bt_measure s, s)" rule: measure_turn.cases)
      (auto simp: heard_def measured_generations_def split: list.split)
  have before: "g < e" if "g \<in> measured_generations s" "expected p (bt_measure s) = Some e" for g e
    using quiet that by (simp add: quiet_ok_def)
  have "g < e" if g: "g \<in> measured_generations ?s" and e: "expected p (bt_measure ?s) = Some e" for g e
  proof (cases "bt_measure s")
    case (Reading h)
    then have "measured_generations ?s = measured_generations s"
      by (auto simp: measured_generations_def split: list.split)
    then show ?thesis
      using before [of g h] g e limit [OF Reading] Reading by (auto split: list.splits if_splits)
  next
    case (Scanning h arrived i old)
    then show ?thesis using before [of g h] g e by (cases i) (auto simp: measured_generations_def)
  next
    case (Receiving h arrived old since)
    have "measured_generations ?s \<subseteq> insert h (measured_generations s)"
      using Receiving by (auto simp: measured_generations_def split: list.split)
    then have "g = h \<or> g < h" using before [of g h] g Receiving by auto
    moreover have "e = Suc h \<or> ?s = s" using e Receiving by (auto split: list.splits if_splits)
    ultimately show ?thesis using before [of g e] g e by auto
  qed (use before [of g e] g e in \<open>auto simp: measured_generations_def\<close>)
  then have "\<forall>g \<in> measured_generations ?s. \<forall>e. expected p (bt_measure ?s) = Some e \<longrightarrow> g < e" by blast
  moreover have "quiet_measure s (bt_measure ?s)"
    using old words stores
    by (cases "(p, bt_measure s, s)" rule: measure_turn.cases) (auto simp: heard_def split: list.split)
  moreover have "old = 0 \<and> stored_by s g arrived" if "(g, arrived, old, landing) \<in> set (bt_measured ?s)"
    for g arrived old landing
  proof -
    have "(g, arrived, old, landing) \<in> set (bt_measured s) \<or> quiet_measure s (Receiving g arrived old 0)"
      using old that by (cases "(p, bt_measure s, s)" rule: measure_turn.cases) (auto split: list.splits if_splits)
    moreover have "(g, arrived, old, landing) \<in> set (bt_measured s) \<Longrightarrow> old = 0 \<and> stored_by s g arrived"
      using quiet unfolding quiet_ok_def by blast
    ultimately show ?thesis by auto
  qed
  ultimately show ?thesis
    using quiet heard measured unfolding quiet_ok_def measure_same same by blast
qed

definition quiesced_inv :: "plan \<Rightarrow> batch \<Rightarrow> bool" where
  "quiesced_inv p s \<longleftrightarrow> batch_inv p s \<and> (pl_quiesce p \<longrightarrow> quiet_ok p s)"

lemma quiesced_init: "batch_init p s \<Longrightarrow> quiesced_inv p s"
  by (simp add: quiesced_inv_def batch_inv_init quiet_init)

lemma quiesced_step:
  assumes inv: "quiesced_inv p s" and step: "batch_step p s s'"
  shows "quiesced_inv p s'"
proof -
  have ok: "batch_inv p s" "batch_inv p s'" using inv batch_inv_step [OF _ step] by (auto simp: quiesced_inv_def)
  have "quiet_ok p s'" if on: "pl_quiesce p"
  proof -
    have quiet: "quiet_ok p s" using inv on by (simp add: quiesced_inv_def)
    from step show ?thesis
    proof cases
      case tick: (step_tick d)
      then show ?thesis by (simp add: quiet_cong [OF quiet])
    next
      case land: (step_land k i)
      then show ?thesis using quiet_land [OF quiet _ land(2)] ok(1) by (simp add: batch_inv_def)
    next
      case hook: (step_hook ok')
      show ?thesis using quiet_hook [OF quiet ok(1) hook(2) on] hook(1) by simp
    next
      case initiator: step_initiator
      then show ?thesis using quiet_initiator [OF quiet ok(1)] by simp
    next
      case watch: step_watch
      show ?thesis unfolding watch by (rule quiet_cong [OF quiet]) (simp_all add: watch_same)
    next
      case measure: step_measure
      then show ?thesis using quiet_turn [OF quiet ok(1)] by simp
    qed
  qed
  then show ?thesis using ok by (simp add: quiesced_inv_def)
qed

interpretation quiesced: step_invariant "batch_init p" "batch_step p" "quiesced_inv p"
  by unfold_locales (auto intro: quiesced_init quiesced_step)

section \<open>Schedules\<close>

text \<open>A schedule names the steps of a run; the samples below are states that schedules lead to.\<close>

datatype move = Tick nat | Land nat nat | Hook bool | Initiate | Watch | Measure

fun make_move :: "plan \<Rightarrow> move \<Rightarrow> batch \<Rightarrow> batch" where
  "make_move p (Tick d) s = s\<lparr>bt_clock := bt_clock s + d\<rparr>"
| "make_move p (Land k i) s = (if may_land k i s then land k i s else s)"
| "make_move p (Hook ok) s = (if may_complete p ok s then hook_turn ok (bt_hook s) s else s)"
| "make_move p Initiate s = initiator_turn p (bt_initiator s) s"
| "make_move p Watch s = watch_turn p (bt_watcher s) s"
| "make_move p Measure s = measure_turn p (bt_measure s) s"

lemma make_move_reachable:
  "reachable (batch_init p) (batch_step p) s \<Longrightarrow> reachable (batch_init p) (batch_step p) (make_move p m s)"
  by (cases m) (auto intro: reach_step batch_step.intros simp del: may_complete.simps)

lemma schedule_reachable:
  "reachable (batch_init p) (batch_step p) s \<Longrightarrow> reachable (batch_init p) (batch_step p) (fold (make_move p) ms s)"
  by (induction ms arbitrary: s) (auto intro: make_move_reachable)

definition one_generation :: "bool \<Rightarrow> plan" where
  "one_generation quiesce = \<lparr>pl_first = 1, pl_iterations = 1, pl_quiesce = quiesce\<rparr>"

definition one_word :: "bool \<Rightarrow> batch" where
  "one_word quiesce = batch_start (one_generation quiesce) True [0] 0"

lemma one_word_reachable:
  "reachable (batch_init (one_generation quiesce)) (batch_step (one_generation quiesce)) (one_word quiesce)"
  unfolding one_word_def
  by (rule reach_init, unfold batch_init_def, intro exI conjI, rule refl) (simp_all add: one_generation_def)

text \<open>The write completes before it lands, and the watcher finds the old word after the signal.\<close>

definition sample_race :: batch where
  "sample_race = fold (make_move (one_generation False))
     [Watch, Watch, Initiate, Initiate, Tick 1, Hook True, Measure, Measure, Measure, Measure, Tick 2, Watch, Watch,
      Tick 1, Land 0 0, Watch, Watch, Watch, Watch, Measure] (one_word False)"

text \<open>The write is quiesced and lands at once, but the watcher is not scheduled until the signal is in.\<close>

definition late_watch :: batch where
  "late_watch = fold (make_move (one_generation True))
     [Initiate, Initiate, Tick 1, Land 0 0, Hook True, Measure, Measure, Measure, Measure, Tick 5, Watch, Watch, Watch,
      Watch, Watch, Watch, Measure] (one_word True)"

text \<open>A quiesced write that the watcher sees landing.\<close>

definition seen_landing :: batch where
  "seen_landing = fold (make_move (one_generation True))
     [Watch, Watch, Initiate, Initiate, Watch, Watch, Tick 1, Land 0 0, Hook True, Tick 2, Measure, Measure, Measure,
      Measure, Watch, Watch, Watch, Watch, Measure] (one_word True)"

lemma sample_race_state:
  "bt_report sample_race = \<lparr>rp_margins = [- 2], rp_uncertainties = [1], rp_stale = 1, rp_stale_words = 1, rp_lost = 0\<rparr>"
  "bt_measured sample_race = [(1, 1, 1, Some \<lparr>ln_last_old = 3, ln_first_new = 4, ln_seen = True\<rparr>)]"
  "bt_words sample_race = [1]" "bt_stored sample_race = [(1, 0, 4)]"
  by (simp_all add: sample_race_def one_word_def one_generation_def batch_start_def last_generation_def
      may_land_def land_def probes_def PAGE_WORDS_def LANDING_DEADLINE_def signed_nanoseconds_def
      count_stale_def no_report_def)

lemma late_watch_state:
  "bt_report late_watch = \<lparr>rp_margins = [- 5], rp_uncertainties = [0], rp_stale = 0, rp_stale_words = 0, rp_lost = 0\<rparr>"
  "bt_measured late_watch = [(1, 1, 0, Some \<lparr>ln_last_old = 6, ln_first_new = 6, ln_seen = False\<rparr>)]"
  "bt_stored late_watch = [(1, 0, 1)]"
  by (simp_all add: late_watch_def one_word_def one_generation_def batch_start_def last_generation_def
      may_land_def land_def has_landed_def probes_def PAGE_WORDS_def LANDING_DEADLINE_def signed_nanoseconds_def
      count_stale_def no_report_def)

lemma seen_landing_state:
  "bt_measured seen_landing = [(1, 3, 0, Some \<lparr>ln_last_old = 0, ln_first_new = 3, ln_seen = True\<rparr>)]"
  "bt_measure seen_landing = Reading 2" "bt_clock seen_landing = 3"
  by (simp_all add: seen_landing_def one_word_def one_generation_def batch_start_def last_generation_def
      may_land_def land_def has_landed_def probes_def PAGE_WORDS_def LANDING_DEADLINE_def signed_nanoseconds_def
      count_stale_def no_report_def)

section \<open>What the report proves\<close>

text \<open>The part of the report that stands for a generation that was measured.\<close>

definition race_seen :: "batch \<Rightarrow> nat \<Rightarrow> nat \<Rightarrow> bool" where
  "race_seen s g arrived \<longleftrightarrow>
     (\<exists>i \<in> set (probes (length (bt_words s))). \<exists>t. (g, i, t) \<in> set (bt_stored s) \<and> arrived < t)"

definition bracketed :: "batch \<Rightarrow> nat \<Rightarrow> landing \<Rightarrow> bool" where
  "bracketed s g l \<longleftrightarrow> ln_last_old l \<le> ln_first_new l
     \<and> (\<forall>i \<in> set (probes (length (bt_words s))). \<exists>t \<le> ln_first_new l. (g, i, t) \<in> set (bt_stored s))"

lemma landing_race:
  assumes "landing_ok s g l" "ln_seen l" "arrived < ln_last_old l"
  shows "race_seen s g arrived"
proof -
  obtain i where i: "i \<in> set (batch_probes s)" "not_before s g i (ln_last_old l)"
    using assms(1,2) by (auto simp: landing_ok_def seen_ok_def)
  then obtain t where t: "(g, i, t) \<in> set (bt_stored s)"
    using assms(1) by (auto simp: landing_ok_def landed_by_def)
  then have "arrived < t" using i(2) assms(3) by (auto simp: not_before_def)
  then show ?thesis using i(1) t by (auto simp: race_seen_def batch_probes_def)
qed

text \<open>
  C34. What a report proves. The three threads stay in step: the target never reads a generation out of
  turn, and nothing newer than what the watcher waits for ever lands, so it is never overrun. The
  report counts exactly what was measured. When words were found old after the signal, one of them
  had not landed before the signal arrived; when the margin is negative and the watcher had found an
  old word after its first stamp, a word landed after the signal had arrived; and every page had
  landed by the second stamp.
\<close>

theorem report_lines_are_races:
  assumes "reachable (batch_init p) (batch_step p) s"
  shows "bt_measure s \<noteq> Aborted WrongGeneration \<and> bt_measure s \<noteq> Aborted WrongWatch
    \<and> (\<forall>g. watching (bt_watcher s) = Some g \<longrightarrow> (\<forall>h \<in> set (bt_words s). h \<le> g))
    \<and> (bt_measure s = Measured \<longrightarrow> bt_report s = report_of (bt_measured s))
    \<and> (\<forall>g arrived old. (\<exists>landing. (g, arrived, old, landing) \<in> set (bt_measured s)) \<and> 0 < old \<longrightarrow>
         (\<exists>i < length (bt_words s). \<forall>t. (g, i, t) \<in> set (bt_stored s) \<longrightarrow> arrived \<le> t))
    \<and> (\<forall>g arrived old l. (g, arrived, old, Some l) \<in> set (bt_measured s) \<longrightarrow>
         bracketed s g l \<and> (ln_seen l \<and> arrived < ln_last_old l \<longrightarrow> race_seen s g arrived))"
proof -
  have inv: "batch_inv p s" by (rule margins.reachable_inv [OF assms])
  then have lock: "lock_ok p (bt_initiator s) s" and bound: "bound_ok s" and known: "knowledge_ok s"
    and report: "report_ok s" by (simp_all add: batch_inv_def)
  have "bt_measure s \<noteq> Aborted WrongGeneration \<and> bt_measure s \<noteq> Aborted WrongWatch"
    using lock by (cases "bt_initiator s"; cases "bt_hook s") (auto simp: answered_def unanswered_def)
  moreover have "h \<le> g" if "watching (bt_watcher s) = Some g" "h \<in> set (bt_words s)" for g h
    using bound that by (simp add: bound_ok_def generations_def)
  moreover have "bt_measure s = Measured \<Longrightarrow> bt_report s = report_of (bt_measured s)"
    using report by (simp add: report_ok_def)
  moreover have "\<exists>i < length (bt_words s). \<forall>t. (g, i, t) \<in> set (bt_stored s) \<longrightarrow> arrived \<le> t"
    if "(g, arrived, old, landing) \<in> set (bt_measured s)" "0 < old" for g arrived old landing
    using known that unfolding knowledge_ok_def late_def not_before_def by blast
  moreover have "bracketed s g l \<and> (ln_seen l \<and> arrived < ln_last_old l \<longrightarrow> race_seen s g arrived)"
    if "(g, arrived, old, Some l) \<in> set (bt_measured s)" for g arrived old l
  proof -
    have "landing_ok s g l" using known that unfolding knowledge_ok_def by blast
    then show ?thesis
      using landing_race [of s g l arrived]
      by (auto simp: bracketed_def landing_ok_def landed_by_def batch_probes_def)
  qed
  ultimately show ?thesis by blast
qed

lemma sample_race_reachable:
  "reachable (batch_init (one_generation False)) (batch_step (one_generation False)) sample_race"
  unfolding sample_race_def by (rule schedule_reachable [OF one_word_reachable])

theorem report_lines_are_races_witness:
  "rp_margins (bt_report sample_race) = [- 2] \<and> rp_stale (bt_report sample_race) = 1
   \<and> race_seen sample_race 1 1"
proof -
  have "\<forall>g arrived old l. (g, arrived, old, Some l) \<in> set (bt_measured sample_race) \<longrightarrow>
      bracketed sample_race g l \<and> (ln_seen l \<and> arrived < ln_last_old l \<longrightarrow> race_seen sample_race g arrived)"
    using report_lines_are_races [OF sample_race_reachable] by blast
  from spec [OF spec [OF spec [OF spec [OF this, of 1], of 1], of 1], of "\<lparr>ln_last_old = 3, ln_first_new = 4, ln_seen = True\<rparr>"]
  show ?thesis by (simp add: sample_race_state)
qed

lemma report_of_quiet:
  "(\<And>g arrived old landing. (g, arrived, old, landing) \<in> set ms \<Longrightarrow> old = 0) \<Longrightarrow>
     rp_stale (report_of ms) = 0 \<and> rp_stale_words (report_of ms) = 0"
proof (induction ms)
  case (Cons m ms)
  obtain g arrived old landing where m: "m = (g, arrived, old, landing)" by (metis prod_cases4)
  have "old = 0" using Cons.prems [of g arrived old landing] by (simp add: m)
  then show ?case
    using Cons.IH Cons.prems by (cases landing) (fastforce simp: m count_stale_def)+
qed (simp add: no_report_def)

text \<open>
  C35. With quiescing there is nothing to report: a batch whose writes are quiesced, however its threads
  and the network are scheduled, counts no stale iteration and no stale word, and every margin whose
  start is an old read is positive or zero (as long as the clock fits 63 bits).
\<close>

theorem quiesced_writes_never_race:
  assumes "reachable (batch_init p) (batch_step p) s" "pl_quiesce p" "bt_clock s < 2 ^ 63"
  shows "(bt_measure s = Measured \<longrightarrow> rp_stale (bt_report s) = 0 \<and> rp_stale_words (bt_report s) = 0)
    \<and> (\<forall>g arrived old l. (g, arrived, old, Some l) \<in> set (bt_measured s) \<and> ln_seen l \<longrightarrow>
         0 \<le> signed_nanoseconds (ln_last_old l) arrived)"
proof -
  have inv: "batch_inv p s" and quiet: "quiet_ok p s"
    using quiesced.reachable_inv [OF assms(1)] assms(2) by (simp_all add: quiesced_inv_def)
  have entry: "old = 0 \<and> stored_by s g arrived" if "(g, arrived, old, landing) \<in> set (bt_measured s)"
    for g arrived old landing
    using quiet that unfolding quiet_ok_def by blast
  have "rp_stale (bt_report s) = 0 \<and> rp_stale_words (bt_report s) = 0" if "bt_measure s = Measured"
    using inv that report_of_quiet [of "bt_measured s"] entry by (simp add: batch_inv_def report_ok_def)
  moreover have "0 \<le> signed_nanoseconds (ln_last_old l) arrived"
    if l: "(g, arrived, old, Some l) \<in> set (bt_measured s)" "ln_seen l" for g arrived old l
  proof -
    have ok: "landing_ok s g l" "late s g arrived old"
      using inv l(1) unfolding batch_inv_def knowledge_ok_def by blast+
    then have "\<not> arrived < ln_last_old l"
      using landing_race [OF ok(1) l(2), of arrived] entry [OF l(1)] by (force simp: race_seen_def stored_by_def)
    moreover have "arrived < 2 ^ 63" using ok(2) assms(3) by (simp add: late_def)
    ultimately show ?thesis
      by (simp add: signed_nanoseconds_def signed_take_bit_int_eq_self)
  qed
  ultimately show ?thesis by blast
qed

lemma seen_landing_reachable:
  "reachable (batch_init (one_generation True)) (batch_step (one_generation True)) seen_landing"
  unfolding seen_landing_def by (rule schedule_reachable [OF one_word_reachable])

theorem quiesced_writes_never_race_witness: "0 \<le> signed_nanoseconds 0 3 \<and> bt_measured seen_landing \<noteq> []"
proof -
  have "pl_quiesce (one_generation True)" "bt_clock seen_landing < 2 ^ 63"
    by (simp_all add: one_generation_def seen_landing_state)
  from quiesced_writes_never_race [OF seen_landing_reachable this]
  have "\<forall>g arrived old l. (g, arrived, old, Some l) \<in> set (bt_measured seen_landing) \<and> ln_seen l \<longrightarrow>
      0 \<le> signed_nanoseconds (ln_last_old l) arrived" by (rule conjunct2)
  from spec [OF spec [OF spec [OF spec [OF this, of 1], of 3], of 0], of "\<lparr>ln_last_old = 0, ln_first_new = 3, ln_seen = True\<rparr>"]
  show ?thesis by (simp add: seen_landing_state)
qed

text \<open>
  C37. A negative margin alone proves nothing. The watcher takes its first stamp of a generation when it
  gets to it, not before the acknowledgement that lets the initiator write: scheduled late, it
  stamps after the signal has arrived, finds only new words, and the report counts a margin below
  zero for a write that had landed in full, and was quiesced, before it was signalled.
\<close>

theorem late_watcher_reports_a_race:
  "\<exists>p s g arrived l. reachable (batch_init p) (batch_step p) s \<and> pl_quiesce p
     \<and> bt_measured s = [(g, arrived, 0, Some l)] \<and> rp_margins (bt_report s) = [- 5]
     \<and> rp_stale (bt_report s) = 0
     \<and> list_all (\<lambda>i. \<exists>t. t \<le> arrived \<and> (g, i, t) \<in> set (bt_stored s)) [0..<length (bt_words s)]"
proof -
  have "reachable (batch_init (one_generation True)) (batch_step (one_generation True)) late_watch"
    unfolding late_watch_def by (rule schedule_reachable [OF one_word_reachable])
  moreover have "bt_words late_watch = [1]"
    by (simp add: late_watch_def one_word_def one_generation_def batch_start_def last_generation_def
        may_land_def land_def has_landed_def probes_def PAGE_WORDS_def LANDING_DEADLINE_def)
  ultimately show ?thesis
    by (intro exI [of _ "one_generation True"] exI [of _ late_watch] exI [of _ 1] exI
        [of _ "\<lparr>ln_last_old = 6, ln_first_new = 6, ln_seen = False\<rparr>"])
      (auto simp: late_watch_state one_generation_def)
qed

end
