(* ===== verification/Margin_Report.thy ===== *)
theory Margin_Report
  imports Initiators Margin_Properties "HOL-Library.Log_Nat"
begin

text \<open>
  What surrounds a batch in \<open>examples/delivery_margin.rs\<close>: the command line, the control connection, the
  order of the batches, and the distributions that are printed. The rendering of floating point
  numbers as text is not modelled.
\<close>

section \<open>The control connection\<close>

text \<open>What a side will still read is a list of bytes, which ends where the other side closes.\<close>

definition le_bytes :: "u64 \<Rightarrow> u8 list" where
  "le_bytes v = map (\<lambda>k. ucast (drop_bit (8 * k) v)) [0..<8]"

definition le_value :: "u8 list \<Rightarrow> u64" where
  "le_value bs = foldr (\<lambda>b acc. push_bit 8 acc OR ucast b) bs 0"

definition read_exact :: "string \<Rightarrow> nat \<Rightarrow> u8 list \<Rightarrow> (string, u8 list) result \<times> u8 list" where
  "read_exact what n stream =
     (if length stream < n then (Inl (what @ '': failed to fill whole buffer''), [])
      else (Inr (take n stream), drop n stream))"

definition write_u64 :: "u64 \<Rightarrow> u8 list" where
  "write_u64 v = le_bytes v"

definition read_u64 :: "u8 list \<Rightarrow> (string, u64) result \<times> u8 list" where
  "read_u64 stream =
     (case read_exact ''read'' 8 stream of
        (Inl e, rest) \<Rightarrow> (Inl e, rest)
      | (Inr bytes, rest) \<Rightarrow> (Inr (le_value bytes), rest))"

definition write_bytes :: "u8 list \<Rightarrow> u8 list" where
  "write_bytes bytes = write_u64 (word_of_nat (length bytes)) @ bytes"

definition read_bytes :: "u8 list \<Rightarrow> (string, u8 list) result \<times> u8 list" where
  "read_bytes stream =
     (case read_u64 stream of
        (Inl e, rest) \<Rightarrow> (Inl e, rest)
      | (Inr n, rest) \<Rightarrow> read_exact ''read'' (unat n) rest)"

definition ack :: "u8 list" where
  "ack = [1]"

definition await_ack :: "u8 list \<Rightarrow> (string, unit) result \<times> u8 list" where
  "await_ack stream =
     (case read_exact ''await ack'' 1 stream of
        (Inl e, rest) \<Rightarrow> (Inl e, rest)
      | (Inr _, rest) \<Rightarrow> (Inr (), rest))"

text \<open>What the target sends first, and what the initiator reads of it.\<close>

record greeting =
  gr_address :: "u8 list"
  gr_exposed :: exposed
  gr_capacity :: u64

definition send_greeting :: "greeting \<Rightarrow> u8 list" where
  "send_greeting g = write_bytes (gr_address g) @ write_u64 (ex_remote_key (gr_exposed g))
     @ write_u64 (ex_remote_address (gr_exposed g)) @ write_u64 (gr_capacity g)"

definition read_greeting :: "u8 list \<Rightarrow> (string, greeting) result \<times> u8 list" where
  "read_greeting stream =
     (case read_bytes stream of
        (Inl e, s) \<Rightarrow> (Inl e, s)
      | (Inr address, s) \<Rightarrow>
          (case read_u64 s of
             (Inl e, s1) \<Rightarrow> (Inl e, s1)
           | (Inr key, s1) \<Rightarrow>
               (case read_u64 s1 of
                  (Inl e, s2) \<Rightarrow> (Inl e, s2)
                | (Inr remote, s2) \<Rightarrow>
                    (case read_u64 s2 of
                       (Inl e, s3) \<Rightarrow> (Inl e, s3)
                     | (Inr capacity, s3) \<Rightarrow>
                         (Inr \<lparr>gr_address = address,
                            gr_exposed = \<lparr>ex_remote_key = key, ex_remote_address = remote\<rparr>,
                            gr_capacity = capacity\<rparr>, s3)))))"

section \<open>The command line\<close>

fun flag :: "string list \<Rightarrow> string \<Rightarrow> string option" where
  "flag [] name = None"
| "flag (a # as) name = (if name = a then (case as of [] \<Rightarrow> None | v # _ \<Rightarrow> Some v) else flag as name)"

definition parse_usize :: "string \<Rightarrow> nat option" where
  "parse_usize s = parse_unsigned (2 ^ 64) (string_bytes s)"

text \<open>\<open>str::split\<close> at a comma, and \<open>split_once\<close>.\<close>

fun split_commas :: "string \<Rightarrow> string list" where
  "split_commas [] = [[]]"
| "split_commas (c # cs) =
     (case split_commas cs of
        [] \<Rightarrow> [[c]]
      | w # ws \<Rightarrow> if c = CHR '','' then [] # w # ws else (c # w) # ws)"

fun split_once :: "string \<Rightarrow> (string \<times> string) option" where
  "split_once [] = None"
| "split_once (c # cs) =
     (if c = CHR '','' then Some ([], cs)
      else (case split_once cs of None \<Rightarrow> None | Some (a, b) \<Rightarrow> Some (c # a, b)))"

record csv =
  csv_path :: "string option"
  csv_label :: string

definition csv_from_arguments :: "string list \<Rightarrow> csv" where
  "csv_from_arguments args = \<lparr>csv_path = flag args ''--csv'',
     csv_label = (case flag args ''--label'' of None \<Rightarrow> ''run'' | Some l \<Rightarrow> l)\<rparr>"

datatype command =
    RunTarget string nat "(nat \<times> nat) option" bool csv
  | RunInitiator string "nat list" nat bool csv

definition parse_pins :: "string list \<Rightarrow> (string, (nat \<times> nat) option) result" where
  "parse_pins args =
     (case flag args ''--pin'' of
        None \<Rightarrow> Inr None
      | Some cores \<Rightarrow>
          (case split_once cores of
             None \<Rightarrow> Inl ''--pin <watcher-core>,<signal-core>''
           | Some (w, s) \<Rightarrow>
               (case (parse_usize w, parse_usize s) of
                  (Some watcher, Some signal) \<Rightarrow> Inr (Some (watcher, signal))
                | _ \<Rightarrow> Inl ''--pin <watcher-core>,<signal-core>'')))"

definition parse_number :: "string list \<Rightarrow> string \<Rightarrow> nat \<Rightarrow> string \<Rightarrow> (string, nat) result" where
  "parse_number args name dflt problem =
     (case flag args name of
        None \<Rightarrow> Inr dflt
      | Some s \<Rightarrow> (case parse_usize s of None \<Rightarrow> Inl problem | Some n \<Rightarrow> Inr n))"

definition parse_sizes :: "string list \<Rightarrow> (string, nat list) result" where
  "parse_sizes args =
     (case flag args ''--sizes'' of
        None \<Rightarrow> Inr [64, 4096, 65536, 1024 * 1024, 16 * 1024 * 1024]
      | Some s \<Rightarrow>
          (case those (map parse_usize (split_commas s)) of
             None \<Rightarrow> Inl ''--sizes <bytes>,<bytes>,...''
           | Some ns \<Rightarrow> Inr ns))"

definition parse_command :: "string list \<Rightarrow> (string, command) result" where
  "parse_command args =
     (case args of
        role # place # _ \<Rightarrow>
          (if role = ''target'' then
             (case parse_number args ''--capacity'' (64 * 1024 * 1024) ''--capacity <bytes>'' of
                Inl e \<Rightarrow> Inl e
              | Inr capacity \<Rightarrow>
                  (case parse_pins args of
                     Inl e \<Rightarrow> Inl e
                   | Inr pins \<Rightarrow>
                       Inr (RunTarget place capacity pins (''--write-only'' \<in> set args) (csv_from_arguments args))))
           else if role = ''initiator'' then
             (case parse_sizes args of
                Inl e \<Rightarrow> Inl e
              | Inr sizes \<Rightarrow>
                  (case parse_number args ''--iterations'' 10000 ''--iterations <count>'' of
                     Inl e \<Rightarrow> Inl e
                   | Inr iterations \<Rightarrow>
                       Inr (RunInitiator place sizes iterations (''--quiesce'' \<in> set args) (csv_from_arguments args))))
           else Inl ''usage: delivery_margin target <listen> | initiator <target>'')
      | _ \<Rightarrow> Inl ''usage: delivery_margin target <listen> | initiator <target>'')"

section \<open>The write of a generation\<close>

text \<open>
  \<open>Generation\<close>, the context that comes back and is used again: the number, the memory that was
  registered for the largest size, and the length of the write.
\<close>

record generation =
  gn_number :: u64
  gn_base :: ptr
  gn_size :: usize
  gn_length :: usize

definition generation_source :: "generation \<Rightarrow> (ptr \<times> usize) option" where
  "generation_source g = (if gn_length g \<le> gn_size g then Some (gn_base g, gn_length g) else None)"

definition generation_operands :: "generation operands" where
  "generation_operands = default_operands\<lparr>op_source := generation_source\<rparr>"

definition margin_configuration :: "bool \<Rightarrow> libfabric_configuration" where
  "margin_configuration quiesce =
     default_libfabric\<lparr>lc_providers := [EfaDirect], lc_quiesce_writes := quiesce\<rparr>"

text \<open>The memory is as large as the largest size, in whole words; the first context writes nothing.\<close>

definition first_generation :: "ptr \<Rightarrow> nat list \<Rightarrow> generation" where
  "first_generation base sizes =
     \<lparr>gn_number = 0, gn_base = base, gn_size = word_of_nat (8 * (foldr max sizes 0 div 8)), gn_length = 0\<rparr>"

definition next_generation :: "nat \<Rightarrow> generation \<Rightarrow> generation" where
  "next_generation n g = g\<lparr>gn_number := gn_number g + 1, gn_length := word_of_nat n\<rparr>"

text \<open>What is in the payload when it is submitted: the number in each of its first words.\<close>

definition fill_payload :: "nat \<Rightarrow> generation \<Rightarrow> u64 list \<Rightarrow> u64 list" where
  "fill_payload n g payload =
     replicate (min (n div 8) (length payload)) (gn_number g) @ drop (n div 8) payload"

definition margin_request :: "greeting \<Rightarrow> generation \<Rightarrow> generation transfer_request" where
  "margin_request t g = \<lparr>tr_client_id = 1, tr_peer_address = gr_address t,
     tr_remote_key = ex_remote_key (gr_exposed t), tr_remote_address = ex_remote_address (gr_exposed t),
     tr_direction = ToPeer, tr_want_checksum = False, tr_caller_context = g\<rparr>"

text \<open>
  The hook: the bytes it writes to the control connection when it has the lock on it, and what it
  hands back to the initiator.
\<close>

definition margin_signal :: "generation completion \<Rightarrow> u8 list" where
  "margin_signal c =
     (case cm_outcome c of Inr _ \<Rightarrow> write_u64 (gn_number (cm_caller_context c)) | Inl _ \<Rightarrow> [])"

definition margin_hook ::
  "generation completion list \<Rightarrow> u8 list \<times> (generation \<times> (dma_error, transfer_done) result) list" where
  "margin_hook completions =
     (concat (map margin_signal completions), map (\<lambda>c. (cm_caller_context c, cm_outcome c)) completions)"

text \<open>What the initiator does with the context that came back.\<close>

definition take_back ::
  "generation \<times> (dma_error, transfer_done) result \<Rightarrow> (string, generation) result" where
  "take_back back =
     (case snd back of
        Inl e \<Rightarrow> Inl (''generation '' @ show_nat (unat (gn_number (fst back))) @ '': '' @ dma_error_display e)
      | Inr _ \<Rightarrow> Inr (fst back))"

section \<open>The batches of a run\<close>

text \<open>
  The sizes are gone through in turn; \<open>number\<close> is the last generation written. The run ends at the
  first size that is refused, after the batches before it.
\<close>

definition size_ok :: "nat \<Rightarrow> nat \<Rightarrow> bool" where
  "size_ok capacity n \<longleftrightarrow> n \<noteq> 0 \<and> n mod 64 = 0 \<and> n \<le> capacity"

fun run_batches ::
  "nat \<Rightarrow> nat \<Rightarrow> bool \<Rightarrow> nat \<Rightarrow> nat list \<Rightarrow> (nat \<times> plan) list \<times> (string, nat) result" where
  "run_batches capacity iterations quiesce number [] = ([], Inr number)"
| "run_batches capacity iterations quiesce number (n # ns) =
     (if size_ok capacity n then
        (let (batches, r) = run_batches capacity iterations quiesce (number + iterations) ns
         in ((n div 8, \<lparr>pl_first = number + 1, pl_iterations = iterations, pl_quiesce = quiesce\<rparr>) # batches, r))
      else ([], Inl (''size '' @ show_nat n @ '' must be a nonzero multiple of 64 within '' @ show_nat capacity)))"

text \<open>The words of the target's buffer that a batch writes.\<close>

definition target_words :: "nat \<Rightarrow> nat list \<Rightarrow> (string, nat list) result" where
  "target_words bytes buffer =
     (if bytes div 8 \<le> length buffer then Inr (take (bytes div 8) buffer) else Inl ''size exceeds capacity'')"

definition target_capacity_ok :: "nat \<Rightarrow> (string, unit) result" where
  "target_capacity_ok capacity =
     (if capacity mod 64 = 0 then Inr () else Inl ''--capacity must be a multiple of 64'')"

section \<open>The two ends of the connection\<close>

text \<open>
  The target up to its loop: what it sends, and what is left of what it reads. Whatever fails drops
  the target.
\<close>

definition start_margin_target ::
  "target_fabric \<Rightarrow> nat \<Rightarrow> bool \<Rightarrow> ptr \<Rightarrow> u8 list \<Rightarrow> setup_log
    \<Rightarrow> (string, target \<times> u8 list \<times> u8 list) result \<times> setup_log" where
  "start_margin_target T capacity write_only pointer incoming l =
     (case target_capacity_ok capacity of
        Inl e \<Rightarrow> (Inl e, l)
      | Inr _ \<Rightarrow>
          (case target_open T True None l of
             (Inl e, l1) \<Rightarrow> (Inl e, l1)
           | (Inr t0, l1) \<Rightarrow>
               (case expose T pointer (word_of_nat capacity) (\<not> write_only) t0 l1 of
                  (Inl e, t, l2) \<Rightarrow> (Inl e, target_drop t l2)
                | (Inr ex, t, l2) \<Rightarrow>
                    (case target_address (ta_setup T) t l2 of
                       (Inl e, l3) \<Rightarrow> (Inl e, target_drop t l3)
                     | (Inr address, l3) \<Rightarrow>
                         (case read_bytes incoming of
                            (Inl e, _) \<Rightarrow> (Inl e, target_drop t l3)
                          | (Inr initiator, rest) \<Rightarrow>
                              (case insert_initiator T initiator t l3 of
                                 (Inl e, l4) \<Rightarrow> (Inl e, target_drop t l4)
                               | (Inr _, l4) \<Rightarrow>
                                   (Inr (t, send_greeting \<lparr>gr_address = address, gr_exposed = ex,
                                       gr_capacity = word_of_nat capacity\<rparr> @ ack, rest), l4)))))))"

text \<open>The initiator up to its first size: what it knows of the target, its first context, what it sends.\<close>

definition start_margin_initiator ::
  "surroundings \<Rightarrow> bool \<Rightarrow> nat list \<Rightarrow> u8 list
    \<Rightarrow> (string, greeting \<times> generation \<times> u8 list) result \<times> u8 list" where
  "start_margin_initiator U quiesce sizes incoming =
     (case read_greeting incoming of
        (Inl e, s) \<Rightarrow> (Inl e, s)
      | (Inr greeting, s) \<Rightarrow>
          (case sg_pool U of
             Inl e \<Rightarrow> (Inl (''pool: '' @ e), s)
           | Inr _ \<Rightarrow>
               (case sg_started U (margin_configuration quiesce) of
                  Inl e \<Rightarrow> (Inl (dma_error_display e), s)
                | Inr address \<Rightarrow>
                    (case await_ack s of
                       (Inl e, s1) \<Rightarrow> (Inl e, s1)
                     | (Inr _, s1) \<Rightarrow>
                         (case sg_register U (gn_size (first_generation 0 sizes)) of
                            Inl e \<Rightarrow> (Inl (dma_error_display e), s1)
                          | Inr base \<Rightarrow>
                              (Inr (greeting, first_generation base sizes, write_bytes address), s1))))))"

text \<open>A batch is announced by its size in bytes, its number of generations and the first of them.\<close>

definition announce :: "nat \<times> plan \<Rightarrow> u8 list" where
  "announce batch = write_u64 (word_of_nat (8 * fst batch))
     @ write_u64 (word_of_nat (pl_iterations (snd batch))) @ write_u64 (word_of_nat (pl_first (snd batch)))"

text \<open>What the target reads at the head of its loop: nothing more to do, or the words, the first and the count.\<close>

definition read_batch ::
  "nat list \<Rightarrow> u8 list \<Rightarrow> (string, (nat list \<times> nat \<times> nat) option) result \<times> u8 list" where
  "read_batch buffer stream =
     (case read_u64 stream of
        (Inl e, s) \<Rightarrow> (Inl e, s)
      | (Inr n, s) \<Rightarrow>
          (if n = 0 then (Inr None, s)
           else
             (case read_u64 s of
                (Inl e, s1) \<Rightarrow> (Inl e, s1)
              | (Inr iterations, s1) \<Rightarrow>
                  (case read_u64 s1 of
                     (Inl e, s2) \<Rightarrow> (Inl e, s2)
                   | (Inr start, s2) \<Rightarrow>
                       (case target_words (unat n) buffer of
                          Inl e \<Rightarrow> (Inl e, s2)
                        | Inr words \<Rightarrow> (Inr (Some (words, unat start, unat iterations)), s2))))))"

section \<open>Double precision\<close>

text \<open>
  A double is the rational it stands for. The results of the arithmetic are rounded to 53 bits, ties
  to even. The numbers here are zero or between a thousandth and \<open>2 ^ 64\<close>, so nothing overflows and
  nothing is subnormal.
\<close>

definition power_of_two :: "int \<Rightarrow> rat" where
  "power_of_two k = power_int 2 k"

definition binade :: "rat \<Rightarrow> int" where
  "binade x =
     (case quotient_of x of
        (a, b) \<Rightarrow>
          (let k = int (floorlog 2 (nat a)) - int (floorlog 2 (nat b))
           in if power_of_two k \<le> x then k else k - 1))"

definition round_half_even :: "rat \<Rightarrow> int" where
  "round_half_even x =
     (let f = \<lfloor>x\<rfloor>; r = x - of_int f
      in if r < 1 / 2 then f else if r > 1 / 2 then f + 1 else if even f then f else f + 1)"

definition f64 :: "rat \<Rightarrow> rat" where
  "f64 x =
     (if x \<le> 0 then 0
      else let unit = power_of_two (binade x - 52) in of_int (round_half_even (x / unit)) * unit)"

text \<open>\<open>f64::round\<close>, and the cast to an index.\<close>

definition f64_index :: "rat \<Rightarrow> nat" where
  "f64_index x = nat \<lfloor>x + 1 / 2\<rfloor>"

section \<open>Distributions\<close>

definition distribution :: "int list \<Rightarrow> int list" where
  "distribution samples = sort samples"

definition quantile :: "int list \<Rightarrow> rat \<Rightarrow> int" where
  "quantile d q =
     (let top = length d - 1;
          index = f64_index (f64 (q * f64 (of_nat top)))
      in if index < length d then d ! index else 0)"

text \<open>The quantiles of a line of the report, and those of the rows of a file.\<close>

definition summary_quantiles :: "rat list" where
  "summary_quantiles = map f64 [0, 1 / 100, 1 / 2, 99 / 100, 999 / 1000, 1]"

definition csv_quantiles :: "rat list" where
  "csv_quantiles = map (\<lambda>k. f64 (of_nat k / 1000)) [0..<1001]
     @ map f64 [9995 / 10000, 9999 / 10000, 99995 / 100000, 99999 / 100000]"

text \<open>
  The files are lists of rows: label, series, size, quantile, nanoseconds. \<open>refused\<close> says why a file
  cannot be appended to.
\<close>

type_synonym row = "string \<times> string \<times> nat \<times> rat \<times> int"

definition csv_rows :: "csv \<Rightarrow> string \<Rightarrow> nat \<Rightarrow> int list \<Rightarrow> row list" where
  "csv_rows c series n d = map (\<lambda>q. (csv_label c, series, n, q, quantile d q)) csv_quantiles"

definition csv_append ::
  "(string \<Rightarrow> string option) \<Rightarrow> csv \<Rightarrow> string \<Rightarrow> nat \<Rightarrow> int list \<Rightarrow> (string \<rightharpoonup> row list)
     \<Rightarrow> (string, unit) result \<times> (string \<rightharpoonup> row list)" where
  "csv_append refused c series n d files =
     (case csv_path c of
        None \<Rightarrow> (Inr (), files)
      | Some path \<Rightarrow>
          (case refused path of
             Some problem \<Rightarrow> (Inl (''csv: '' @ problem), files)
           | None \<Rightarrow>
               (Inr (), files(path \<mapsto>
                  (case files path of None \<Rightarrow> [] | Some rows \<Rightarrow> rows) @ csv_rows c series n d))))"

text \<open>The counts of a line: races, stale iterations and words, lost generations.\<close>

definition raced :: "report \<Rightarrow> nat" where
  "raced r = length (filter (\<lambda>m. m < 0) (rp_margins r))"

definition report_lines :: "report \<Rightarrow> (nat \<times> nat \<times> nat \<times> nat) \<times> int list \<times> int list" where
  "report_lines r =
     ((raced r, rp_stale r, rp_stale_words r, rp_lost r),
      map (quantile (distribution (rp_margins r))) summary_quantiles,
      map (quantile (distribution (rp_uncertainties r))) summary_quantiles)"

definition report_files ::
  "(string \<Rightarrow> string option) \<Rightarrow> csv \<Rightarrow> nat \<Rightarrow> report \<Rightarrow> (string \<rightharpoonup> row list)
     \<Rightarrow> (string, unit) result \<times> (string \<rightharpoonup> row list)" where
  "report_files refused c n r files =
     (case csv_append refused c ''margin'' n (distribution (rp_margins r)) files of
        (Inl e, f) \<Rightarrow> (Inl e, f)
      | (Inr _, f) \<Rightarrow> csv_append refused c ''window'' n (distribution (rp_uncertainties r)) f)"

text \<open>What the initiator appends: the nanoseconds from each submission to its completion.\<close>

definition latency_files ::
  "(string \<Rightarrow> string option) \<Rightarrow> csv \<Rightarrow> nat \<Rightarrow> int list \<Rightarrow> (string \<rightharpoonup> row list)
     \<Rightarrow> (string, unit) result \<times> (string \<rightharpoonup> row list)" where
  "latency_files refused c n latencies files =
     csv_append refused c ''latency'' n (distribution latencies) files"

section \<open>What survives the connection\<close>

lemma bit_le_value:
  "n < 64 \<Longrightarrow> bit (le_value bs) n \<longleftrightarrow> n div 8 < length bs \<and> bit (bs ! (n div 8)) (n mod 8)"
proof (induction bs arbitrary: n)
  case Nil
  then show ?case by (simp add: le_value_def)
next
  case (Cons b bs)
  have step: "bit (le_value (b # bs)) n \<longleftrightarrow> 8 \<le> n \<and> bit (le_value bs) (n - 8) \<or> n < 8 \<and> bit b n"
    using Cons.prems by (auto simp: le_value_def bit_simps dest: bit_imp_le_length)
  show ?case
  proof (cases "n < 8")
    case True
    then show ?thesis by (simp add: step)
  next
    case False
    then obtain m where n: "n = m + 8" by (metis add.commute le_add_diff_inverse not_less)
    show ?thesis using step Cons.prems Cons.IH [of m] by (simp add: n)
  qed
qed

lemma le_value_bytes [simp]: "le_value (le_bytes v) = v"
proof (rule bit_word_eqI)
  fix n assume "n < LENGTH(64)"
  then have "n < 64" by simp
  then have "n div 8 < 8" by (intro less_mult_imp_div_less) simp
  then have "bit (le_bytes v ! (n div 8)) (n mod 8) \<longleftrightarrow> bit v n" by (simp add: le_bytes_def bit_simps)
  with \<open>n div 8 < 8\<close> show "bit (le_value (le_bytes v)) n \<longleftrightarrow> bit v n"
    unfolding bit_le_value [OF \<open>n < 64\<close>] by (simp only: le_bytes_def length_map length_upt) simp
qed

lemma read_write_u64 [simp]: "read_u64 (write_u64 v @ rest) = (Inr v, rest)"
proof -
  have "length (le_bytes v) = 8" by (simp add: le_bytes_def)
  then show ?thesis by (simp add: read_u64_def write_u64_def read_exact_def)
qed

lemma read_write_bytes [simp]:
  "length bytes < 2 ^ 64 \<Longrightarrow> read_bytes (write_bytes bytes @ rest) = (Inr bytes, rest)"
  by (simp add: read_bytes_def write_bytes_def read_exact_def unsigned_of_nat take_bit_nat_eq_self)

lemma read_greeting_sent:
  "length (gr_address g) < 2 ^ 64 \<Longrightarrow> read_greeting (send_greeting g @ rest) = (Inr g, rest)"
  by (simp add: read_greeting_def send_greeting_def)

section \<open>The order of the batches\<close>

text \<open>Every batch starts where the one before it ended, and within the capacity.\<close>

lemma run_batches_consecutive:
  "map (pl_first \<circ> snd) (fst (run_batches capacity iterations quiesce number ns))
     = map (\<lambda>k. number + k * iterations + 1)
         [0..<length (fst (run_batches capacity iterations quiesce number ns))]"
proof (induction ns arbitrary: number)
  case (Cons n ns)
  show ?case
    using Cons.IH [of "number + iterations"]
    by (auto simp: split_beta Let_def upt_conv_Cons map_Suc_upt [symmetric] simp del: upt_Suc)
qed simp

lemma run_batches_bounded:
  "batch \<in> set (fst (run_batches capacity iterations quiesce number ns)) \<Longrightarrow> fst batch \<le> capacity div 8"
  by (induction ns arbitrary: number)
    (auto simp: split_beta Let_def size_ok_def div_le_mono split: if_splits)

lemma run_batches_fit:
  "batch \<in> set (fst (run_batches capacity iterations quiesce number ns)) \<Longrightarrow> capacity div 8 \<le> length buffer
     \<Longrightarrow> target_words (fst batch * 8) buffer = Inr (take (fst batch) buffer)"
  using run_batches_bounded [of batch] by (fastforce simp: target_words_def)

section \<open>The handshake\<close>

lemma await_sent_ack [simp]: "await_ack (ack @ rest) = (Inr (), rest)"
  by (simp add: await_ack_def ack_def read_exact_def)

lemma unat_word_of_nat_64: "n < 2 ^ 64 \<Longrightarrow> unat (word_of_nat n :: u64) = n"
  by (simp add: unsigned_of_nat take_bit_nat_eq_self)

lemma run_batches_plans:
  "batch \<in> set (fst (run_batches capacity iterations quiesce number ns))
     \<Longrightarrow> fst batch \<noteq> 0 \<and> pl_iterations (snd batch) = iterations \<and> pl_quiesce (snd batch) = quiesce"
  by (induction ns arbitrary: number) (auto simp: split_beta Let_def size_ok_def split: if_splits elim: dvdE)

text \<open>The target takes every batch of a run for what it is, and never finds it too large.\<close>

lemma announced_batches_are_read:
  assumes batch: "batch \<in> set (fst (run_batches capacity iterations quiesce number sizes))"
    and room: "capacity div 8 \<le> length buffer" "capacity < 2 ^ 64"
    and small: "iterations < 2 ^ 64" "pl_first (snd batch) < 2 ^ 64"
  shows "read_batch buffer (announce batch @ rest)
    = (Inr (Some (take (fst batch) buffer, pl_first (snd batch), iterations)), rest)"
proof -
  have words: "target_words (8 * fst batch) buffer = Inr (take (fst batch) buffer)"
    using run_batches_fit [OF batch room(1)] by (simp add: mult.commute)
  have "8 * fst batch < 2 ^ 64"
    using run_batches_bounded [OF batch] room(2) by (simp add: le_less_trans [of _ capacity] less_eq_div_iff_mult_less_eq mult.commute)
  then have n: "unat (word_of_nat (8 * fst batch) :: u64) = 8 * fst batch" by (rule unat_word_of_nat_64)
  then have "(word_of_nat (8 * fst batch) :: u64) \<noteq> 0"
    using run_batches_plans [OF batch] by (metis mult_is_0 unat_0 zero_neq_numeral)
  moreover have "unat (word_of_nat iterations :: u64) = iterations"
    "unat (word_of_nat (pl_first (snd batch)) :: u64) = pl_first (snd batch)"
    using small by (simp_all only: unat_word_of_nat_64)
  ultimately show ?thesis
    using words n run_batches_plans [OF batch]
    unfolding read_batch_def announce_def append_assoc read_write_u64 by (simp del: of_nat_mult)
qed

lemma read_end_of_run: "read_batch buffer (write_u64 0 @ rest) = (Inr None, rest)"
  by (simp add: read_batch_def)

text \<open>
  Both ends agree. When each can be started, the bytes each sends are what the other waits for: both
  come up, and every write of the run is addressed to the target's address and to the key and the
  place of the registration the target holds.
\<close>

theorem both_ends_come_up:
  assumes opened: "capacity mod 64 = 0" "target_open T True None l = (Inr t0, l1)"
      "expose T pointer (word_of_nat capacity) (\<not> write_only) t0 l1 = (Inr ex, t, l2)"
      "target_address (ta_setup T) t l2 = (Inr address, l3)"
      "insert_initiator T local t l3 = (Inr (), l4)"
    and up: "sg_pool U = Inr ()" "sg_started U (margin_configuration quiesce) = Inr local"
      "sg_register U (gn_size (first_generation 0 sizes)) = Inr base"
    and small: "length address < 2 ^ 64" "length local < 2 ^ 64"
  shows "\<exists>sent. start_margin_target T capacity write_only pointer (write_bytes local @ beyond) l = (Inr (t, sent, beyond), l4)
    \<and> (\<exists>g gen. start_margin_initiator U quiesce sizes (sent @ signals) = (Inr (g, gen, write_bytes local), signals)
        \<and> gr_capacity g = word_of_nat capacity
        \<and> (\<forall>n. let r = margin_request g (next_generation n gen) in
              tr_peer_address r = address \<and> tr_remote_key r = ex_remote_key ex
              \<and> tr_remote_address r = ex_remote_address ex))"
proof -
  let ?g = "\<lparr>gr_address = address, gr_exposed = ex, gr_capacity = word_of_nat capacity\<rparr>"
  have "start_margin_target T capacity write_only pointer (write_bytes local @ beyond) l
      = (Inr (t, send_greeting ?g @ ack, beyond), l4)"
    using opened small by (simp add: start_margin_target_def target_capacity_ok_def)
  moreover have "start_margin_initiator U quiesce sizes ((send_greeting ?g @ ack) @ signals)
      = (Inr (?g, first_generation base sizes, write_bytes local), signals)"
    using up read_greeting_sent [of ?g "ack @ signals"] small by (simp add: start_margin_initiator_def)
  ultimately show ?thesis by (auto simp: margin_request_def Let_def)
qed

section \<open>The writes of a run\<close>

lemma word_of_nat_le_64: "n \<le> k \<Longrightarrow> k < 2 ^ 64 \<Longrightarrow> (word_of_nat n :: usize) \<le> word_of_nat k"
  by (simp add: word_le_nat_alt unat_of_nat)

text \<open>The context serves every size of the run: its memory is never too short for a write.\<close>

lemma generations_have_a_source:
  assumes "n \<in> set sizes" "n mod 8 = 0" "foldr max sizes 0 < 2 ^ 64"
  shows "generation_source (next_generation n (first_generation base sizes)) = Some (base, word_of_nat n)"
proof -
  let ?m = "foldr max sizes 0"
  have "n \<le> ?m" using assms(1) by (induction sizes) auto
  then have "n \<le> 8 * (?m div 8)" using div_le_mono [of n ?m 8] assms(2) by (auto elim!: dvdE simp: mod_0_imp_dvd)
  moreover have "8 * (?m div 8) < 2 ^ 64" using assms(3) by (simp add: le_less_trans [of _ ?m])
  ultimately have "(word_of_nat n :: usize) \<le> word_of_nat (8 * (?m div 8))" by (rule word_of_nat_le_64)
  then show ?thesis by (simp add: generation_source_def next_generation_def first_generation_def)
qed

lemma signals_are_read:
  "cm_outcome c = Inr d \<Longrightarrow> read_u64 (margin_signal c @ rest) = (Inr (gn_number (cm_caller_context c)), rest)"
  by (simp add: margin_signal_def)

section \<open>Rounding\<close>

lemma round_half_even_mono: "x \<le> y \<Longrightarrow> round_half_even x \<le> round_half_even y"
proof -
  assume le: "x \<le> y"
  then have "\<lfloor>x\<rfloor> \<le> \<lfloor>y\<rfloor>" by (rule floor_mono)
  then consider "\<lfloor>x\<rfloor> = \<lfloor>y\<rfloor>" | "\<lfloor>x\<rfloor> + 1 \<le> \<lfloor>y\<rfloor>" by linarith
  then show ?thesis
    by cases (use le in \<open>auto simp: round_half_even_def Let_def\<close>)
qed

lemma round_half_even_int [simp]: "round_half_even (of_int n) = n"
  by (simp add: round_half_even_def)

lemma power_of_two_pos [simp]: "0 < power_of_two k"
  by (simp add: power_of_two_def)

lemma power_of_two_mono: "k \<le> l \<Longrightarrow> power_of_two k \<le> power_of_two l"
  by (simp add: power_of_two_def power_int_increasing)

lemma power_of_two_add: "power_of_two (k + l) = power_of_two k * power_of_two l"
  by (simp add: power_of_two_def power_int_add)

lemma power_of_two_nat: "power_of_two (int n) = 2 ^ n"
  by (simp add: power_of_two_def)

lemma power_of_two_less: "power_of_two k < power_of_two l \<Longrightarrow> k < l"
  using power_of_two_mono [of l k] by linarith

lemma floorlog_power:
  assumes "0 < n"
  shows "power_of_two (int (floorlog 2 n) - 1) \<le> of_nat n" "of_nat n < power_of_two (int (floorlog 2 n))"
proof -
  have b: "2 ^ (floorlog 2 n - 1) \<le> n" "n < 2 ^ floorlog 2 n"
    using floorlog_bounds [of n 2] assms by simp_all
  have pos: "0 < floorlog 2 n" using b(2) assms by (cases "floorlog 2 n") auto
  have "(of_nat (2 ^ (floorlog 2 n - 1)) :: rat) \<le> of_nat n" using b(1) by (simp only: of_nat_le_iff)
  then show "power_of_two (int (floorlog 2 n) - 1) \<le> of_nat n"
    using pos power_of_two_nat [of "floorlog 2 n - 1"] by (simp add: of_nat_diff)
  have "(of_nat n :: rat) < of_nat (2 ^ floorlog 2 n)" using b(2) by (simp only: of_nat_less_iff)
  then show "of_nat n < power_of_two (int (floorlog 2 n))" using power_of_two_nat [of "floorlog 2 n"] by simp
qed

lemma binade_bounds:
  assumes "0 < x"
  shows "power_of_two (binade x) \<le> x \<and> x < power_of_two (binade x + 1)"
proof -
  obtain a b where q: "quotient_of x = (a, b)" by (cases "quotient_of x")
  have x: "x = of_int a / of_int b" and b: "0 < b" using q quotient_of_div quotient_of_denom_pos by blast+
  then have a: "0 < a" using assms by (simp add: zero_less_divide_iff)
  define la where "la = int (floorlog 2 (nat a))"
  define lb where "lb = int (floorlog 2 (nat b))"
  have A: "power_of_two (la - 1) \<le> of_int a" "of_int a < power_of_two la"
    and B: "power_of_two (lb - 1) \<le> of_int b" "of_int b < power_of_two lb"
    using floorlog_power [of "nat a"] floorlog_power [of "nat b"] a b by (simp_all add: la_def lb_def)
  have "x < power_of_two la / power_of_two (lb - 1)"
    unfolding x by (rule frac_less) (use A B a b in simp_all)
  then have up: "x < power_of_two (la - lb + 1)"
    using power_of_two_add [of "la - lb + 1" "lb - 1"] by (simp add: field_simps)
  have "power_of_two (la - 1) / power_of_two lb < x"
    unfolding x by (rule frac_less2) (use A B a b in simp_all)
  then have low: "power_of_two (la - lb - 1) < x"
    using power_of_two_add [of "la - lb - 1" lb] by (simp add: field_simps)
  show ?thesis
    using up low by (auto simp: binade_def q la_def [symmetric] lb_def [symmetric] Let_def algebra_simps)
qed

lemma f64_mono:
  assumes "x \<le> y"
  shows "f64 x \<le> f64 y"
proof (cases "x \<le> 0")
  case True
  have "0 \<le> round_half_even (y / power_of_two (binade y - 52))" if "0 < y"
    using round_half_even_mono [of "of_int 0" "y / power_of_two (binade y - 52)"] that
    by (simp only: round_half_even_int) (simp add: less_imp_le)
  then show ?thesis using True by (simp add: f64_def Let_def less_imp_le)
next
  case False
  then have pos: "0 < x" "0 < y" using assms by simp_all
  have le: "binade x \<le> binade y"
    using binade_bounds [OF pos(1)] binade_bounds [OF pos(2)] assms
      power_of_two_less [of "binade x" "binade y + 1"] by linarith
  show ?thesis
  proof (cases "binade x = binade y")
    case True
    have "x / power_of_two (binade y - 52) \<le> y / power_of_two (binade y - 52)"
      using assms by (simp add: divide_right_mono less_imp_le)
    from round_half_even_mono [OF this] show ?thesis
      using pos True by (simp add: f64_def Let_def mult_right_mono less_imp_le)
  next
    case False
    let ?b = "binade x"
    have "x \<le> power_of_two (?b + 1)" using binade_bounds [OF pos(1)] by simp
    then have "x / power_of_two (?b - 52) \<le> of_int (2 ^ 53)"
      using power_of_two_add [of "53" "?b - 52"] power_of_two_nat [of 53] by (simp add: divide_le_eq add.commute)
    from round_half_even_mono [OF this] have "round_half_even (x / power_of_two (?b - 52)) \<le> 2 ^ 53"
      by (simp only: round_half_even_int)
    then have "f64 x \<le> of_int (2 ^ 53) * power_of_two (?b - 52)"
      using pos unfolding f64_def Let_def by (simp add: mult_right_mono less_imp_le)
    also have "\<dots> = power_of_two (?b + 1)"
      using power_of_two_add [of "53" "?b - 52"] power_of_two_nat [of 53] by (simp add: add.commute)
    also have "\<dots> \<le> power_of_two (binade y)" using le False by (intro power_of_two_mono) simp
    also have "\<dots> \<le> f64 y"
    proof -
      have "of_int (2 ^ 52) \<le> y / power_of_two (binade y - 52)"
        using power_of_two_add [of "52" "binade y - 52"] power_of_two_nat [of 52] binade_bounds [OF pos(2)]
        by (simp add: le_divide_eq)
      from round_half_even_mono [OF this] have "2 ^ 52 \<le> round_half_even (y / power_of_two (binade y - 52))"
        by (simp only: round_half_even_int)
      then have "of_int (2 ^ 52) * power_of_two (binade y - 52) \<le> f64 y"
        using pos unfolding f64_def Let_def
        by (simp only: not_le [symmetric] if_False) (intro mult_right_mono; simp add: less_imp_le)
      then show ?thesis
        using power_of_two_add [of "52" "binade y - 52"] power_of_two_nat [of 52] by simp
    qed
    finally show ?thesis .
  qed
qed

lemma f64_nat: 
  assumes "n < 2 ^ 53"
  shows "f64 (of_nat n) = of_nat n"
proof (cases "n = 0")
  case True
  then show ?thesis by (simp add: f64_def)
next
  case False
  let ?x = "of_nat n :: rat" and ?b = "binade (of_nat n)"
  have b: "power_of_two ?b \<le> ?x" "?x < power_of_two (?b + 1)" using binade_bounds [of ?x] False by simp_all
  have "of_nat n < (2 ^ 53 :: rat)" using assms by (metis of_nat_less_iff of_nat_numeral of_nat_power)
  then have "power_of_two ?b < power_of_two 53" using b power_of_two_nat [of 53] by simp
  then have "?b \<le> 52" using power_of_two_less by fastforce
  then obtain k :: nat where k: "52 - ?b = int k" by (metis zero_le_imp_eq_int diff_ge_0_iff_ge)
  have "power_of_two (?b - 52) * power_of_two (int k) = 1"
    using power_of_two_add [of "?b - 52" "52 - ?b"] power_of_two_nat [of 0] by (simp add: k [symmetric])
  then have u: "power_of_two (?b - 52) * 2 ^ k = 1" by (simp only: power_of_two_nat)
  then have "?x / power_of_two (?b - 52) = ?x * 2 ^ k"
    using power_of_two_pos [of "?b - 52"] by (simp add: divide_eq_eq mult.assoc mult.commute del: power_of_two_pos)
  also have "\<dots> = of_int (int n * 2 ^ k)" by simp
  finally have "round_half_even (?x / power_of_two (?b - 52)) = int n * 2 ^ k" by (simp only: round_half_even_int)
  then show ?thesis using False u by (simp add: f64_def Let_def mult.assoc mult.commute)
qed

section \<open>Quantiles\<close>

definition quantile_index :: "nat \<Rightarrow> rat \<Rightarrow> nat" where
  "quantile_index n q = f64_index (f64 (q * f64 (of_nat n)))"

lemma f64_index_mono: "x \<le> y \<Longrightarrow> f64_index x \<le> f64_index y"
  unfolding f64_index_def by (intro nat_mono floor_mono) simp

lemma f64_index_nat [simp]: "f64_index (of_nat n) = n"
proof -
  have "\<lfloor>of_nat n + 1 / 2 :: rat\<rfloor> = int n" by (simp add: floor_eq_iff)
  then show ?thesis by (simp add: f64_index_def)
qed

lemma quantile_index_mono: "q \<le> r \<Longrightarrow> quantile_index n q \<le> quantile_index n r"
proof -
  assume "q \<le> r"
  moreover have "0 \<le> f64 (of_nat n)" using f64_mono [of 0 "of_nat n"] by (simp add: f64_def)
  ultimately show ?thesis
    unfolding quantile_index_def by (intro f64_index_mono f64_mono mult_right_mono)
qed

lemma quantile_index_ends [simp]:
  "quantile_index n 0 = 0"
  "n < 2 ^ 53 \<Longrightarrow> quantile_index n 1 = n"
  using f64_index_nat [of 0] by (simp_all add: quantile_index_def f64_nat) (simp add: f64_def)

lemma quantile_nth:
  assumes "q \<le> 1" "samples \<noteq> []" "length samples \<le> 2 ^ 53"
  shows "quantile (distribution samples) q = sort samples ! quantile_index (length samples - 1) q"
    and "quantile_index (length samples - 1) q < length samples"
proof -
  have "length samples - 1 < 2 ^ 53" using assms by (cases samples) auto
  then have "quantile_index (length samples - 1) q \<le> length samples - 1"
    using quantile_index_mono [OF assms(1), of "length samples - 1"] by simp
  then show "quantile_index (length samples - 1) q < length samples" using assms(2) by (cases samples) auto
  then show "quantile (distribution samples) q = sort samples ! quantile_index (length samples - 1) q"
    by (simp only: quantile_def distribution_def Let_def quantile_index_def length_sort if_True)
qed

lemma sort_ends:
  fixes xs :: "int list"
  assumes "xs \<noteq> []"
  shows "Min (set xs) = sort xs ! 0" "Max (set xs) = sort xs ! (length xs - 1)"
proof -
  have between: "sort xs ! 0 \<le> x \<and> x \<le> sort xs ! (length xs - 1)" if x: "x \<in> set xs" for x
  proof -
    from x obtain i where "i < length xs" "x = sort xs ! i" by (metis in_set_conv_nth length_sort set_sort)
    then show ?thesis by (auto intro!: sorted_nth_mono)
  qed
  have ends: "sort xs ! 0 \<in> set xs" "sort xs ! (length xs - 1) \<in> set xs"
    using nth_mem [of 0 "sort xs"] nth_mem [of "length xs - 1" "sort xs"] assms by simp_all
  show "Min (set xs) = sort xs ! 0" using between ends by (intro Min_eqI) auto
  show "Max (set xs) = sort xs ! (length xs - 1)" using between ends by (intro Max_eqI) auto
qed

text \<open>
  C38. The quantiles of a report are sound although they are computed with doubles: for any sample of at
  most \<open>2 ^ 53\<close> measurements, whatever the multiplication rounds to, a quantile is one of the
  measurements, it does not decrease from one fraction to a greater one, and the ends are the least and the
  greatest measurement.
\<close>

theorem quantiles_of_a_sample:
  assumes "samples \<noteq> []" "length samples \<le> 2 ^ 53" "0 \<le> q" "q \<le> r" "r \<le> 1"
  shows "quantile (distribution samples) q \<in> set samples
    \<and> quantile (distribution samples) q \<le> quantile (distribution samples) r
    \<and> quantile (distribution samples) 0 = Min (set samples)
    \<and> quantile (distribution samples) 1 = Max (set samples)"
proof (intro conjI)
  let ?d = "sort samples" and ?i = "quantile_index (length samples - 1)"
  have q: "q \<le> 1" using assms by simp
  note at = quantile_nth [OF _ assms(1,2)]
  show "quantile (distribution samples) q \<in> set samples"
    using at [OF q] nth_mem [of "?i q" ?d] by simp
  show "quantile (distribution samples) q \<le> quantile (distribution samples) r"
    using at [OF q] at [OF assms(5)] quantile_index_mono [OF assms(4)] by (simp add: sorted_nth_mono)
  have ends: "?d ! 0 = Min (set samples)" "?d ! (length samples - 1) = Max (set samples)"
    using sort_ends [OF assms(1)] by simp_all
  show "quantile (distribution samples) 0 = Min (set samples)" using at [of 0] ends by simp
  have "length samples - 1 < 2 ^ 53" using assms by (cases samples) auto
  then show "quantile (distribution samples) 1 = Max (set samples)" using at [of 1] ends by simp
qed

theorem quantiles_of_a_sample_witness:
  "quantile (distribution [5, - 3, 7]) (1 / 2) \<in> {5, - 3, 7}
   \<and> quantile (distribution [5, - 3, 7]) (1 / 2) \<le> quantile (distribution [5, - 3, 7]) (99 / 100)
   \<and> quantile (distribution [5, - 3, 7]) 0 = - 3 \<and> quantile (distribution [5, - 3, 7]) 1 = 7"
  using quantiles_of_a_sample [of "[5, - 3, 7]" "1 / 2" "99 / 100"] by simp

end
