(* ===== verification/Spec2Isabelle.thy ===== *)
theory Spec2Isabelle
  imports Protocol Fabric Region_Cache Local_Regions Peer_Addresses Endpoint Endpoint_Setup Worker
    Worker_Invariant Service Service_Properties Wire_Leases Worker_Turns Worker_Behaviour Service_Refinement Asynchronous
    Reply Pool Settings Memory Commands Transfers Module_System Module_Behaviour
    Passive_Target Initiators Delivery_Margin Margin_Properties Margin_Report
begin

text \<open>
  A development for vdma, a valkey module that moves values by one-sided DMA over libfabric, and for
  the library \<open>dma-libfabric\<close> it is built on. \<open>src/crates/\<close> is left out of the paths below.

  \<^bold>\<open>The program.\<close> A client sends \<open>DMA.SET\<close> or \<open>DMA.GET\<close> with an advertisement of its own buffer.
  The command thread of valkey checks the arguments, blocks the client, and submits a request to the
  service of one device. A service is a channel and a worker thread that owns a libfabric endpoint:
  it posts the operations, reaps their completions, quiesces writes, hands checksums to a pool, and
  calls the completion hook with batches. The hook of the module takes valkey's lock, commits the
  verified values, and then replies. Registrations of memory with the device are cached under the
  addresses they cover; jemalloc's extent hooks retire them before pages are given back.

  \<^bold>\<open>Theories, and the code each of them models.\<close>

  \<^item> \<open>Vdma_Prelude\<close>: the widths of the machine integers, results as sums, reachability, the interfaces
    \<open>step_invariant\<close> and \<open>refinement\<close>, and lemmas the others share. \<open>Arc_Heap\<close>: reference-counted
    cells, with the value given out when the last reference goes (\<open>Arc\<close> and \<open>Weak\<close>). \<open>BTree_Map\<close>: the
    ordered map of the standard library as a sorted association list, with its interface
    \<open>ordered_map\<close>.
  \<^item> \<open>Protocol\<close> (\<open>dma-libfabric-protocol/src\<close>): advertisements, their parsing and printing, checksums,
    the error type.
  \<^item> \<open>Fabric\<close> (\<open>dma-libfabric/src/error.rs\<close> and the calls of libfabric): libfabric is the record
    \<open>fabric\<close> of functions of the log of the calls made so far; the world of a device is that log, the
    heap of registrations, the heap of peer entries and the region registry.
  \<^item> \<open>Region_Cache\<close> (\<open>region_cache.rs\<close>): the registry of cached registrations, leases, and lookups; the
    interface \<open>span_cache\<close> states what the rest relies on. \<open>Local_Regions\<close> (\<open>local_regions.rs\<close>,
    \<open>operands.rs\<close>, \<open>memory_region.rs\<close>): resolving an operand to a lease. \<open>Peer_Addresses\<close>
    (\<open>peer_addresses.rs\<close>): the address vector shared between clients.
  \<^item> \<open>Endpoint\<close> and \<open>Endpoint_Setup\<close> (\<open>endpoint.rs\<close>, \<open>connection.rs\<close>, \<open>devices.rs\<close>): reaping, posting,
    peers, and opening and closing the objects of libfabric.
  \<^item> \<open>Worker\<close> (\<open>server_dma_worker.rs\<close>): every block of the event loop as a function of the state of the
    worker, composed to \<open>pass\<close>. \<open>Service\<close> (\<open>server.rs\<close>): the callers' side, the turns of the worker, one for
    each turn of an inner loop, and the step relation \<open>service_step\<close> that interleaves callers, turns
    and the pool's threads. \<open>Worker_Turns\<close>: turns with nobody between them are a \<open>pass\<close>,
    which checks one rendering of the loop against the other.
  \<^item> \<open>Asynchronous\<close> (\<open>asynchronous.rs\<close>), \<open>Reply\<close> (\<open>reply.rs\<close>), \<open>Pool\<close> (\<open>pool.rs\<close>): futures, one-shot
    replies and the thread pool, each as a step relation over its critical sections.
  \<^item> \<open>Settings\<close> (\<open>configuration/src\<close> and \<open>dma-libfabric/src/configuration.rs\<close>): the settings, their
    defaults and how a parsed document is read.
  \<^item> \<open>Memory\<close> (\<open>module/src/memory\<close>): jemalloc's hooks. \<open>Commands\<close> (\<open>module/src/entry.rs\<close>,
    \<open>session.rs\<close>, \<open>static_state.rs\<close>, the two small files for errors and log lines): the start of the
    module and the arguments of commands. \<open>Transfers\<close> (\<open>module/src/transfer.rs\<close>): tokens, the choice
    of a device, the two data commands, the completion of a batch. \<open>Module_System\<close> puts the module
    together: commands, disconnects, the steps of every device, and the two halves of the hook.
  \<^item> The programs beside the library (\<open>dma-libfabric/examples\<close>). \<open>Passive_Target\<close>
    (\<open>passive_target/mod.rs\<close>): the client half, on the objects and the log of \<open>Endpoint_Setup\<close>.
    \<open>Initiators\<close> (\<open>common/mod.rs\<close>, \<open>one_transfer.rs\<close>, \<open>async_transfer.rs\<close>, \<open>read_from_peer.rs\<close>,
    \<open>registered_arena.rs\<close>, \<open>one_target.rs\<close>): command lines, the request each submits, and the target
    they talk to. \<open>Delivery_Margin\<close> (\<open>delivery_margin.rs\<close>): one batch of the measurement, its four
    threads and the network as a step relation; \<open>Margin_Report\<close>: the rest of that program, from the
    bytes on the control connection to the quantiles, with doubles as the rationals they stand for.

  \<^bold>\<open>What is shown.\<close>

  \<^item> Ownership. Registrations, peer entries and the objects of an endpoint are closed exactly once,
    and never while something uses them (\<open>Region_Cache\<close>, \<open>Local_Regions\<close>, \<open>Peer_Addresses\<close>,
    \<open>Endpoint_Setup\<close>). Memory that jemalloc reclaims is not registered any more (\<open>Memory\<close>).
  \<^item> Conservation. \<open>Worker_Invariant\<close> proves one invariant for every function of the worker, by the
    interface \<open>worker_env\<close>; \<open>Service\<close> lifts it to \<open>service_step\<close>. From it follow the properties of
    \<open>Service_Properties\<close>: no context is lost or delivered twice, boxes outlive their operation, the
    counts are exact, a worker that stops owes nothing. \<open>Wire_Leases\<close> adds an invariant of its own: each
    context on the wire is tied to the message that posted it, to the lease in its box and to the
    open region that covers the message's buffer; all other steps are shown to post nothing.
  \<^item> Behaviour. \<open>Worker_Behaviour\<close> states what the operations do branch by branch: intake, stalls and
    deadlines, quiescing, deferred removal of peers, the cap, the delay of a batch.
  \<^item> Refinement. \<open>Service_Refinement\<close> maps a service to its promise, the bag of contexts it owes and the
    batches it settled. The two clients of the library rest on it: futures resolve once and no
    wake-up is lost (\<open>Asynchronous\<close>), and a blocked client gets one reply (\<open>Module_System\<close>: the count of the
    tokens that name a client, or a retained value, is one locale, \<open>token_tag\<close>, interpreted twice).
  \<^item> The keyspace. \<open>Module_Behaviour\<close>: only verified values are committed, buffers are settled once, a
    \<open>DMA.GET\<close> writes exactly the bytes of its value and only into the client's buffer, ties between
    devices rotate, and the hooks come to an end, with every verified value committed, every buffer
    settled and every reply sent (\<open>finishing\<close> are the steps that are left once the devices are quiet). \<open>Module_System\<close>: a retained value outlives the transfer of its bytes.
  \<^item> The examples. What the target prints is what the initiators read (\<open>Initiators\<close>), and it closes
    all it opened (\<open>Passive_Target\<close>, by the locale \<open>construction\<close> that the endpoint also interprets).
    \<open>Margin_Properties\<close>: which lines of the report prove that a write landed after its completion, that
    quiesced writes give none, and that a late watcher gives one without a race. \<open>Margin_Report\<close>:
    both ends come up and read what the other sent, batches follow each other within the buffer,
    rounding is monotone, quantiles are sound.

  \<^bold>\<open>Parameters.\<close> libfabric, jemalloc, the module API of valkey, the CRC routine, the parsers of TOML,
  durations and socket addresses, and the allocator of boxes are arguments. What is assumed of them
  are the predicates \<open>cq_contract\<close> (a completion is of an operation that was posted, and comes once),
  \<open>library_ok\<close> (handles are fresh and, on success, not null), \<open>allocator_ok\<close> (an arena owns its pages
  and its number is what jemalloc answers), \<open>valkey_contract\<close> (the memory behind a value that was retained, or
  copied, holds the bytes that were read),
  and that a box in use is not allocated again. Each has an instance that the witnesses run on. The
  examples add the records \<open>target_fabric\<close>, the calls that only a target makes, and \<open>surroundings\<close>, the
  command line, the pool, the start of a service and standard input; nothing is assumed of them.

  \<^bold>\<open>Bounds and fuel.\<close> Integers have the width of the code; counts that the code never lets wrap are
  natural numbers. The loops of the worker are bounded by their lists; \<open>reap\<close> has a measure, the
  room left in its output. The one fuel is that of the printing of provider names as UTF-8, where
  the length of the input is enough. Generations and the clock of \<open>Delivery_Margin\<close> are natural
  numbers; the sample of a quantile has at most \<open>2 ^ 53\<close> entries. The outer loop of the worker is not a function: its turns are,
  and the step relation repeats them.

  \<^bold>\<open>Atomicity.\<close> A step of the worker is one turn of one of its inner loops: one message taken in, one
  operation posted, one call of \<open>reap\<close>, one completion dispatched, one quiesce read posted, one end of a
  pass. Submissions, disconnects, checksum jobs and reclaims come between any two of them; what the
  code keeps in local variables meanwhile is the argument of \<open>mode\<close>. The cache itself is treated at
  the grain of its lock in \<open>Region_Cache\<close>. A command, and the locked half of a batch, are one step,
  for both hold valkey's lock; each reply after it is a step. In \<open>Asynchronous\<close> the steps are the
  critical sections of the cell, and in \<open>Reply\<close> those of the slot. In \<open>Pool\<close> a submit is two steps, the
  turn taken from the shared counter and the send, which other workers' submits come between. In \<open>Delivery_Margin\<close> they are single
  loads, stores, clock readings and messages, and the words of a write land one by one in any order. Every device has its own world,
  so the one registry the process has is seen by device; the lookups of \<open>ensure_covered\<close> are made
  at the log of that device and are not appended to it. Coarser than the code are: \<open>submit\<close> of the
  service, whose count and send are one step, so that a count raised by one before its message is
  in the channel is not seen; and \<open>serve_operand\<close> of \<open>Memory\<close>, where the lookup of the arena, the
  registration and its tracking are one step for the reclaiming hooks (the code relies on an operand
  being live, so that none of its pages is reclaimed), with the arena of an address fixed.

  \<^bold>\<open>What modelling showed.\<close> A checksum job left in the pool keeps the lease of its operation after the
  worker is gone, so its region is closed after its domain, against the comment in
  \<open>endpoint.rs\<close> (\<open>Service_Properties\<close>, \<open>regions_of_pool_jobs_outlive_the_endpoint\<close>). A null context in the middle of a batch makes
  \<open>reap\<close> lose the entries behind it. A short cached region inside a pinned one shadows it.
  \<open>huge_arena::tune\<close> does not notice that oversize routing is off. A watcher that runs late makes the
  report of \<open>delivery_margin\<close> count a race that was none (\<open>Margin_Properties\<close>, the last theorem). The mode in
  the hints of the passive target lacks \<open>FI_RX_CQ_DATA\<close>, which the server asks for (\<open>Passive_Target\<close>).

  \<^bold>\<open>Not modelled.\<close> Tracing spans and \<open>observability.rs\<close>, spin and yield hints, \<open>Debug\<close> output, lock
  poisoning where the code ignores it, and the registration macro of the module: no decision of the
  program depends on them. The log of libfabric's calls does not record the access bits of a
  registration nor the \<open>FI_DELIVERY_COMPLETE\<close> flag of a post. A service of \<open>Service\<close> starts with any sound
  world, also one with regions cached by other domains of the process. In \<open>Delivery_Margin\<close> a signal
  is always written: one that fails ends the measurement with a missing acknowledgement, so that its
  batch has no report. Of the examples, the
  pinning of threads, the set-up of sockets, the lines that only announce progress and the printing
  of numbers as text. The unit tests are not part of the program. \<open>build.rs\<close> and \<open>sys.rs\<close> are linker
  arguments and generated bindings.
\<close>

end
